(* ===== verification/Prelude.thy ===== *)
theory Prelude
  imports Main "HOL-Library.Word"
begin

unbundle bit_operations_syntax

text \<open>
  What every component shares: the names of Rust's machine integers, the result type behind
  Rust's \<open>?\<close> operator, the polling type of Rust's \<open>std::task\<close>, the little-endian byte
  layouts of \<open>u16\<close> and \<open>u32\<close> (Rust's \<open>to_le_bytes\<close> and \<open>from_le_bytes\<close>), and the generic list
  lemmas that the component proofs rewrite with.

  Sizes and lengths (\<open>usize\<close>) are \<open>nat\<close>: the program only adds the length of a buffer in memory
  to the constant 8, which cannot overflow a 64-bit \<open>usize\<close>, and its one subtraction is
  \<open>saturating_sub\<close>, which is what subtraction on \<open>nat\<close> does. The integers whose wrap-around or
  truncation matters (the header's \<open>u16\<close> length, the \<open>u32\<close> stream ids, the \<open>i64\<close> tokens) are words.
\<close>

type_synonym byte = "8 word"
type_synonym u8 = "8 word"
type_synonym u16 = "16 word"
type_synonym u32 = "32 word"
type_synonym i64 = "64 word"
type_synonym bytes = "byte list"

section \<open>Lists\<close>

lemma take_min_length [simp]: "take (min (length xs) n) xs = take n xs"
  by (cases "n \<le> length xs") simp_all

lemma drop_min_length [simp]: "drop (min (length xs) n) xs = drop n xs"
  by (cases "n \<le> length xs") simp_all

section \<open>Results and the question mark operator\<close>

definition and_then :: "'e + 'a \<Rightarrow> ('a \<Rightarrow> 'e + 'b) \<Rightarrow> 'e + 'b" where
  "and_then r f = (case r of Inl e \<Rightarrow> Inl e | Inr a \<Rightarrow> f a)"

lemma and_then_simps [simp]:
  "and_then (Inl e) f = Inl e"
  "and_then (Inr a) f = f a"
  by (simp_all add: and_then_def)

lemma and_then_Inr_iff: "and_then r f = Inr b \<longleftrightarrow> (\<exists>a. r = Inr a \<and> f a = Inr b)"
  by (cases r) simp_all

definition is_ok :: "'e + 'a \<Rightarrow> bool" where
  "is_ok r = (case r of Inl _ \<Rightarrow> False | Inr _ \<Rightarrow> True)"

lemma is_ok_simps [simp]: "is_ok (Inr a)" "\<not> is_ok (Inl e)"
  by (simp_all add: is_ok_def)

datatype 'a poll = Ready 'a | Pending

section \<open>Little-endian layouts\<close>

definition u16_to_le_bytes :: "u16 \<Rightarrow> bytes" where
  "u16_to_le_bytes n = [ucast n, ucast (drop_bit 8 n)]"

definition u16_from_le_bytes :: "byte \<Rightarrow> byte \<Rightarrow> u16" where
  "u16_from_le_bytes b0 b1 = ucast b0 OR push_bit 8 (ucast b1)"

definition u32_to_le_bytes :: "u32 \<Rightarrow> bytes" where
  "u32_to_le_bytes n =
     [ucast n, ucast (drop_bit 8 n), ucast (drop_bit 16 n), ucast (drop_bit 24 n)]"

definition u32_from_le_bytes :: "byte \<Rightarrow> byte \<Rightarrow> byte \<Rightarrow> byte \<Rightarrow> u32" where
  "u32_from_le_bytes b0 b1 b2 b3 =
     ucast b0 OR push_bit 8 (ucast b1) OR push_bit 16 (ucast b2) OR push_bit 24 (ucast b3)"

lemma u16_le_roundtrip [simp]: "u16_from_le_bytes (ucast n) (ucast (drop_bit 8 n)) = n"
  unfolding u16_from_le_bytes_def
  by (rule bit_word_eqI) (auto simp: bit_simps)

lemma u32_le_roundtrip [simp]:
  "u32_from_le_bytes (ucast n) (ucast (drop_bit 8 n)) (ucast (drop_bit 16 n))
     (ucast (drop_bit 24 n)) = n"
proof (rule bit_word_eqI)
  fix k assume "k < LENGTH(32)"
  then show "bit (u32_from_le_bytes (ucast n) (ucast (drop_bit 8 n)) (ucast (drop_bit 16 n))
     (ucast (drop_bit 24 n))) k = bit n k"
    unfolding u32_from_le_bytes_def
    by (cases "k < 8"; cases "k < 16"; cases "k < 24") (auto simp: bit_simps not_less)
qed

lemma u16_le_bytes_of [simp]: "u16_to_le_bytes (u16_from_le_bytes b0 b1) = [b0, b1]"
proof -
  have "ucast (u16_from_le_bytes b0 b1) = b0"
    unfolding u16_from_le_bytes_def by (rule bit_word_eqI) (auto simp: bit_simps)
  moreover have "ucast (drop_bit 8 (u16_from_le_bytes b0 b1)) = b1"
    unfolding u16_from_le_bytes_def
    by (rule bit_word_eqI) (auto simp: bit_simps dest: bit_imp_le_length)
  ultimately show ?thesis by (simp add: u16_to_le_bytes_def)
qed

lemma u32_le_bytes_of [simp]:
  "u32_to_le_bytes (u32_from_le_bytes b0 b1 b2 b3) = [b0, b1, b2, b3]"
proof -
  let ?n = "u32_from_le_bytes b0 b1 b2 b3"
  note bits = u32_from_le_bytes_def bit_simps not_less
  have "ucast ?n = b0"
    by (rule bit_word_eqI) (auto simp: bits)
  moreover have "ucast (drop_bit 8 ?n) = b1"
    by (rule bit_word_eqI) (auto simp: bits dest: bit_imp_le_length)
  moreover have "ucast (drop_bit 16 ?n) = b2"
    by (rule bit_word_eqI) (auto simp: bits dest: bit_imp_le_length)
  moreover have "ucast (drop_bit 24 ?n) = b3"
    by (rule bit_word_eqI) (auto simp: bits dest: bit_imp_le_length)
  ultimately show ?thesis by (simp add: u32_to_le_bytes_def)
qed

lemma unat_u32_of_nat: "n < 2 ^ 32 \<Longrightarrow> unat (word_of_nat n :: u32) = n"
  by (simp add: unsigned_of_nat take_bit_nat_eq_self)

lemma length_to_le_bytes [simp]:
  "length (u16_to_le_bytes n) = 2" "length (u32_to_le_bytes m) = 4"
  by (simp_all add: u16_to_le_bytes_def u32_to_le_bytes_def)

section \<open>Sums over lists\<close>

lemma sum_list_replace:
  fixes xs :: "'a list" and g :: "'a \<Rightarrow> 'b :: comm_monoid_add"
  assumes "i < length xs"
  shows "sum_list (map g (xs[i := x])) + g (xs ! i) = sum_list (map g xs) + g x"
  using assms
proof (induction xs arbitrary: i)
  case (Cons y xs)
  show ?case
  proof (cases i)
    case 0
    then show ?thesis by (simp add: ac_simps)
  next
    case (Suc j)
    with Cons have "sum_list (map g (xs[j := x])) + g (xs ! j) = sum_list (map g xs) + g x" by simp
    with Suc show ?thesis by (simp add: add.assoc)
  qed
qed simp

section \<open>Bounded runs\<close>

text \<open>Where a run can go on unless it has ended, and only boundedly often, one ends.\<close>

lemma bounded_run_ends:
  assumes "R (0 :: nat) x" "\<And>k y. R k y \<Longrightarrow> k \<le> m" "\<And>k y. \<lbrakk>R k y; \<not> ended y\<rbrakk> \<Longrightarrow> \<exists>z. R (Suc k) z"
  shows "\<exists>k y. R k y \<and> ended y"
proof (rule ccontr)
  assume never: "\<nexists>k y. R k y \<and> ended y"
  have "\<exists>y. R k y" for k
    using assms(1,3) never by (induction k) blast+
  with assms(2) [of "Suc m"] show False by fastforce
qed

end
