(* ===== verification/Errors.thy ===== *)
theory Errors
  imports Prelude
begin

text \<open>
  \<open>src/src/error.rs\<close>: the error type of the library and its classification into recoverable and
  fatal errors. \<open>std::io::Error\<close> is a kind and a message; the kinds the program names are
  constructors and every other kind of \<open>std::io::ErrorKind\<close> is \<open>OtherKind\<close> with a number. The message
  is what the error displays.
\<close>

datatype io_error_kind =
    WouldBlock
  | Interrupted
  | BrokenPipe
  | UnexpectedEof
  | OtherKind nat

record io_error =
  io_kind :: io_error_kind
  io_message :: string

definition io_error_new :: "io_error_kind \<Rightarrow> string \<Rightarrow> io_error" where
  "io_error_new k m = \<lparr>io_kind = k, io_message = m\<rparr>"

datatype smux_error =
    Io io_error
  | InvalidProtocol u8
  | FrameTooLarge nat nat  \<comment> \<open>size, max\<close>
  | SessionClosed
  | StreamNotFound u32
  | StreamAlreadyExists u32
  | InvalidStreamId u32
  | ConfigError string
  | InvalidFrame
  | Timeout
  | BufferOverflow
  | ProtocolViolation string
  | InsufficientData

type_synonym 'a result = "smux_error + 'a"

text \<open>The conversion that \<open>thiserror\<close> derives for the variant marked \<open>#[from]\<close>, which \<open>?\<close> uses.\<close>

definition from_io_error :: "io_error \<Rightarrow> smux_error" where
  "from_io_error e = Io e"

fun is_recoverable :: "smux_error \<Rightarrow> bool" where
  "is_recoverable (Io e) = (io_kind e \<in> {WouldBlock, Interrupted})"
| "is_recoverable Timeout = True"
| "is_recoverable BufferOverflow = True"
| "is_recoverable SessionClosed = False"
| "is_recoverable (InvalidProtocol _) = False"
| "is_recoverable (ConfigError _) = False"
| "is_recoverable (ProtocolViolation _) = False"
| "is_recoverable InsufficientData = False"
| "is_recoverable (FrameTooLarge _ _) = False"
| "is_recoverable (StreamNotFound _) = False"
| "is_recoverable (StreamAlreadyExists _) = False"
| "is_recoverable (InvalidStreamId _) = False"
| "is_recoverable InvalidFrame = False"

text \<open>
  The texts that \<open>thiserror\<close> generates from the attributes of the variants, and the decimal numbers that
  they contain.
\<close>

function decimal :: "nat \<Rightarrow> string" where
  "decimal n = (if n < 10 then [''0123456789'' ! n] else decimal (n div 10) @ [''0123456789'' ! (n mod 10)])"
  by pat_completeness auto
termination by (relation "measure id") auto

declare decimal.simps [simp del]

fun error_display :: "smux_error \<Rightarrow> string" where
  "error_display (Io e) = ''I/O error: '' @ io_message e"
| "error_display (InvalidProtocol v) = ''Invalid protocol version: '' @ decimal (unat v)"
| "error_display (FrameTooLarge sz limit) =
     ''Frame too large: '' @ decimal sz @ '' bytes (max: '' @ decimal limit @ '')''"
| "error_display SessionClosed = ''Session closed''"
| "error_display (StreamNotFound sid) = ''Stream not found: '' @ decimal (unat sid)"
| "error_display (StreamAlreadyExists sid) = ''Stream already exists: '' @ decimal (unat sid)"
| "error_display (InvalidStreamId sid) = ''Invalid stream ID: '' @ decimal (unat sid)"
| "error_display (ConfigError m) = ''Configuration error: '' @ m"
| "error_display InvalidFrame = ''Invalid frame format''"
| "error_display Timeout = ''Connection timeout''"
| "error_display BufferOverflow = ''Buffer overflow''"
| "error_display (ProtocolViolation m) = ''Protocol violation: '' @ m"
| "error_display InsufficientData = ''Insufficient data for frame parsing''"

end
