(* ===== verification/Commands.thy ===== *)
theory Commands
  imports Errors
begin

text \<open>
  \<open>src/src/command.rs\<close>: the commands of the protocol, their byte on the wire and their
  classification.
\<close>

datatype command =
    Syn
  | Fin
  | Psh
  | Nop
  | Upd (upd_consumed: u32) (upd_window: u32)

abbreviation (input) SYN :: u8 where "SYN \<equiv> 0"
abbreviation (input) FIN :: u8 where "FIN \<equiv> 1"
abbreviation (input) PSH :: u8 where "PSH \<equiv> 2"
abbreviation (input) NOP :: u8 where "NOP \<equiv> 3"
abbreviation (input) UPD :: u8 where "UPD \<equiv> 4"

definition from_byte :: "u8 \<Rightarrow> command result" where
  "from_byte b =
     (if b = SYN then Inr Syn
      else if b = FIN then Inr Fin
      else if b = PSH then Inr Psh
      else if b = NOP then Inr Nop
      else if b = UPD then Inr (Upd 0 0)
      else Inl InvalidFrame)"

fun to_byte :: "command \<Rightarrow> u8" where
  "to_byte Syn = SYN"
| "to_byte Fin = FIN"
| "to_byte Psh = PSH"
| "to_byte Nop = NOP"
| "to_byte (Upd _ _) = UPD"

fun is_control :: "command \<Rightarrow> bool" where
  "is_control Syn = True"
| "is_control Fin = True"
| "is_control Nop = True"
| "is_control (Upd _ _) = True"
| "is_control Psh = False"

fun can_carry_data :: "command \<Rightarrow> bool" where
  "can_carry_data Psh = True"
| "can_carry_data _ = False"

fun requires_v2 :: "command \<Rightarrow> bool" where
  "requires_v2 (Upd _ _) = True"
| "requires_v2 _ = False"

fun cmd_consumed :: "command \<Rightarrow> u32 option" where
  "cmd_consumed (Upd c _) = Some c"
| "cmd_consumed _ = None"

fun cmd_window :: "command \<Rightarrow> u32 option" where
  "cmd_window (Upd _ w) = Some w"
| "cmd_window _ = None"

text \<open>
  What the one byte on the wire keeps of a command: everything but the two numbers of \<open>Upd\<close>, which
  travel in the payload.
\<close>

fun wire_command :: "command \<Rightarrow> command" where
  "wire_command (Upd _ _) = Upd 0 0"
| "wire_command c = c"

lemma wire_command_iff [simp]:
  "wire_command c = Syn \<longleftrightarrow> c = Syn"
  "wire_command c = Fin \<longleftrightarrow> c = Fin"
  "wire_command c = Psh \<longleftrightarrow> c = Psh"
  "wire_command c = Nop \<longleftrightarrow> c = Nop"
  by (cases c; simp)+

lemma to_byte_wire_command [simp]: "to_byte (wire_command c) = to_byte c"
  by (cases c) simp_all

lemma wire_command_idem [simp]: "wire_command (wire_command c) = wire_command c"
  by (cases c) simp_all

lemma from_byte_to_byte [simp]: "from_byte (to_byte c) = Inr (wire_command c)"
  by (cases c) (simp_all add: from_byte_def)

lemma from_byte_Inr_iff: "from_byte b = Inr c \<longleftrightarrow> b = to_byte c \<and> wire_command c = c"
  by (cases c) (auto simp: from_byte_def)

lemma from_byte_Inl: "from_byte b = Inl e \<longleftrightarrow> e = InvalidFrame \<and> 4 < b"
proof -
  have "\<not> (4 < b) \<longleftrightarrow> b = 0 \<or> b = 1 \<or> b = 2 \<or> b = 3 \<or> b = 4"
  proof
    assume "\<not> 4 < b"
    then have "unat b \<le> 4" by (simp add: word_le_nat_alt linorder_not_less)
    then have "unat b \<in> {0, 1, 2, 3, 4}" by auto
    then show "b = 0 \<or> b = 1 \<or> b = 2 \<or> b = 3 \<or> b = 4" by (auto simp: word_unat_eq_iff)
  qed auto
  then show ?thesis by (auto simp: from_byte_def)
qed

lemma can_carry_data_iff: "can_carry_data c \<longleftrightarrow> \<not> is_control c"
  by (cases c) simp_all

section \<open>Properties\<close>

text \<open>
  The command byte: a byte decodes to a command exactly when it is the byte that encodes that
  command, with the two numbers of \<open>Upd\<close> zero, and every byte above four is an invalid frame.
\<close>

lemma command_byte_correct:
  "(from_byte b = Inr c \<longleftrightarrow> b = to_byte c \<and> wire_command c = c) \<and>
   (from_byte b = Inl e \<longleftrightarrow> e = InvalidFrame \<and> 4 < b)"
  by (simp only: from_byte_Inr_iff from_byte_Inl simp_thms)

end
