(* ===== verification/Configuration.thy ===== *)
theory Configuration
  imports Errors
begin

text \<open>
  \<open>src/src/config.rs\<close>: the configuration of a session, its validation and the builder.
  \<open>std::time::Duration\<close> is its length in nanoseconds (Rust orders durations by exactly that).
\<close>

definition duration_from_secs :: "nat \<Rightarrow> nat" where
  "duration_from_secs s = s * 1000000000"

record config =
  config_version :: u8
  keep_alive_interval :: nat
  keep_alive_timeout :: nat
  max_frame_size :: nat
  max_receive_buffer :: nat
  max_receive_channel_buffer_size :: nat
  max_stream_buffer :: nat
  enable_keep_alive :: bool

definition config_default :: config where
  "config_default =
     \<lparr>config_version = 1,
      keep_alive_interval = duration_from_secs 10,
      keep_alive_timeout = duration_from_secs 30,
      max_frame_size = 32 * 1024,
      max_receive_buffer = 4 * 1024 * 1024,
      max_receive_channel_buffer_size = 512,
      max_stream_buffer = 64 * 1024,
      enable_keep_alive = True\<rparr>"

definition config_validate :: "config \<Rightarrow> unit result" where
  "config_validate c =
     (if config_version c = 0 then
        Inl (ConfigError ''Version cannot be 0'')
      else if enable_keep_alive c \<and> keep_alive_timeout c \<le> keep_alive_interval c then
        Inl (ConfigError ''Keep-alive timeout must be greater than keep-alive interval'')
      else if max_frame_size c = 0 then
        Inl (ConfigError ''Max frame size cannot be 0'')
      else if max_frame_size c > 16 * 1024 * 1024 then
        Inl (ConfigError ''Max frame size cannot exceed 16MB'')
      else if max_receive_buffer c < max_frame_size c then
        Inl (ConfigError ''Max receive buffer must be at least as large as max frame size'')
      else if max_stream_buffer c = 0 then
        Inl (ConfigError ''Max stream buffer cannot be 0'')
      else Inr ())"

text \<open>
  The specification of a usable configuration, in terms of the fields alone.
\<close>

definition config_valid :: "config \<Rightarrow> bool" where
  "config_valid c \<longleftrightarrow>
     config_version c \<noteq> 0 \<and>
     (enable_keep_alive c \<longrightarrow> keep_alive_interval c < keep_alive_timeout c) \<and>
     max_frame_size c \<in> {1 .. 16 * 1024 * 1024} \<and>
     max_frame_size c \<le> max_receive_buffer c \<and>
     0 < max_stream_buffer c"

lemma config_validate_Inr_iff: "config_validate c = Inr () \<longleftrightarrow> config_valid c"
  by (auto simp: config_validate_def config_valid_def)

section \<open>The builder\<close>

text \<open>
  \<open>ConfigBuilder\<close> owns a configuration; each setter takes the builder by value and returns it with
  one field changed. The setters are named \<open>with_\<dots>\<close> here because the fields of the record
  already carry the Rust names.
\<close>

record config_builder =
  builder_config :: config

definition builder_new :: config_builder where
  "builder_new = \<lparr>builder_config = config_default\<rparr>"

definition builder_default :: config_builder where
  "builder_default = builder_new"

definition with_version :: "u8 \<Rightarrow> config_builder \<Rightarrow> config_builder" where
  "with_version v b = b\<lparr>builder_config := (builder_config b)\<lparr>config_version := v\<rparr>\<rparr>"

definition with_keep_alive_interval :: "nat \<Rightarrow> config_builder \<Rightarrow> config_builder" where
  "with_keep_alive_interval d b =
     b\<lparr>builder_config := (builder_config b)\<lparr>keep_alive_interval := d\<rparr>\<rparr>"

definition with_keep_alive_timeout :: "nat \<Rightarrow> config_builder \<Rightarrow> config_builder" where
  "with_keep_alive_timeout d b =
     b\<lparr>builder_config := (builder_config b)\<lparr>keep_alive_timeout := d\<rparr>\<rparr>"

definition with_max_frame_size :: "nat \<Rightarrow> config_builder \<Rightarrow> config_builder" where
  "with_max_frame_size n b =
     b\<lparr>builder_config := (builder_config b)\<lparr>max_frame_size := n\<rparr>\<rparr>"

definition with_max_receive_buffer :: "nat \<Rightarrow> config_builder \<Rightarrow> config_builder" where
  "with_max_receive_buffer n b =
     b\<lparr>builder_config := (builder_config b)\<lparr>max_receive_buffer := n\<rparr>\<rparr>"

definition with_max_receive_channel_buffer_size :: "nat \<Rightarrow> config_builder \<Rightarrow> config_builder" where
  "with_max_receive_channel_buffer_size n b =
     b\<lparr>builder_config := (builder_config b)\<lparr>max_receive_channel_buffer_size := n\<rparr>\<rparr>"

definition with_max_stream_buffer :: "nat \<Rightarrow> config_builder \<Rightarrow> config_builder" where
  "with_max_stream_buffer n b =
     b\<lparr>builder_config := (builder_config b)\<lparr>max_stream_buffer := n\<rparr>\<rparr>"

definition with_enable_keep_alive :: "bool \<Rightarrow> config_builder \<Rightarrow> config_builder" where
  "with_enable_keep_alive e b =
     b\<lparr>builder_config := (builder_config b)\<lparr>enable_keep_alive := e\<rparr>\<rparr>"

definition builder_build :: "config_builder \<Rightarrow> config result" where
  "builder_build b = and_then (config_validate (builder_config b)) (\<lambda>_. Inr (builder_config b))"

lemmas builder_defs =
  builder_new_def with_version_def with_keep_alive_interval_def with_keep_alive_timeout_def
  with_max_frame_size_def with_max_receive_buffer_def with_max_receive_channel_buffer_size_def
  with_max_stream_buffer_def with_enable_keep_alive_def

lemma builder_build_Inr_iff:
  "builder_build b = Inr c \<longleftrightarrow> c = builder_config b \<and> config_valid c"
  by (auto simp: builder_build_def and_then_Inr_iff config_validate_Inr_iff)

section \<open>Properties\<close>

text \<open>
  Building: a builder yields a configuration exactly when its fields are within the documented
  limits, the configuration is then the builder's own, and every rejection is a configuration error.
  The default configuration is within the limits.
\<close>

lemma builder_build_correct:
  "(builder_build b = Inr c \<longleftrightarrow> c = builder_config b \<and> config_valid c) \<and>
   ((\<exists>m. builder_build b = Inl (ConfigError m)) \<longleftrightarrow> \<not> config_valid (builder_config b)) \<and>
   builder_build builder_new = Inr config_default"
proof -
  have err: "(\<exists>m. config_validate k = Inl (ConfigError m)) \<longleftrightarrow> \<not> config_valid k" for k
    by (auto simp: config_validate_def config_valid_def)
  have "(\<exists>m. builder_build b = Inl (ConfigError m)) \<longleftrightarrow>
        (\<exists>m. config_validate (builder_config b) = Inl (ConfigError m))"
    by (cases "config_validate (builder_config b)") (simp_all add: builder_build_def)
  moreover have "config_valid config_default"
    by (simp add: config_valid_def config_default_def duration_from_secs_def)
  ultimately show ?thesis
    by (simp add: builder_build_Inr_iff err builder_new_def)
qed

end
