(* ===== verification/Frames.thy ===== *)
theory Frames
  imports Commands Configuration
begin

text \<open>
  \<open>src/src/frame.rs\<close>: the frame, its constructors and its validation.
\<close>

definition HEADER_SIZE :: nat where
  "HEADER_SIZE = 8"

record frame =
  frame_version :: u8
  frame_cmd :: command
  frame_stream_id :: u32
  frame_data :: bytes

definition frame_new :: "u8 \<Rightarrow> command \<Rightarrow> u32 \<Rightarrow> bytes \<Rightarrow> frame" where
  "frame_new v c sid d =
     \<lparr>frame_version = v, frame_cmd = c, frame_stream_id = sid, frame_data = d\<rparr>"

definition new_syn :: "u8 \<Rightarrow> u32 \<Rightarrow> frame" where
  "new_syn v sid = frame_new v Syn sid []"

definition new_fin :: "u8 \<Rightarrow> u32 \<Rightarrow> frame" where
  "new_fin v sid = frame_new v Fin sid []"

definition new_psh :: "u8 \<Rightarrow> u32 \<Rightarrow> bytes \<Rightarrow> frame" where
  "new_psh v sid d = frame_new v Psh sid d"

definition new_nop :: "u8 \<Rightarrow> frame" where
  "new_nop v = frame_new v Nop 0 []"

definition new_upd :: "u8 \<Rightarrow> u32 \<Rightarrow> u32 \<Rightarrow> u32 \<Rightarrow> frame" where
  "new_upd v sid consumed window = frame_new v (Upd consumed window) sid []"

lemmas frame_new_defs = new_syn_def new_fin_def new_psh_def new_nop_def new_upd_def frame_new_def

definition total_size :: "frame \<Rightarrow> nat" where
  "total_size f = HEADER_SIZE + length (frame_data f)"

definition data_len :: "frame \<Rightarrow> nat" where
  "data_len f = length (frame_data f)"

definition frame_is_empty :: "frame \<Rightarrow> bool" where
  "frame_is_empty f = (frame_data f = [])"

definition validate_stream_id :: "frame \<Rightarrow> unit result" where
  "validate_stream_id f =
     (case frame_cmd f of
        Nop \<Rightarrow>
          (if frame_stream_id f \<noteq> 0 then Inl (InvalidStreamId (frame_stream_id f)) else Inr ())
      | _ \<Rightarrow>
          (if frame_stream_id f = 0 then Inl (InvalidStreamId (frame_stream_id f)) else Inr ()))"

definition frame_validate :: "frame \<Rightarrow> config \<Rightarrow> unit result" where
  "frame_validate f cfg =
     (if frame_version f = 0 then Inl (InvalidProtocol (frame_version f))
      else if requires_v2 (frame_cmd f) \<and> frame_version f < 2 then
        Inl (ProtocolViolation ''UPD command requires protocol version 2'')
      else if total_size f > max_frame_size cfg then
        Inl (FrameTooLarge (total_size f) (max_frame_size cfg))
      else if is_control (frame_cmd f) \<and> frame_data f \<noteq> [] then
        Inl (ProtocolViolation ''Control frames cannot carry data'')
      else and_then (validate_stream_id f) (\<lambda>_. Inr ()))"

definition frame_consumed :: "frame \<Rightarrow> u32 option" where
  "frame_consumed f = cmd_consumed (frame_cmd f)"

definition frame_window :: "frame \<Rightarrow> u32 option" where
  "frame_window f = cmd_window (frame_cmd f)"

text \<open>
  The specification of an acceptable frame, in terms of its fields alone: version 1 or later, two
  or later for \<open>Upd\<close>; within the size limit; data on \<open>Psh\<close> only; stream id zero exactly on \<open>Nop\<close>.
\<close>

definition frame_valid :: "config \<Rightarrow> frame \<Rightarrow> bool" where
  "frame_valid cfg f \<longleftrightarrow>
     frame_version f \<noteq> 0 \<and>
     (requires_v2 (frame_cmd f) \<longrightarrow> 2 \<le> frame_version f) \<and>
     HEADER_SIZE + length (frame_data f) \<le> max_frame_size cfg \<and>
     (frame_data f \<noteq> [] \<longrightarrow> frame_cmd f = Psh) \<and>
     (frame_stream_id f = 0 \<longleftrightarrow> frame_cmd f = Nop)"

lemma validate_stream_id_Inr_iff:
  "validate_stream_id f = Inr () \<longleftrightarrow> (frame_stream_id f = 0 \<longleftrightarrow> frame_cmd f = Nop)"
  by (cases "frame_cmd f") (simp_all add: validate_stream_id_def)

lemma frame_validate_Inr_iff: "frame_validate f cfg = Inr u \<longleftrightarrow> frame_valid cfg f"
proof -
  have "is_control (frame_cmd f) \<longleftrightarrow> frame_cmd f \<noteq> Psh"
    by (cases "frame_cmd f") simp_all
  then show ?thesis
    by (auto simp: frame_validate_def frame_valid_def total_size_def and_then_Inr_iff
        validate_stream_id_Inr_iff linorder_not_less)
qed

lemma frame_validate_cases:
  obtains (ok) "frame_valid cfg f" "frame_validate f cfg = Inr ()"
    | (err) e where "\<not> frame_valid cfg f" "frame_validate f cfg = Inl e"
proof (cases "frame_validate f cfg")
  case (Inl e)
  then show ?thesis using frame_validate_Inr_iff [of f cfg "()"] err by simp
next
  case (Inr u)
  then show ?thesis using frame_validate_Inr_iff [of f cfg "()"] ok by simp
qed

section \<open>Properties\<close>

text \<open>
  Validation accepts a frame exactly when its version is not zero (two or more for \<open>Upd\<close>), header
  and data fit the configured frame size, only \<open>Psh\<close> carries data, and the stream id is zero exactly on
  \<open>Nop\<close>.
\<close>

lemma frame_validate_correct: "frame_validate f cfg = Inr () \<longleftrightarrow> frame_valid cfg f"
  by (rule frame_validate_Inr_iff)

end
