(* ===== verification/Session_State.thy ===== *)
theory Session_State
  imports Frames
begin

text \<open>
  \<open>SessionState\<close> of \<open>src/src/session.rs\<close>: the flags and counters that a session shares with its
  streams and tasks. All its fields are \<open>Arc\<close>s that \<open>clone\<close> copies by reference, so there is one such
  state per session and every operation reads or updates it. The atomics are 64-bit and boolean
  cells; each operation here is one atomic access, or two where the code makes two.

  \<open>die\<close> and \<open>tokens_returned\<close> are \<open>tokio\<close> notifiers. The state records how often the program called
  \<open>notify_waiters\<close> on each; which waiting task a call wakes is \<open>tokio\<close>'s affair and is stated where the
  tasks are modelled.
\<close>

record session_state =
  die_notified :: nat
  closed :: bool
  tokens :: i64
  tokens_returned_notified :: nat
  data_received :: bool

definition session_state_new :: "nat \<Rightarrow> session_state" where
  "session_state_new buffer_size =
     \<lparr>die_notified = 0, closed = False, tokens = word_of_nat buffer_size,
      tokens_returned_notified = 0, data_received = True\<rparr>"

definition is_closed :: "session_state \<Rightarrow> bool" where
  "is_closed ss = closed ss"

definition close :: "session_state \<Rightarrow> session_state" where
  "close ss =
     (if \<not> closed ss
      then ss\<lparr>closed := True, die_notified := Suc (die_notified ss)\<rparr>
      else ss\<lparr>closed := True\<rparr>)"

definition return_tokens :: "nat \<Rightarrow> session_state \<Rightarrow> session_state" where
  "return_tokens count ss =
     ss\<lparr>tokens := tokens ss + word_of_nat count,
        tokens_returned_notified := Suc (tokens_returned_notified ss)\<rparr>"

definition get_tokens :: "session_state \<Rightarrow> i64" where
  "get_tokens ss = tokens ss"

definition take_tokens :: "nat \<Rightarrow> session_state \<Rightarrow> session_state \<times> i64" where
  "take_tokens count ss =
     (let ss = ss\<lparr>tokens := tokens ss - word_of_nat count\<rparr> in (ss, get_tokens ss))"

definition mark_data_received :: "session_state \<Rightarrow> session_state" where
  "mark_data_received ss = ss\<lparr>data_received := True\<rparr>"

definition check_and_reset_data_received :: "session_state \<Rightarrow> session_state \<times> bool" where
  "check_and_reset_data_received ss = (ss\<lparr>data_received := False\<rparr>, data_received ss)"

text \<open>
  The value of the token counter as the signed number the code compares with zero.
\<close>

definition token_balance :: "session_state \<Rightarrow> int" where
  "token_balance ss = sint (tokens ss)"

lemma close_simps [simp]:
  "closed (close ss)"
  "tokens (close ss) = tokens ss"
  "tokens_returned_notified (close ss) = tokens_returned_notified ss"
  "data_received (close ss) = data_received ss"
  by (simp_all add: close_def)

lemma close_idem [simp]: "close (close ss) = close ss"
  by (simp add: close_def)

lemma return_tokens_simps [simp]:
  "closed (return_tokens n ss) = closed ss"
  "tokens (return_tokens n ss) = tokens ss + word_of_nat n"
  "die_notified (return_tokens n ss) = die_notified ss"
  "data_received (return_tokens n ss) = data_received ss"
  by (simp_all add: return_tokens_def)

lemma mark_data_received_simps [simp]:
  "closed (mark_data_received ss) = closed ss"
  "tokens (mark_data_received ss) = tokens ss"
  "die_notified (mark_data_received ss) = die_notified ss"
  "data_received (mark_data_received ss)"
  by (simp_all add: mark_data_received_def)

text \<open>
  The signed value of the counter after an addition, below the overflow of \<open>i64\<close>.
\<close>

lemma sint_of_int_small: "- (2 ^ 63) \<le> k \<Longrightarrow> k < 2 ^ 63 \<Longrightarrow> sint (word_of_int k :: i64) = k"
  by (simp add: signed_of_int signed_take_bit_int_eq_self)

lemma sint_add_nat:
  fixes w :: i64
  assumes "0 \<le> sint w" "sint w + int n < 2 ^ 63"
  shows "sint (w + word_of_nat n) = sint w + int n"
proof -
  have eq: "w + word_of_nat n = word_of_int (sint w + int n)" by simp
  show ?thesis
    unfolding eq by (rule sint_of_int_small) (use assms in linarith)+
qed

lemma token_balance_return:
  assumes "0 \<le> token_balance ss" "token_balance ss + int n < 2 ^ 63"
  shows "token_balance (return_tokens n ss) = token_balance ss + int n"
  using assms by (simp add: token_balance_def sint_add_nat)

lemma token_balance_new: "n < 2 ^ 63 \<Longrightarrow> token_balance (session_state_new n) = int n"
  using sint_of_int_small [of "int n"] by (simp add: token_balance_def session_state_new_def)

end
