(* ===== verification/Interfaces.thy ===== *)
theory Interfaces
  imports Prelude
begin

text \<open>
  The third-party code the program calls: the cursor operations of the \<open>bytes\<close> crate and the
  channels of the \<open>flume\<close> crate. Their code is not part of the repository, so each is a record of
  operations that the definitions of the model take as an argument, and a locale states the
  documented behaviour of those operations. Nothing else about them is known to any proof. The last
  two sections give one instance of each and interpret the locales on it, which shows that the
  stated behaviour is consistent and lets witnesses compute.
\<close>

section \<open>The bytes crate\<close>

text \<open>
  A \<open>Bytes\<close> or \<open>BytesMut\<close> value is represented by its contents. \<open>len\<close>, \<open>is_empty\<close>, \<open>clone\<close> and
  \<open>freeze\<close> read or copy the contents and \<open>reserve\<close> leaves them alone; the operations that move a
  cursor or write are parameters. A getter returns the value and the remaining contents, a putter
  the new contents, \<open>split_to\<close> the part split off and what remains.
\<close>

record bytes_api =
  get_u8 :: "bytes \<Rightarrow> u8 \<times> bytes"
  get_u16_le :: "bytes \<Rightarrow> u16 \<times> bytes"
  get_u32_le :: "bytes \<Rightarrow> u32 \<times> bytes"
  split_to :: "bytes \<Rightarrow> nat \<Rightarrow> bytes \<times> bytes"
  put_u8 :: "bytes \<Rightarrow> u8 \<Rightarrow> bytes"
  put_u16_le :: "bytes \<Rightarrow> u16 \<Rightarrow> bytes"
  put_u32_le :: "bytes \<Rightarrow> u32 \<Rightarrow> bytes"
  put_slice :: "bytes \<Rightarrow> bytes \<Rightarrow> bytes"

text \<open>
  The documented behaviour: a getter reads its bytes in little-endian order and advances the
  cursor (it panics when there are too few bytes, and then nothing is known), a putter appends,
  \<open>split_to\<close> splits at an index within the contents (and panics beyond it).
\<close>

locale bytes_crate =
  fixes B :: bytes_api
  assumes get_u8_law: "get_u8 B (b # s) = (b, s)"
    and get_u16_le_law: "get_u16_le B (b0 # b1 # s) = (u16_from_le_bytes b0 b1, s)"
    and get_u32_le_law:
      "get_u32_le B (b0 # b1 # b2 # b3 # s) = (u32_from_le_bytes b0 b1 b2 b3, s)"
    and split_to_law: "n \<le> length s \<Longrightarrow> split_to B s n = (take n s, drop n s)"
    and put_u8_law: "put_u8 B d b = d @ [b]"
    and put_u16_le_law: "put_u16_le B d v = d @ u16_to_le_bytes v"
    and put_u32_le_law: "put_u32_le B d m = d @ u32_to_le_bytes m"
    and put_slice_law: "put_slice B d s = d @ s"
begin

lemmas bytes_laws =
  get_u8_law get_u16_le_law get_u32_le_law split_to_law put_u8_law put_u16_le_law
  put_u32_le_law put_slice_law

lemma split_to_append: "length xs = n \<Longrightarrow> split_to B (xs @ ys) n = (xs, ys)"
  by (simp add: split_to_law)

end

section \<open>The flume crate\<close>

datatype send_result = Sent | SendFull | SendDisconnected

datatype 'a recv_result = Received 'a | RecvEmpty | RecvDisconnected

text \<open>
  A channel of type \<open>'c\<close> that carries values of type \<open>'a\<close>. The first six fields are the operations
  the program calls; a channel is shared by its handles, so an operation takes the channel's state
  and returns the new one. \<open>drop_sender\<close> and \<open>drop_receiver\<close> stand for dropping the last handle of
  that side. The last four fields observe the state: the messages in flight, oldest first, the
  capacity (\<open>None\<close> for an unbounded channel), and whether all senders or all receivers are gone.
  \<open>send_async\<close> and \<open>recv_async\<close> are polled: they complete when \<open>try_send\<close> does not report a full
  channel and \<open>try_recv\<close> does not report an empty one, with the same result, and are pending
  otherwise.
\<close>

record ('c, 'a) flume_api =
  bounded :: "nat \<Rightarrow> 'c"
  unbounded :: 'c
  try_send :: "'c \<Rightarrow> 'a \<Rightarrow> 'c \<times> send_result"
  try_recv :: "'c \<Rightarrow> 'c \<times> 'a recv_result"
  drop_sender :: "'c \<Rightarrow> 'c"
  drop_receiver :: "'c \<Rightarrow> 'c"
  contents :: "'c \<Rightarrow> 'a list"
  capacity :: "'c \<Rightarrow> nat option"
  senders_gone :: "'c \<Rightarrow> bool"
  receivers_gone :: "'c \<Rightarrow> bool"

definition has_room :: "('c, 'a) flume_api \<Rightarrow> 'c \<Rightarrow> bool" where
  "has_room F c =
     (case capacity F c of None \<Rightarrow> True | Some n \<Rightarrow> length (contents F c) < n)"

text \<open>
  One poll of \<open>send_async\<close>: ready with whether the value was sent, or pending on a full channel.
\<close>

definition send_async :: "('c, 'a) flume_api \<Rightarrow> 'c \<Rightarrow> 'a \<Rightarrow> 'c \<times> bool poll" where
  "send_async F c x =
     (case try_send F c x of
        (c', Sent) \<Rightarrow> (c', Ready True)
      | (c', SendDisconnected) \<Rightarrow> (c', Ready False)
      | (c', SendFull) \<Rightarrow> (c', Pending))"

text \<open>
  The documented behaviour. A channel of capacity zero is a rendezvous channel whose sends depend on
  a receiver that waits at that moment; nothing is stated about it, so a proof about a bounded
  channel needs a positive capacity or room.
\<close>

locale flume =
  fixes F :: "('c, 'a) flume_api"
  assumes bounded_new:
      "0 < n \<Longrightarrow> contents F (bounded F n) = []"
      "0 < n \<Longrightarrow> capacity F (bounded F n) = Some n"
      "0 < n \<Longrightarrow> \<not> senders_gone F (bounded F n)"
      "0 < n \<Longrightarrow> \<not> receivers_gone F (bounded F n)"
    and unbounded_new:
      "contents F (unbounded F) = []"
      "capacity F (unbounded F) = None"
      "\<not> senders_gone F (unbounded F)"
      "\<not> receivers_gone F (unbounded F)"
    and send_disconnected: "receivers_gone F c \<Longrightarrow> try_send F c x = (c, SendDisconnected)"
    and send_full:
      "\<lbrakk>\<not> receivers_gone F c; capacity F c = Some n; 0 < n; n \<le> length (contents F c)\<rbrakk>
       \<Longrightarrow> try_send F c x = (c, SendFull)"
    and send_room:
      "\<lbrakk>\<not> receivers_gone F c; has_room F c\<rbrakk> \<Longrightarrow> snd (try_send F c x) = Sent"
      "\<lbrakk>\<not> receivers_gone F c; has_room F c\<rbrakk>
       \<Longrightarrow> contents F (fst (try_send F c x)) = contents F c @ [x]"
      "capacity F (fst (try_send F c x)) = capacity F c"
      "senders_gone F (fst (try_send F c x)) = senders_gone F c"
      "receivers_gone F (fst (try_send F c x)) = receivers_gone F c"
    and recv_message:
      "contents F c = x # xs \<Longrightarrow> snd (try_recv F c) = Received x"
      "contents F c = x # xs \<Longrightarrow> contents F (fst (try_recv F c)) = xs"
      "capacity F (fst (try_recv F c)) = capacity F c"
      "senders_gone F (fst (try_recv F c)) = senders_gone F c"
      "receivers_gone F (fst (try_recv F c)) = receivers_gone F c"
    and recv_empty:
      "\<lbrakk>contents F c = []; \<not> senders_gone F c\<rbrakk> \<Longrightarrow> try_recv F c = (c, RecvEmpty)"
    and recv_disconnected:
      "\<lbrakk>contents F c = []; senders_gone F c\<rbrakk> \<Longrightarrow> try_recv F c = (c, RecvDisconnected)"
    and drop_sender_laws:
      "contents F (drop_sender F c) = contents F c"
      "capacity F (drop_sender F c) = capacity F c"
      "senders_gone F (drop_sender F c)"
      "receivers_gone F (drop_sender F c) = receivers_gone F c"
    and drop_receiver_laws:
      "capacity F (drop_receiver F c) = capacity F c"
      "senders_gone F (drop_receiver F c) = senders_gone F c"
      "receivers_gone F (drop_receiver F c)"
begin

lemma send_cases:
  assumes "capacity F c \<noteq> Some 0"
  obtains (disconnected) "receivers_gone F c" "try_send F c x = (c, SendDisconnected)"
    | (full) "\<not> receivers_gone F c" "\<not> has_room F c" "try_send F c x = (c, SendFull)"
    | (sent) c' where "\<not> receivers_gone F c" "has_room F c" "try_send F c x = (c', Sent)"
        "contents F c' = contents F c @ [x]" "capacity F c' = capacity F c"
        "senders_gone F c' = senders_gone F c" "\<not> receivers_gone F c'"
proof (cases "receivers_gone F c")
  case True
  then show ?thesis using send_disconnected disconnected by blast
next
  case alive: False
  show ?thesis
  proof (cases "has_room F c")
    case True
    obtain c' r where t: "try_send F c x = (c', r)" by fastforce
    with send_room [of c x] alive True sent show ?thesis by simp
  next
    case False
    then obtain n where "capacity F c = Some n" "n \<le> length (contents F c)"
      by (auto simp: has_room_def linorder_not_less split: option.splits)
    with assms alive False send_full full show ?thesis by auto
  qed
qed

lemma recv_cases:
  obtains (message) x xs c' where "contents F c = x # xs" "try_recv F c = (c', Received x)"
        "contents F c' = xs" "capacity F c' = capacity F c"
        "senders_gone F c' = senders_gone F c" "receivers_gone F c' = receivers_gone F c"
    | (empty) "contents F c = []" "\<not> senders_gone F c" "try_recv F c = (c, RecvEmpty)"
    | (disconnected) "contents F c = []" "senders_gone F c" "try_recv F c = (c, RecvDisconnected)"
proof (cases "contents F c")
  case Nil
  then show ?thesis using recv_empty recv_disconnected empty disconnected by blast
next
  case (Cons x xs)
  obtain c' r where t: "try_recv F c = (c', r)" by fastforce
  with recv_message [of c] Cons message show ?thesis by simp
qed

end

section \<open>An instance of the bytes crate\<close>

text \<open>
  Rust's own byte layouts, on lists. The getters return zero where the crate panics.
\<close>

fun le_get_u8 :: "bytes \<Rightarrow> u8 \<times> bytes" where
  "le_get_u8 (b # s) = (b, s)"
| "le_get_u8 s = (0, s)"

fun le_get_u16 :: "bytes \<Rightarrow> u16 \<times> bytes" where
  "le_get_u16 (b0 # b1 # s) = (u16_from_le_bytes b0 b1, s)"
| "le_get_u16 s = (0, s)"

fun le_get_u32 :: "bytes \<Rightarrow> u32 \<times> bytes" where
  "le_get_u32 (b0 # b1 # b2 # b3 # s) = (u32_from_le_bytes b0 b1 b2 b3, s)"
| "le_get_u32 s = (0, s)"

definition list_bytes :: bytes_api where
  "list_bytes =
     \<lparr>get_u8 = le_get_u8, get_u16_le = le_get_u16, get_u32_le = le_get_u32,
      split_to = (\<lambda>s n. (take n s, drop n s)),
      put_u8 = (\<lambda>d b. d @ [b]),
      put_u16_le = (\<lambda>d n. d @ u16_to_le_bytes n),
      put_u32_le = (\<lambda>d n. d @ u32_to_le_bytes n),
      put_slice = (@)\<rparr>"

interpretation le: bytes_crate list_bytes
  by unfold_locales (simp_all add: list_bytes_def)

section \<open>An instance of the flume crate\<close>

record 'a lchan =
  lc_queue :: "'a list"
  lc_capacity :: "nat option"
  lc_senders_gone :: bool
  lc_receivers_gone :: bool

definition lc_new :: "nat option \<Rightarrow> 'a lchan" where
  "lc_new cap =
     \<lparr>lc_queue = [], lc_capacity = cap, lc_senders_gone = False, lc_receivers_gone = False\<rparr>"

definition lc_try_send :: "'a lchan \<Rightarrow> 'a \<Rightarrow> 'a lchan \<times> send_result" where
  "lc_try_send c x =
     (if lc_receivers_gone c then (c, SendDisconnected)
      else if (case lc_capacity c of None \<Rightarrow> True | Some n \<Rightarrow> length (lc_queue c) < n)
      then (c\<lparr>lc_queue := lc_queue c @ [x]\<rparr>, Sent)
      else (c, SendFull))"

definition lc_try_recv :: "'a lchan \<Rightarrow> 'a lchan \<times> 'a recv_result" where
  "lc_try_recv c =
     (case lc_queue c of
        [] \<Rightarrow> (c, if lc_senders_gone c then RecvDisconnected else RecvEmpty)
      | x # xs \<Rightarrow> (c\<lparr>lc_queue := xs\<rparr>, Received x))"

definition list_chan :: "('a lchan, 'a) flume_api" where
  "list_chan =
     \<lparr>bounded = (\<lambda>n. lc_new (Some n)), unbounded = lc_new None,
      try_send = lc_try_send, try_recv = lc_try_recv,
      drop_sender = (\<lambda>c. c\<lparr>lc_senders_gone := True\<rparr>),
      drop_receiver = (\<lambda>c. c\<lparr>lc_receivers_gone := True\<rparr>),
      contents = lc_queue, capacity = lc_capacity,
      senders_gone = lc_senders_gone, receivers_gone = lc_receivers_gone\<rparr>"

lemmas list_chan_simps =
  list_chan_def lc_new_def lc_try_send_def lc_try_recv_def has_room_def

interpretation lc: flume list_chan
  by unfold_locales (auto simp: list_chan_simps split: list.splits option.splits)

end
