(* ===== verification/Framing.thy ===== *)
theory Framing
  imports Prelude
begin

text \<open>
  The interface between a frame decoder and the transport it reads from. \<open>tokio_util\<close>'s \<open>Framed\<close>
  keeps a read buffer, calls the decoder until it asks for more bytes, appends what the transport
  delivers next and calls it again; an error ends the stream of frames. The laws say what a decoder
  owes such a caller, and the theorems show that then the frames do not depend on how the transport
  cuts the bytes into chunks.
\<close>

text \<open>
  A reader's state: the frames so far, the read buffer and the error that ended the stream, if any.
\<close>

type_synonym ('f, 'e) reader = "'f list \<times> bytes \<times> 'e option"

type_synonym ('f, 'e) decoder = "bytes \<Rightarrow> bytes \<times> ('e + 'f option)"

function drain :: "('f, 'e) decoder \<Rightarrow> bytes \<Rightarrow> ('f, 'e) reader" where
  "drain dec buf =
     (case dec buf of
        (buf', Inl e) \<Rightarrow> ([], buf', Some e)
      | (buf', Inr None) \<Rightarrow> ([], buf', None)
      | (buf', Inr (Some f)) \<Rightarrow>
          (if length buf' < length buf
           then (let (fs, rest) = drain dec buf' in (f # fs, rest))
           else ([f], buf', None)))"
  by pat_completeness auto
termination
  by (relation "measure (\<lambda>(dec, buf). length buf)") auto

declare drain.simps [simp del]

fun feed :: "('f, 'e) decoder \<Rightarrow> ('f, 'e) reader \<Rightarrow> bytes \<Rightarrow> ('f, 'e) reader" where
  "feed dec (fs, buf, Some e) chunk = (fs, buf, Some e)"
| "feed dec (fs, buf, None) chunk =
     (let (fs', rest) = drain dec (buf @ chunk) in (fs @ fs', rest))"

definition feed_all :: "('f, 'e) decoder \<Rightarrow> bytes list \<Rightarrow> ('f, 'e) reader" where
  "feed_all dec chunks = foldl (feed dec) ([], [], None) chunks"

text \<open>What a caller sees of a reader: the frames and the error.\<close>

definition delivered :: "('f, 'e) reader \<Rightarrow> 'f list \<times> 'e option" where
  "delivered r = (fst r, snd (snd r))"

locale frame_decoder =
  fixes dec :: "('f, 'e) decoder"
  assumes need_more: "dec s = (s', Inr None) \<Longrightarrow> s' = s"
    and progress: "dec s = (s', Inr (Some f)) \<Longrightarrow> length s' < length s"
    and stable: "snd (dec s) \<noteq> Inr None \<Longrightarrow> dec (s @ t) = (fst (dec s) @ t, snd (dec s))"
    and empty_buffer: "dec [] = ([], Inr None)"
begin

lemma drain_cases:
  obtains (more) "dec s = (s, Inr None)" "drain dec s = ([], s, None)"
    | (err) s' e where "dec s = (s', Inl e)" "drain dec s = ([], s', Some e)"
    | (frame) s' f fs buf e where "dec s = (s', Inr (Some f))" "length s' < length s"
        "drain dec s' = (fs, buf, e)" "drain dec s = (f # fs, buf, e)"
proof -
  obtain s' r where d: "dec s = (s', r)" by fastforce
  show ?thesis
  proof (cases r)
    case (Inl e)
    with d err show ?thesis by (simp add: drain.simps)
  next
    case (Inr fo)
    show ?thesis
    proof (cases fo)
      case None
      with d Inr need_more more show ?thesis by (simp add: drain.simps)
    next
      case (Some f)
      obtain fs buf e where "drain dec s' = (fs, buf, e)" by (cases "drain dec s'") auto
      moreover have "length s' < length s" using progress d Inr Some by blast
      moreover have "drain dec s = (f # fs, buf, e)"
        using calculation d Inr Some by (simp add: drain.simps [of dec s])
      ultimately show ?thesis using frame d Inr Some by blast
    qed
  qed
qed

text \<open>Draining more bytes continues where the first drain asked for more.\<close>

lemma drain_append:
  "drain dec s = (fs, buf, e) \<Longrightarrow>
   drain dec (s @ t) =
     (case e of
        Some e \<Rightarrow> (fs, buf @ t, Some e)
      | None \<Rightarrow> (let (fs', rest) = drain dec (buf @ t) in (fs @ fs', rest)))"
proof (induction "length s" arbitrary: s fs buf e rule: less_induct)
  case less
  show ?case
  proof (cases rule: drain_cases [of s])
    case more
    with less.prems show ?thesis by (auto simp: Let_def split: prod.splits)
  next
    case (err s' e')
    then have "dec (s @ t) = (s' @ t, Inl e')" using stable [of s t] by simp
    with err less.prems show ?thesis by (simp add: drain.simps [of dec "s @ t"])
  next
    case (frame s' f fs' buf' e')
    then have "dec (s @ t) = (s' @ t, Inr (Some f))" using stable [of s t] by simp
    with frame have "drain dec (s @ t) = (let (gs, rest) = drain dec (s' @ t) in (f # gs, rest))"
      by (simp add: drain.simps [of dec "s @ t"])
    with less.hyps [OF frame(2) frame(3)] frame less.prems show ?thesis
      by (auto simp: Let_def split: option.splits prod.splits)
  qed
qed

lemma drain_Nil: "drain dec [] = ([], [], None)"
  by (simp add: drain.simps empty_buffer)

lemma foldl_feed_ended [simp]:
  "foldl (feed dec) (fs, buf, Some e) chunks = (fs, buf, Some e)"
  by (induction chunks) simp_all

lemma foldl_feed:
  "drain dec s = (fs, buf, e) \<Longrightarrow>
   delivered (foldl (feed dec) (fs, buf, e) chunks) = delivered (drain dec (s @ concat chunks))"
proof (induction chunks arbitrary: s fs buf e)
  case Nil
  then show ?case by simp
next
  case (Cons c chunks)
  show ?case
  proof (cases e)
    case (Some err)
    with drain_append [OF Cons.prems, of "concat (c # chunks)"] show ?thesis
      by (simp add: delivered_def)
  next
    case None
    obtain fs' buf' e' where d: "drain dec (buf @ c) = (fs', buf', e')"
      by (cases "drain dec (buf @ c)") auto
    with drain_append [OF Cons.prems, of c] None have "drain dec (s @ c) = (fs @ fs', buf', e')"
      by simp
    with Cons.IH [OF this] None d show ?thesis by simp
  qed
qed

lemma feed_all_concat: "delivered (feed_all dec chunks) = delivered (drain dec (concat chunks))"
  using foldl_feed [OF drain_Nil, of chunks] by (simp add: feed_all_def)

end

end
