(* ===== verification/Codecs.thy ===== *)
theory Codecs
  imports Frames Interfaces Framing
begin

text \<open>
  \<open>src/src/codec.rs\<close>: the codec that turns frames into bytes and back. A \<open>&mut BytesMut\<close> argument
  becomes an argument and the first component of the result, so what an operation consumed or wrote
  before it failed is visible. The operations take the \<open>bytes\<close> crate as their argument \<open>B\<close>.
\<close>

record codec =
  codec_config :: config
  codec_max_frame_size :: nat

definition codec_new :: "config \<Rightarrow> codec" where
  "codec_new cfg = \<lparr>codec_config = cfg, codec_max_frame_size = max_frame_size cfg\<rparr>"

section \<open>Headers and the payload of UPD\<close>

definition decode_header ::
    "bytes_api \<Rightarrow> bytes \<Rightarrow> bytes \<times> (u8 \<times> command \<times> u32 \<times> u16) result" where
  "decode_header B src =
     (if length src < HEADER_SIZE then (src, Inl InsufficientData)
      else
        (let (version, src) = get_u8 B src;
             (cmd_byte, src) = get_u8 B src;
             (len, src) = get_u16_le B src;
             (stream_id, src) = get_u32_le B src
         in (src, and_then (from_byte cmd_byte) (\<lambda>cmd. Inr (version, cmd, stream_id, len)))))"

definition encode_header ::
    "bytes_api \<Rightarrow> bytes \<Rightarrow> u8 \<Rightarrow> command \<Rightarrow> u32 \<Rightarrow> u16 \<Rightarrow> bytes" where
  "encode_header B dst version cmd stream_id len =
     (let dst = put_u8 B dst version;
          dst = put_u8 B dst (to_byte cmd);
          dst = put_u16_le B dst len
      in put_u32_le B dst stream_id)"

definition decode_upd_data :: "bytes_api \<Rightarrow> bytes \<Rightarrow> (u32 \<times> u32) result" where
  "decode_upd_data B data =
     (if length data \<noteq> 8 then
        Inl (ProtocolViolation ''UPD frame must have exactly 8 bytes of data'')
      else
        (let (consumed, buf) = get_u32_le B data;
             (window, buf) = get_u32_le B buf
         in Inr (consumed, window)))"

definition encode_upd_data :: "bytes_api \<Rightarrow> u32 \<Rightarrow> u32 \<Rightarrow> bytes" where
  "encode_upd_data B consumed window =
     (let buf = [];
          buf = put_u32_le B buf consumed
      in put_u32_le B buf window)"

section \<open>The decoder\<close>

definition decode :: "bytes_api \<Rightarrow> codec \<Rightarrow> bytes \<Rightarrow> bytes \<times> frame option result" where
  "decode B cd src =
     (if length src < HEADER_SIZE then (src, Inr None)
      else
        case snd (decode_header B src) of \<comment> \<open>on a clone: the bytes stay\<close>
          Inl e \<Rightarrow> (src, Inl e)
        | Inr (version, _, _, len) \<Rightarrow>
            (let total_frame_size = HEADER_SIZE + unat len in
             if total_frame_size > codec_max_frame_size cd then
               (src, Inl (FrameTooLarge total_frame_size (codec_max_frame_size cd)))
             else if length src < total_frame_size then (src, Inr None)
             else
               case decode_header B src of
                 (src, Inl e) \<Rightarrow> (src, Inl e)
               | (src, Inr (_, cmd, stream_id, len)) \<Rightarrow>
                   (let (data, src) = split_to B src (unat len);
                        final_cmd =
                          (case cmd of
                             Upd _ _ \<Rightarrow>
                               (if version \<ge> 2
                                then and_then (decode_upd_data B data)
                                       (\<lambda>(consumed, window). Inr (Upd consumed window))
                                else Inr cmd)
                           | _ \<Rightarrow> Inr cmd)
                    in case final_cmd of
                         Inl e \<Rightarrow> (src, Inl e)
                       | Inr final_cmd \<Rightarrow>
                           (let frame_data =
                                  (case final_cmd of Upd _ _ \<Rightarrow> [] | _ \<Rightarrow> data);
                                frame = frame_new version final_cmd stream_id frame_data
                            in (src,
                                and_then (frame_validate frame (codec_config cd))
                                  (\<lambda>_. Inr (Some frame)))))))"

section \<open>The encoder\<close>

definition encode :: "bytes_api \<Rightarrow> codec \<Rightarrow> frame \<Rightarrow> bytes \<Rightarrow> bytes \<times> unit result" where
  "encode B cd frame dst =
     (case frame_validate frame (codec_config cd) of
        Inl e \<Rightarrow> (dst, Inl e)
      | Inr _ \<Rightarrow>
          (let (data_to_encode, len) =
                 (case frame_cmd frame of
                    Upd consumed window \<Rightarrow>
                      (if frame_version frame \<ge> 2
                       then (let upd_data = encode_upd_data B consumed window
                             in (upd_data, word_of_nat (length upd_data) :: u16))
                       else (frame_data frame, word_of_nat (length (frame_data frame))))
                  | _ \<Rightarrow> (frame_data frame, word_of_nat (length (frame_data frame))));
               total_size = HEADER_SIZE + unat len
           in if total_size > codec_max_frame_size cd then
                (dst, Inl (FrameTooLarge total_size (codec_max_frame_size cd)))
              else
                (let dst = encode_header B dst (frame_version frame) (frame_cmd frame)
                             (frame_stream_id frame) len
                 in (put_slice B dst data_to_encode, Inr ()))))"

section \<open>The wire format\<close>

text \<open>
  The specification of the format, independent of the code: eight bytes of header, then the payload,
  which for \<open>Upd\<close> is its two numbers. \<open>wire_length\<close> is the length field as the code computes it, a
  \<open>u16\<close>, so it is the payload's length only below 65536.
\<close>

fun cmd_payload :: "command \<Rightarrow> bytes \<Rightarrow> bytes" where
  "cmd_payload (Upd consumed window) data = u32_to_le_bytes consumed @ u32_to_le_bytes window"
| "cmd_payload _ data = data"

definition wire_payload :: "frame \<Rightarrow> bytes" where
  "wire_payload f = cmd_payload (frame_cmd f) (frame_data f)"

definition wire_header :: "u8 \<Rightarrow> command \<Rightarrow> u16 \<Rightarrow> u32 \<Rightarrow> bytes" where
  "wire_header v c len sid = [v, to_byte c] @ u16_to_le_bytes len @ u32_to_le_bytes sid"

definition wire_length :: "frame \<Rightarrow> u16" where
  "wire_length f = word_of_nat (length (wire_payload f))"

definition wire_bytes :: "frame \<Rightarrow> bytes" where
  "wire_bytes f =
     wire_header (frame_version f) (frame_cmd f) (wire_length f) (frame_stream_id f) @ wire_payload f"

text \<open>
  A frame that fits the format: it is acceptable, its payload's length fits the header's sixteen
  bits, and the whole frame (with the payload of \<open>Upd\<close>) is within the limit.
\<close>

definition encodable :: "config \<Rightarrow> frame \<Rightarrow> bool" where
  "encodable cfg f \<longleftrightarrow>
     frame_valid cfg f \<and> length (wire_payload f) < 2 ^ 16 \<and>
     HEADER_SIZE + length (wire_payload f) \<le> max_frame_size cfg"

section \<open>What the operations compute\<close>

lemma length_wire_header [simp]: "length (wire_header v c len sid) = HEADER_SIZE"
  by (simp add: wire_header_def HEADER_SIZE_def)

lemma length_wire_bytes: "length (wire_bytes f) = HEADER_SIZE + length (wire_payload f)"
  by (simp add: wire_bytes_def)

lemma unat_wire_length:
  "length (wire_payload f) < 2 ^ 16 \<Longrightarrow> unat (wire_length f) = length (wire_payload f)"
  by (simp add: wire_length_def unsigned_of_nat take_bit_nat_eq_self)

lemma header_bytesE:
  assumes "HEADER_SIZE \<le> length src"
  obtains v b len sid s where "src = v # b # u16_to_le_bytes len @ u32_to_le_bytes sid @ s"
proof -
  from assms obtain v b l0 l1 i0 i1 i2 i3 s where "src = v # b # l0 # l1 # i0 # i1 # i2 # i3 # s"
    by (auto simp: HEADER_SIZE_def numeral_eq_Suc Suc_le_length_iff)
  then have "src = v # b # u16_to_le_bytes (u16_from_le_bytes l0 l1)
                     @ u32_to_le_bytes (u32_from_le_bytes i0 i1 i2 i3) @ s"
    by simp
  then show ?thesis by (rule that)
qed

text \<open>
  What the decoder makes of a complete frame: the command of the header, completed from the payload
  for \<open>Upd\<close> of version 2, and the frame's validation.
\<close>

definition decode_body ::
    "bytes_api \<Rightarrow> config \<Rightarrow> u8 \<Rightarrow> command \<Rightarrow> u32 \<Rightarrow> bytes \<Rightarrow> frame option result" where
  "decode_body B cfg v cmd sid data =
     and_then
       (case cmd of
          Upd _ _ \<Rightarrow>
            (if 2 \<le> v
             then and_then (decode_upd_data B data) (\<lambda>(c, w). Inr (frame_new v (Upd c w) sid []))
             else Inr (frame_new v cmd sid []))
        | _ \<Rightarrow> Inr (frame_new v cmd sid data))
       (\<lambda>f. and_then (frame_validate f cfg) (\<lambda>_. Inr (Some f)))"

context bytes_crate
begin

lemma get_u16_le_bytes: "get_u16_le B (u16_to_le_bytes n @ s) = (n, s)"
  by (simp add: u16_to_le_bytes_def get_u16_le_law)

lemma get_u32_le_bytes: "get_u32_le B (u32_to_le_bytes m @ s) = (m, s)"
  by (simp add: u32_to_le_bytes_def get_u32_le_law)

lemma decode_header_bytes:
  "decode_header B (v # b # u16_to_le_bytes len @ u32_to_le_bytes sid @ s) =
     (s, and_then (from_byte b) (\<lambda>cmd. Inr (v, cmd, sid, len)))"
  by (simp add: decode_header_def HEADER_SIZE_def get_u8_law get_u16_le_bytes get_u32_le_bytes)

lemma decode_upd_data_payload:
  "decode_upd_data B (u32_to_le_bytes consumed @ u32_to_le_bytes window) = Inr (consumed, window)"
  using get_u32_le_bytes [of window "[]"]
  by (simp add: decode_upd_data_def get_u32_le_bytes)

lemma decode_upd_data_Inr_iff:
  "decode_upd_data B data = Inr (consumed, window) \<longleftrightarrow>
     data = u32_to_le_bytes consumed @ u32_to_le_bytes window"
proof
  assume ok: "decode_upd_data B data = Inr (consumed, window)"
  then have "length data = 8" by (simp add: decode_upd_data_def split: if_splits)
  then obtain b0 b1 b2 b3 b4 b5 b6 b7 where "data = [b0, b1, b2, b3, b4, b5, b6, b7]"
    by (auto simp: numeral_eq_Suc length_Suc_conv)
  then have d: "data = u32_to_le_bytes (u32_from_le_bytes b0 b1 b2 b3)
                      @ u32_to_le_bytes (u32_from_le_bytes b4 b5 b6 b7)"
    by simp
  with ok decode_upd_data_payload show "data = u32_to_le_bytes consumed @ u32_to_le_bytes window"
    by (metis Inr_inject Pair_inject)
qed (simp add: decode_upd_data_payload)

lemma encode_upd_data_eq:
  "encode_upd_data B consumed window = u32_to_le_bytes consumed @ u32_to_le_bytes window"
  by (simp add: encode_upd_data_def put_u32_le_law)

lemma encode_header_eq: "encode_header B dst v c sid len = dst @ wire_header v c len sid"
  by (simp add: encode_header_def wire_header_def bytes_laws)

lemma decode_short: "length src < HEADER_SIZE \<Longrightarrow> decode B cd src = (src, Inr None)"
  by (simp add: decode_def)

lemma decode_bytes:
  assumes src: "src = v # b # u16_to_le_bytes len @ u32_to_le_bytes sid @ s"
  shows "decode B cd src =
     (case from_byte b of
        Inl e \<Rightarrow> (src, Inl e)
      | Inr cmd \<Rightarrow>
          (if codec_max_frame_size cd < HEADER_SIZE + unat len then
             (src, Inl (FrameTooLarge (HEADER_SIZE + unat len) (codec_max_frame_size cd)))
           else if length s < unat len then (src, Inr None)
           else (drop (unat len) s,
                 decode_body B (codec_config cd) v cmd sid (take (unat len) s))))"
proof (cases "from_byte b")
  case (Inl e)
  with src show ?thesis
    by (simp add: decode_def decode_header_bytes HEADER_SIZE_def)
next
  case (Inr cmd)
  have "length src = HEADER_SIZE + length s" by (simp add: src HEADER_SIZE_def)
  then show ?thesis
    by (cases cmd; cases "decode_upd_data B (take (unat len) s)")
      (auto simp: decode_def decode_body_def Inr src decode_header_bytes split_to_law Let_def)
qed

lemma decode_body_Inr_iff:
  assumes "wire_command cmd = cmd"
  shows "decode_body B cfg v cmd sid data = Inr r \<longleftrightarrow>
     (\<exists>f. r = Some f \<and> frame_valid cfg f \<and> frame_version f = v \<and> frame_stream_id f = sid \<and>
          wire_command (frame_cmd f) = cmd \<and> wire_payload f = data)"
proof (cases cmd)
  case (Upd c w)
  show ?thesis
  proof (cases "2 \<le> v")
    case True
    have *: "frame_valid cfg f \<and> wire_command (frame_cmd f) = Upd 0 0 \<Longrightarrow> frame_data f = []" for f
      by (cases "frame_cmd f") (auto simp: frame_valid_def)
    show ?thesis (is "?L \<longleftrightarrow> ?R")
    proof
      assume ?L
      with True Upd assms show ?R
        by (auto simp: decode_body_def and_then_Inr_iff frame_validate_Inr_iff frame_new_def
            decode_upd_data_Inr_iff wire_payload_def)
    next
      assume ?R
      then obtain f where f: "r = Some f" "frame_valid cfg f" "frame_version f = v"
        "frame_stream_id f = sid" "wire_command (frame_cmd f) = cmd" "wire_payload f = data"
        by blast
      with Upd assms * have "frame_data f = []" by simp
      from f Upd assms obtain c' w' where c: "frame_cmd f = Upd c' w'" by (cases "frame_cmd f") auto
      with f have "decode_upd_data B data = Inr (c', w')"
        by (simp add: decode_upd_data_Inr_iff wire_payload_def)
      moreover have "f = frame_new v (Upd c' w') sid []"
        using f c \<open>frame_data f = []\<close> by (simp add: frame_new_def)
      ultimately show ?L
        using f True Upd by (simp add: decode_body_def and_then_Inr_iff frame_validate_Inr_iff)
    qed
  next
    case False
    then have "\<not> frame_valid cfg f" if "frame_version f = v" "wire_command (frame_cmd f) = cmd" for f
      using that Upd by (cases "frame_cmd f") (auto simp: frame_valid_def)
    moreover have "\<not> frame_valid cfg (frame_new v cmd sid [])"
      using False Upd by (simp add: frame_valid_def frame_new_def)
    ultimately show ?thesis
      using False Upd by (auto simp: decode_body_def and_then_Inr_iff frame_validate_Inr_iff)
  qed
next
qed (auto simp: decode_body_def and_then_Inr_iff frame_validate_Inr_iff frame_new_def
    wire_payload_def frame_valid_def)

lemma decode_wire_bytes:
  assumes "encodable cfg f"
  shows "decode B (codec_new cfg) (wire_bytes f @ rest) = (rest, Inr (Some f))"
proof -
  have len: "unat (wire_length f) = length (wire_payload f)"
    and fits: "HEADER_SIZE + length (wire_payload f) \<le> max_frame_size cfg"
    and valid: "frame_valid cfg f"
    using assms by (simp_all add: encodable_def unat_wire_length)
  have "decode_body B cfg (frame_version f) (wire_command (frame_cmd f)) (frame_stream_id f)
          (wire_payload f) = Inr (Some f)"
    using valid by (simp add: decode_body_Inr_iff)
  with len fits show ?thesis
    using decode_bytes [of "wire_bytes f @ rest" "frame_version f" "to_byte (frame_cmd f)"
        "wire_length f" "frame_stream_id f" "wire_payload f @ rest" "codec_new cfg"]
    by (simp add: wire_bytes_def wire_header_def codec_new_def)
qed

lemma decode_Some_iff:
  "decode B (codec_new cfg) src = (rest, Inr (Some f)) \<longleftrightarrow>
     encodable cfg f \<and> src = wire_bytes f @ rest"
proof
  assume dec: "decode B (codec_new cfg) src = (rest, Inr (Some f))"
  then have "\<not> length src < HEADER_SIZE" by (auto simp: decode_short)
  then obtain v b len sid s where src: "src = v # b # u16_to_le_bytes len @ u32_to_le_bytes sid @ s"
    using header_bytesE linorder_not_less by blast
  note dec' = dec [unfolded decode_bytes [OF src]]
  from dec' obtain cmd where cmd: "from_byte b = Inr cmd" by (cases "from_byte b") auto
  with dec' have fits: "HEADER_SIZE + unat len \<le> max_frame_size cfg" "unat len \<le> length s"
    and rest: "rest = drop (unat len) s"
    and body: "decode_body B cfg v cmd sid (take (unat len) s) = Inr (Some f)"
    by (auto simp: codec_new_def split: if_splits)
  from cmd have b: "b = to_byte cmd" "wire_command cmd = cmd" by (simp_all add: from_byte_Inr_iff)
  with body have f: "frame_valid cfg f" "frame_version f = v" "frame_stream_id f = sid"
    "wire_command (frame_cmd f) = cmd" "wire_payload f = take (unat len) s"
    by (auto simp: decode_body_Inr_iff)
  from f(5) fits have plen: "length (wire_payload f) = unat len" by simp
  then have "wire_length f = len" by (simp add: wire_length_def)
  moreover have "to_byte (frame_cmd f) = b" using f(4) b(1) to_byte_wire_command by metis
  ultimately have "src = wire_bytes f @ rest"
    using f rest by (simp add: wire_bytes_def wire_header_def src)
  moreover have "unat len < 2 ^ 16" using unsigned_less [of len] by simp
  ultimately show "encodable cfg f \<and> src = wire_bytes f @ rest"
    using f fits plen by (simp add: encodable_def)
qed (simp add: decode_wire_bytes)

lemma decode_None_iff:
  "snd (decode B cd src) = Inr None \<longleftrightarrow>
     length src < HEADER_SIZE \<or>
     (\<exists>v cmd len sid s. src = wire_header v cmd len sid @ s \<and> length s < unat len \<and>
        HEADER_SIZE + unat len \<le> codec_max_frame_size cd)" (is "?L \<longleftrightarrow> ?short \<or> ?part")
proof (cases ?short)
  case False
  then obtain v b len sid s where src: "src = v # b # u16_to_le_bytes len @ u32_to_le_bytes sid @ s"
    using header_bytesE linorder_not_less by blast
  have body: "decode_body B cfg v cmd sid data \<noteq> Inr None" if "wire_command cmd = cmd" for cfg cmd data
    using that by (simp add: decode_body_Inr_iff)
  show ?thesis
  proof (cases "from_byte b")
    case (Inl e)
    then have "b \<noteq> to_byte cmd" for cmd using from_byte_to_byte [of cmd] by auto
    then have "\<not> ?part" by (auto simp: src wire_header_def)
    then show ?thesis using False Inl by (simp add: decode_bytes [OF src])
  next
    case (Inr cmd)
    then have b: "b = to_byte cmd" "wire_command cmd = cmd" by (simp_all add: from_byte_Inr_iff)
    have "?part \<longleftrightarrow> length s < unat len \<and> HEADER_SIZE + unat len \<le> codec_max_frame_size cd"
    proof
      assume ?part
      then obtain v' cmd' len' sid' s' where
        eq: "src = wire_header v' cmd' len' sid' @ s'" and
        c: "length s' < unat len'" "HEADER_SIZE + unat len' \<le> codec_max_frame_size cd"
        by blast
      from eq have "u16_to_le_bytes len @ u32_to_le_bytes sid @ s
                  = u16_to_le_bytes len' @ u32_to_le_bytes sid' @ s'"
        by (simp add: src wire_header_def)
      then have "u16_to_le_bytes len = u16_to_le_bytes len'" "s = s'" by simp_all
      then have "len = len'" using get_u16_le_bytes by (metis prod.inject)
      with c \<open>s = s'\<close> show "length s < unat len \<and> HEADER_SIZE + unat len \<le> codec_max_frame_size cd"
        by simp
    next
      assume "length s < unat len \<and> HEADER_SIZE + unat len \<le> codec_max_frame_size cd"
      then show ?part
        using b by (intro exI [of _ v] exI [of _ cmd] exI [of _ len] exI [of _ sid] exI [of _ s])
          (simp add: src wire_header_def)
    qed
    then show ?thesis
      using False Inr body b by (auto simp: decode_bytes [OF src])
  qed
qed (simp add: decode_short)

lemma decode_whole:
  assumes "length (wire_payload f) < 2 ^ 16"
  shows "snd (decode B cd (wire_bytes f @ rest)) \<noteq> Inr None"
  using decode_bytes [of "wire_bytes f @ rest" "frame_version f" "to_byte (frame_cmd f)"
      "wire_length f" "frame_stream_id f" "wire_payload f @ rest" cd] unat_wire_length [OF assms]
  by (simp add: wire_bytes_def wire_header_def decode_body_Inr_iff)

lemma decode_stable:
  assumes "snd (decode B cd src) \<noteq> Inr None"
  shows "decode B cd (src @ t) = (fst (decode B cd src) @ t, snd (decode B cd src))"
proof -
  from assms have "\<not> length src < HEADER_SIZE" by (auto simp: decode_short)
  then obtain v b len sid s where src: "src = v # b # u16_to_le_bytes len @ u32_to_le_bytes sid @ s"
    using header_bytesE linorder_not_less by blast
  then have srct: "src @ t = v # b # u16_to_le_bytes len @ u32_to_le_bytes sid @ (s @ t)"
    by simp
  show ?thesis
    using assms unfolding decode_bytes [OF src] decode_bytes [OF srct]
    by (auto split: sum.splits if_splits)
qed

lemma decode_need_more: "decode B cd src = (src', Inr None) \<Longrightarrow> src' = src"
proof (cases "length src < HEADER_SIZE")
  case False
  assume dec: "decode B cd src = (src', Inr None)"
  obtain v b len sid s where src: "src = v # b # u16_to_le_bytes len @ u32_to_le_bytes sid @ s"
    using False header_bytesE linorder_not_less by blast
  from dec show ?thesis
    unfolding decode_bytes [OF src]
    by (auto simp: from_byte_Inr_iff decode_body_Inr_iff split: sum.splits if_splits)
qed (simp add: decode_short)

lemma decode_progress:
  assumes "decode B cd src = (src', Inr (Some f))"
  shows "length src' + HEADER_SIZE \<le> length src"
proof -
  from assms have "\<not> length src < HEADER_SIZE" by (auto simp: decode_short)
  then obtain v b len sid s where src: "src = v # b # u16_to_le_bytes len @ u32_to_le_bytes sid @ s"
    using header_bytesE linorder_not_less by blast
  from assms show ?thesis
    unfolding decode_bytes [OF src]
    by (auto simp: src HEADER_SIZE_def split: sum.splits if_splits)
qed

lemma encode_eq:
  "encode B (codec_new cfg) f dst =
     (if \<not> frame_valid cfg f then (dst, frame_validate f cfg)
      else if max_frame_size cfg < HEADER_SIZE + unat (wire_length f) then
        (dst, Inl (FrameTooLarge (HEADER_SIZE + unat (wire_length f)) (max_frame_size cfg)))
      else (dst @ wire_bytes f, Inr ()))"
proof (cases rule: frame_validate_cases [of cfg f])
  case ok
  then have "2 \<le> frame_version f" if "requires_v2 (frame_cmd f)"
    using that by (simp add: frame_valid_def)
  with ok show ?thesis
    by (cases "frame_cmd f")
      (simp_all add: encode_def codec_new_def wire_length_def wire_payload_def wire_bytes_def
        encode_upd_data_eq encode_header_eq put_slice_law)
next
  case (err e)
  then show ?thesis by (simp add: encode_def codec_new_def)
qed

lemma encode_encodable: "encodable cfg f \<Longrightarrow> encode B (codec_new cfg) f dst = (dst @ wire_bytes f, Inr ())"
  by (simp add: encode_eq encodable_def unat_wire_length)

end

sublocale bytes_crate \<subseteq> framed: frame_decoder "decode B cd" for cd
proof
  show "decode B cd s = (s', Inr None) \<Longrightarrow> s' = s" for s s'
    by (rule decode_need_more)
  show "decode B cd s = (s', Inr (Some f)) \<Longrightarrow> length s' < length s" for s s' f
    using decode_progress by (fastforce simp: HEADER_SIZE_def)
  show "snd (decode B cd s) \<noteq> Inr None
        \<Longrightarrow> decode B cd (s @ t) = (fst (decode B cd s) @ t, snd (decode B cd s))" for s t
    by (rule decode_stable)
  show "decode B cd [] = ([], Inr None)"
    by (simp add: decode_short HEADER_SIZE_def)
qed

section \<open>Sequences of frames\<close>

text \<open>
  What a sink over the codec writes for a sequence of frames: it encodes one after the other into the
  same buffer and stops at the first error.
\<close>

fun encode_all :: "bytes_api \<Rightarrow> codec \<Rightarrow> frame list \<Rightarrow> bytes \<Rightarrow> bytes \<times> unit result" where
  "encode_all B cd [] dst = (dst, Inr ())"
| "encode_all B cd (f # fs) dst =
     (case encode B cd f dst of
        (dst', Inl e) \<Rightarrow> (dst', Inl e)
      | (dst', Inr _) \<Rightarrow> encode_all B cd fs dst')"

context bytes_crate
begin

lemma encode_all_encodable:
  "\<forall>f \<in> set fs. encodable cfg f \<Longrightarrow>
   encode_all B (codec_new cfg) fs dst = (dst @ concat (map wire_bytes fs), Inr ())"
  by (induction fs arbitrary: dst) (simp_all add: encode_encodable)

lemma drain_wire_bytes:
  "\<forall>f \<in> set fs. encodable cfg f \<Longrightarrow>
   drain (decode B (codec_new cfg)) (concat (map wire_bytes fs) @ rest) =
     (let (gs, r) = drain (decode B (codec_new cfg)) rest in (fs @ gs, r))"
proof (induction fs)
  case (Cons f fs)
  then show ?case
    by (simp add: drain.simps [of _ "wire_bytes f @ _"] decode_wire_bytes length_wire_bytes
        HEADER_SIZE_def Let_def split: prod.splits)
qed simp

lemma delivered_chunks:
  "delivered (feed_all (decode B cd) chunks) = delivered (drain (decode B cd) (concat chunks))"
  by (rule framed.feed_all_concat)

lemma feed_all_wire_bytes:
  assumes "\<forall>f \<in> set fs. encodable cfg f"
    and "concat chunks = concat (map wire_bytes fs)"
  shows "delivered (feed_all (decode B (codec_new cfg)) chunks) = (fs, None)"
proof -
  have "drain (decode B (codec_new cfg)) (concat chunks) = (fs, [], None)"
    using drain_wire_bytes [OF assms(1), of "[]"] assms(2) by (simp add: framed.drain_Nil)
  then show ?thesis
    unfolding framed.feed_all_concat by (simp add: delivered_def)
qed

end

section \<open>Properties\<close>

text \<open>
  C19. Round trip over any transport: a sequence of encodable frames is encoded without error, and the
  bytes, cut into chunks in any way whatever, decode to exactly these frames, in order, with nothing
  left over and no error.
\<close>

lemma codec_roundtrip:
  assumes "bytes_crate B" "\<forall>f \<in> set fs. encodable cfg f"
    and "concat chunks = fst (encode_all B (codec_new cfg) fs [])"
  shows "snd (encode_all B (codec_new cfg) fs []) = Inr () \<and>
         delivered (feed_all (decode B (codec_new cfg)) chunks) = (fs, None)"
  using bytes_crate.encode_all_encodable [OF assms(1,2), of "[]"]
    bytes_crate.feed_all_wire_bytes [OF assms(1,2)] assms(3) by simp

lemma codec_roundtrip_witness:
  "delivered (feed_all (decode list_bytes (codec_new config_default))
     [[1, 2, 2, 0], [5, 0, 0], [0, 8, 9, 2, 4], [8, 0, 5, 0, 0, 0, 1, 0, 0, 0, 0, 1, 0, 0]]) =
   ([new_psh 1 5 [8, 9], new_upd 2 5 1 256], None)"
  using codec_roundtrip [OF le.bytes_crate_axioms,
      where fs = "[new_psh 1 5 [8, 9], new_upd 2 5 1 256]" and cfg = config_default and chunks =
        "[[1, 2, 2, 0], [5, 0, 0], [0, 8, 9, 2, 4], [8, 0, 5, 0, 0, 0, 1, 0, 0, 0, 0, 1, 0, 0]]"]
    le.encode_all_encodable [of "[new_psh 1 5 [8, 9], new_upd 2 5 1 256]" config_default "[]"]
  by (simp add: encodable_def frame_valid_def frame_new_defs wire_payload_def wire_bytes_def
      wire_header_def wire_length_def config_default_def HEADER_SIZE_def u16_to_le_bytes_def
      u32_to_le_bytes_def drop_bit_eq_div)

text \<open>
  C20. Exactness of the decoder: it returns a frame exactly when the buffer begins with the wire bytes of
  that frame and the frame is one the encoder accepts, and it removes exactly those bytes.
\<close>

lemma decode_exact:
  assumes "bytes_crate B"
  shows "decode B (codec_new cfg) src = (rest, Inr (Some f)) \<longleftrightarrow>
         encodable cfg f \<and> src = wire_bytes f @ rest"
  by (rule bytes_crate.decode_Some_iff [OF assms])

lemma decode_exact_witness:
  "decode list_bytes (codec_new config_default) [1, 1, 0, 0, 3, 0, 0, 0, 77] = ([77], Inr (Some (new_fin 1 3)))"
  using decode_exact [OF le.bytes_crate_axioms,
      of config_default "[1, 1, 0, 0, 3, 0, 0, 0, 77]" "[77]" "new_fin 1 3"]
  by (simp add: encodable_def frame_valid_def frame_new_defs wire_payload_def wire_bytes_def
      wire_header_def wire_length_def config_default_def HEADER_SIZE_def u16_to_le_bytes_def
      u32_to_le_bytes_def)

text \<open>
  Waiting: the decoder asks for more bytes exactly when the header is incomplete or announces, under
  a known command and within the frame size, more payload than the buffer holds. It then leaves the
  buffer as it is, and the buffer is smaller than a header or the configured frame size: an endless
  stream of bytes cannot make it buffer more than one frame.
\<close>

lemma decode_waits:
  assumes "bytes_crate B"
  shows "(snd (decode B (codec_new cfg) src) = Inr None \<longleftrightarrow>
            length src < HEADER_SIZE \<or>
            (\<exists>v cmd len sid s. src = wire_header v cmd len sid @ s \<and> length s < unat len \<and>
               HEADER_SIZE + unat len \<le> max_frame_size cfg)) \<and>
         (snd (decode B (codec_new cfg) src) = Inr None \<longrightarrow>
            fst (decode B (codec_new cfg) src) = src \<and>
            length src < max HEADER_SIZE (max_frame_size cfg))"
proof -
  have waits: "snd (decode B (codec_new cfg) src) = Inr None \<longleftrightarrow>
            length src < HEADER_SIZE \<or>
            (\<exists>v cmd len sid s. src = wire_header v cmd len sid @ s \<and> length s < unat len \<and>
               HEADER_SIZE + unat len \<le> max_frame_size cfg)"
    using bytes_crate.decode_None_iff [OF assms] by (simp add: codec_new_def)
  have "fst (decode B (codec_new cfg) src) = src" if "snd (decode B (codec_new cfg) src) = Inr None"
    using that bytes_crate.decode_need_more [OF assms] by (metis prod.collapse)
  with waits show ?thesis by (auto simp: max_def)
qed

lemma decode_waits_witness:
  "decode list_bytes (codec_new config_default) [1, 2, 9, 0, 3, 0, 0, 0, 1] =
   ([1, 2, 9, 0, 3, 0, 0, 0, 1], Inr None)"
proof -
  have "[1, 2, 9, 0, 3, 0, 0, 0, 1] = wire_header 1 Psh 9 3 @ [1::byte]"
    by (simp add: wire_header_def u16_to_le_bytes_def u32_to_le_bytes_def)
  moreover have "length [1::byte] < unat (9::u16) \<and>
      HEADER_SIZE + unat (9::u16) \<le> max_frame_size config_default"
    by (simp add: HEADER_SIZE_def config_default_def)
  ultimately show ?thesis
    using decode_waits [OF le.bytes_crate_axioms, of config_default "[1, 2, 9, 0, 3, 0, 0, 0, 1]"]
    by (metis prod.collapse)
qed

text \<open>
  C34. Early rejection: as soon as the eight bytes of a header are there, an unknown command byte and an
  announced size beyond the limit are refused, whatever follows and without waiting for the payload.
  (The specification of the decoder waits for the whole frame before it looks at the command byte; the code
  looks at it first.)
\<close>

lemma decode_rejects_header:
  assumes "bytes_crate B"
    and "src = v # b # u16_to_le_bytes len @ u32_to_le_bytes sid @ s"
  shows "(4 < b \<longrightarrow> decode B (codec_new cfg) src = (src, Inl InvalidFrame)) \<and>
         (b \<le> 4 \<and> max_frame_size cfg < HEADER_SIZE + unat len \<longrightarrow>
            decode B (codec_new cfg) src =
              (src, Inl (FrameTooLarge (HEADER_SIZE + unat len) (max_frame_size cfg))))"
proof (cases "from_byte b")
  case (Inl e)
  then have "e = InvalidFrame" "4 < b" by (simp_all add: from_byte_Inl)
  then show ?thesis
    using bytes_crate.decode_bytes [OF assms, of "codec_new cfg"] Inl by (simp add: leD)
next
  case (Inr c)
  then have "\<not> 4 < b" using from_byte_Inl [of b InvalidFrame] by simp
  then show ?thesis
    using bytes_crate.decode_bytes [OF assms, of "codec_new cfg"] Inr
    by (simp add: codec_new_def)
qed

lemma decode_rejects_header_witness:
  "decode list_bytes (codec_new config_default) [1, 9, 0, 0, 3, 0, 0, 0] =
     ([1, 9, 0, 0, 3, 0, 0, 0], Inl InvalidFrame)"
  using decode_rejects_header [OF le.bytes_crate_axioms,
      of "[1, 9, 0, 0, 3, 0, 0, 0]" 1 9 0 3 "[]" config_default]
  by (simp add: u16_to_le_bytes_def u32_to_le_bytes_def)

text \<open>
  C35. Independence of chunking: two ways of cutting the same bytes, valid or not, give the same frames
  and the same error.
\<close>

lemma decoding_independent_of_chunks:
  assumes "bytes_crate B" "concat chunks = concat chunks'"
  shows "delivered (feed_all (decode B cd) chunks) = delivered (feed_all (decode B cd) chunks')"
  by (simp add: bytes_crate.delivered_chunks [OF assms(1)] assms(2))

lemma decoding_independent_of_chunks_witness:
  "delivered (feed_all (decode list_bytes (codec_new config_default)) [[1], [9, 0, 0], [3, 0, 0, 0]]) =
   delivered (feed_all (decode list_bytes (codec_new config_default)) [[1, 9, 0, 0, 3, 0, 0, 0]])"
  by (rule decoding_independent_of_chunks [OF le.bytes_crate_axioms]) simp

text \<open>
  The encoder, on every frame: a frame that is not acceptable is refused with the error of its
  validation and nothing is written; one whose encoded size exceeds the limit is refused as too large;
  every other one is appended to the buffer in the wire format.
\<close>

lemma encode_correct:
  assumes "bytes_crate B"
  shows "encode B (codec_new cfg) f dst =
     (if \<not> frame_valid cfg f then (dst, frame_validate f cfg)
      else if max_frame_size cfg < HEADER_SIZE + unat (wire_length f) then
        (dst, Inl (FrameTooLarge (HEADER_SIZE + unat (wire_length f)) (max_frame_size cfg)))
      else (dst @ wire_bytes f, Inr ()))"
  by (rule bytes_crate.encode_eq [OF assms])

lemma encode_correct_witness:
  "encode list_bytes (codec_new config_default) (new_nop 1) [] = ([1, 3, 0, 0, 0, 0, 0, 0], Inr ())"
  using encode_correct [OF le.bytes_crate_axioms, of config_default "new_nop 1" "[]"]
  by (simp add: frame_valid_def frame_new_defs wire_payload_def wire_bytes_def
      wire_header_def wire_length_def config_default_def HEADER_SIZE_def u16_to_le_bytes_def
      u32_to_le_bytes_def)

text \<open>
  C33. The length field is sixteen bits wide, and the encoder does not check that the data fits it: with
  a frame size that allows it, a frame of 65536 bytes of data or more is encoded without an error and
  decodes to another frame, with the data cut off modulo 65536 and the rest of the data left in the
  buffer as if it were the next frame.
\<close>

lemma encode_truncates_length:
  assumes "bytes_crate B" "frame_cmd f = Psh" "frame_valid cfg f" "2 ^ 16 \<le> length (frame_data f)"
  shows "\<exists>dst. encode B (codec_new cfg) f [] = (dst, Inr ()) \<and>
           decode B (codec_new cfg) dst =
             (drop (length (frame_data f) mod 2 ^ 16) (frame_data f),
              Inr (Some (f\<lparr>frame_data := take (length (frame_data f) mod 2 ^ 16) (frame_data f)\<rparr>)))"
proof -
  let ?n = "length (frame_data f) mod 2 ^ 16"
  let ?g = "f\<lparr>frame_data := take ?n (frame_data f)\<rparr>"
  have payload: "wire_payload f = frame_data f" using assms(2) by (simp add: wire_payload_def)
  then have len: "unat (wire_length f) = ?n"
    by (simp add: wire_length_def unsigned_of_nat take_bit_eq_mod)
  have n: "?n \<le> length (frame_data f)" by simp
  have fits: "HEADER_SIZE + length (frame_data f) \<le> max_frame_size cfg"
    using assms(3) by (simp add: frame_valid_def)
  then have size: "\<not> max_frame_size cfg < HEADER_SIZE + unat (wire_length f)"
    unfolding len using n by linarith
  have enc: "encode B (codec_new cfg) f [] = (wire_bytes f, Inr ())"
    using bytes_crate.encode_eq [OF assms(1), of cfg f "[]"] assms(3) size by simp
  have "frame_valid cfg ?g"
    using assms(2,3) fits n by (auto simp: frame_valid_def)
  moreover have "?n < 2 ^ 16" by simp
  moreover have glen: "length (wire_payload ?g) = ?n" using assms(2) n by (simp add: wire_payload_def)
  ultimately have "encodable cfg ?g"
    using fits n unfolding encodable_def glen by linarith
  moreover have "wire_length ?g = wire_length f"
    using unat_wire_length [of ?g] glen len by (simp add: word_unat_eq_iff)
  then have "wire_bytes f = wire_bytes ?g @ drop ?n (frame_data f)"
    using assms(2) by (simp add: wire_bytes_def wire_payload_def)
  ultimately have "decode B (codec_new cfg) (wire_bytes f) = (drop ?n (frame_data f), Inr (Some ?g))"
    using bytes_crate.decode_Some_iff [OF assms(1)] by blast
  with enc show ?thesis by blast
qed

lemma encode_truncates_length_witness:
  "\<exists>dst. encode list_bytes (codec_new (config_default\<lparr>max_frame_size := 70000\<rparr>))
           (new_psh 1 3 (replicate 65540 7)) [] = (dst, Inr ()) \<and>
     decode list_bytes (codec_new (config_default\<lparr>max_frame_size := 70000\<rparr>)) dst =
       (replicate 65536 7, Inr (Some (new_psh 1 3 (replicate 4 7))))"
  using encode_truncates_length [OF le.bytes_crate_axioms,
      of "new_psh 1 3 (replicate 65540 7)" "config_default\<lparr>max_frame_size := 70000\<rparr>"]
  by (simp add: frame_new_defs frame_valid_def HEADER_SIZE_def)

text \<open>
  Decoding errors are fatal: no error of the decoder is one that the library classifies as
  recoverable, so the receive loop, which stops at the first one, never gives up on a stream of
  bytes that it could have continued.
\<close>

lemma decode_errors_fatal:
  assumes "bytes_crate B" "snd (decode B cd src) = Inl e"
  shows "\<not> is_recoverable e"
proof -
  from assms(2) have "\<not> length src < HEADER_SIZE"
    by (auto simp: bytes_crate.decode_short [OF assms(1)])
  then obtain v b len sid s where src: "src = v # b # u16_to_le_bytes len @ u32_to_le_bytes sid @ s"
    using header_bytesE linorder_not_less by blast
  have validate: "frame_validate f cfg = Inl e \<Longrightarrow> \<not> is_recoverable e" for f cfg
    by (auto simp: frame_validate_def validate_stream_id_def split: if_splits command.splits)
  have upd: "decode_upd_data B d = Inl e \<Longrightarrow> \<not> is_recoverable e" for d
    by (auto simp: decode_upd_data_def Let_def split: if_splits prod.splits)
  have "decode_body B cfg v cmd sid d = Inl e \<Longrightarrow> \<not> is_recoverable e" for cfg cmd d
    using validate upd
    by (auto simp: decode_body_def and_then_def split: command.splits if_splits sum.splits)
  then show ?thesis
    using assms(2) unfolding bytes_crate.decode_bytes [OF assms(1) src]
    by (auto simp: from_byte_Inl split: sum.splits if_splits)
qed

lemma decode_errors_fatal_witness:
  "\<not> is_recoverable InvalidFrame \<and>
   snd (decode list_bytes (codec_new config_default) [1, 9, 0, 0, 3, 0, 0, 0]) = Inl InvalidFrame"
proof -
  have "decode list_bytes (codec_new config_default) [1, 9, 0, 0, 3, 0, 0, 0] =
        ([1, 9, 0, 0, 3, 0, 0, 0], Inl InvalidFrame)"
    using le.decode_bytes [of "[1, 9, 0, 0, 3, 0, 0, 0]" 1 9 0 3 "[]" "codec_new config_default"]
    by (simp add: u16_to_le_bytes_def u32_to_le_bytes_def from_byte_def)
  then show ?thesis
    using decode_errors_fatal [OF le.bytes_crate_axioms, of "codec_new config_default"
        "[1, 9, 0, 0, 3, 0, 0, 0]" InvalidFrame] by simp
qed

end
