(* ===== verification/Streams.thy ===== *)
theory Streams
  imports Session_State Interfaces Codecs
begin

text \<open>
  \<open>src/src/stream.rs\<close>: one logical stream. The struct's own fields are the record; what a stream shares
  is passed to its operations and returned updated: the session's frame channel, the stream's data
  channel (its receiving end; the sending end is in the session's table), the session state and the
  configuration. \<open>data_rx\<close> is the address of the data channel in the session's store.

  The two flags are \<open>Arc<AtomicBool>\<close>s made by \<open>Stream::new\<close>, which no code clones, so they are fields
  of the stream itself. In particular the session's own \<open>is_read_closed\<close> flag for the same stream is a
  different cell (see the theory of sessions).
\<close>

record stream =
  stream_id :: u32
  data_rx :: nat
  current_chunk :: "bytes option"
  read_closed_flag :: bool
  write_closed_flag :: bool

definition stream_new :: "u32 \<Rightarrow> nat \<Rightarrow> stream" where
  "stream_new sid rx =
     \<lparr>stream_id = sid, data_rx = rx, current_chunk = None,
      read_closed_flag = False, write_closed_flag = False\<rparr>"

definition is_read_closed :: "stream \<Rightarrow> bool" where
  "is_read_closed st = read_closed_flag st"

definition is_write_closed :: "stream \<Rightarrow> bool" where
  "is_write_closed st = write_closed_flag st"

definition stream_is_closed :: "stream \<Rightarrow> bool" where
  "stream_is_closed st = (is_read_closed st \<and> is_write_closed st)"

abbreviation session_is_closed_error :: io_error where
  "session_is_closed_error \<equiv> io_error_new BrokenPipe ''Session is closed''"

section \<open>Closing\<close>

text \<open>
  \<open>close\<close> sets the flag and then awaits the send of the FIN frame. The first poll does both;
  \<open>stream_close_resume\<close> is a later poll of the same call, which only retries the send.
\<close>

definition stream_close_resume ::
    "('fc, frame) flume_api \<Rightarrow> stream \<Rightarrow> 'fc \<Rightarrow> 'fc \<times> unit result poll" where
  "stream_close_resume F st fc =
     (case send_async F fc (new_fin 1 (stream_id st)) of
        (fc', Ready True) \<Rightarrow> (fc', Ready (Inr ()))
      | (fc', Ready False) \<Rightarrow> (fc', Ready (Inl SessionClosed))
      | (fc', Pending) \<Rightarrow> (fc', Pending))"

definition stream_close ::
    "('fc, frame) flume_api \<Rightarrow> stream \<Rightarrow> 'fc \<Rightarrow> (stream \<times> 'fc) \<times> unit result poll" where
  "stream_close F st fc =
     (if \<not> write_closed_flag st
      then (let st = st\<lparr>write_closed_flag := True\<rparr>;
                (fc, r) = stream_close_resume F st fc
            in ((st, fc), r))
      else ((st, fc), Ready (Inr ())))"

section \<open>Reading\<close>

text \<open>
  The result of a read is what \<open>poll_read\<close> put into the caller's \<open>ReadBuf\<close>, of which \<open>remaining\<close>
  bytes were free; an empty list is a read of zero bytes, which callers take for the end of the
  stream. \<open>poll_read_recv\<close> is the part of the body from the channel's \<open>try_recv\<close> on.
\<close>

definition poll_read_recv ::
    "bytes_api \<Rightarrow> ('dc, bytes) flume_api \<Rightarrow> stream \<Rightarrow> 'dc \<Rightarrow> session_state \<Rightarrow> nat
     \<Rightarrow> (stream \<times> 'dc \<times> session_state) \<times> (io_error + bytes) poll" where
  "poll_read_recv B D st ch ss remaining =
     (case try_recv D ch of
        (ch, Received chunk) \<Rightarrow>
          (let to_copy = min (length chunk) remaining in
           if to_copy > 0 then
             (let (data, chunk) = split_to B chunk to_copy;
                  ss = return_tokens to_copy ss;
                  st = (if chunk \<noteq> [] then st\<lparr>current_chunk := Some chunk\<rparr> else st)
              in ((st, ch, ss), Ready (Inr data)))
           else ((st\<lparr>current_chunk := Some chunk\<rparr>, ch, ss), Ready (Inr [])))
      | (ch, RecvDisconnected) \<Rightarrow> ((st, ch, ss), Ready (Inr []))
      | (ch, RecvEmpty) \<Rightarrow>
          (if read_closed_flag st then ((st, ch, ss), Ready (Inr []))
           else ((st, ch, ss), Pending)))"

definition poll_read ::
    "bytes_api \<Rightarrow> ('dc, bytes) flume_api \<Rightarrow> stream \<Rightarrow> 'dc \<Rightarrow> session_state \<Rightarrow> nat
     \<Rightarrow> (stream \<times> 'dc \<times> session_state) \<times> (io_error + bytes) poll" where
  "poll_read B D st ch ss remaining =
     (if read_closed_flag st then ((st, ch, ss), Ready (Inr []))
      else if is_closed ss then ((st, ch, ss), Ready (Inl session_is_closed_error))
      else
        case current_chunk st of
          Some chunk \<Rightarrow>
            (let to_copy = min (length chunk) remaining in
             if to_copy > 0 then
               (let (data, chunk) = split_to B chunk to_copy;
                    ss = return_tokens to_copy ss;
                    st = st\<lparr>current_chunk := (if chunk = [] then None else Some chunk)\<rparr>
                in ((st, ch, ss), Ready (Inr data)))
             else poll_read_recv B D st ch ss remaining)
        | None \<Rightarrow> poll_read_recv B D st ch ss remaining)"

section \<open>Writing\<close>

definition poll_write ::
    "('fc, frame) flume_api \<Rightarrow> config \<Rightarrow> stream \<Rightarrow> 'fc \<Rightarrow> session_state \<Rightarrow> bytes
     \<Rightarrow> 'fc \<times> (io_error + nat) poll" where
  "poll_write F cfg st fc ss buf =
     (if is_closed ss then (fc, Ready (Inl session_is_closed_error))
      else if write_closed_flag st then
        (fc, Ready (Inl (io_error_new BrokenPipe ''Stream is closed for writing'')))
      else if buf = [] then (fc, Ready (Inr 0))
      else
        (let max_payload_size = max_frame_size cfg - HEADER_SIZE;
             chunk_size = min (length buf) max_payload_size;
             data = take chunk_size buf;
             psh_frame = new_psh 1 (stream_id st) data
         in case try_send F fc psh_frame of
              (fc, Sent) \<Rightarrow> (fc, Ready (Inr chunk_size))
            | (fc, SendFull) \<Rightarrow> (fc, Pending)
            | (fc, SendDisconnected) \<Rightarrow> (fc, Ready (Inl session_is_closed_error))))"

definition poll_flush :: "stream \<Rightarrow> (io_error + unit) poll" where
  "poll_flush st = Ready (Inr ())"

definition poll_shutdown ::
    "('fc, frame) flume_api \<Rightarrow> stream \<Rightarrow> 'fc \<Rightarrow> (stream \<times> 'fc) \<times> (io_error + unit) poll" where
  "poll_shutdown F st fc =
     (if write_closed_flag st then ((st, fc), Ready (Inr ()))
      else
        case try_send F fc (new_fin 1 (stream_id st)) of
          (fc, Sent) \<Rightarrow> ((st\<lparr>write_closed_flag := True\<rparr>, fc), Ready (Inr ()))
        | (fc, SendFull) \<Rightarrow> ((st, fc), Pending)
        | (fc, SendDisconnected) \<Rightarrow> ((st\<lparr>write_closed_flag := True\<rparr>, fc), Ready (Inr ())))"

text \<open>
  \<open>Drop\<close>: the body of \<open>drop\<close> (best effort: the result of the send is ignored), and what dropping a
  stream does as a whole: the body, and then the fields are dropped, with \<open>data_rx\<close> the only receiver
  of the data channel.
\<close>

definition drop_body :: "('fc, frame) flume_api \<Rightarrow> stream \<Rightarrow> 'fc \<Rightarrow> stream \<times> 'fc" where
  "drop_body F st fc =
     (if \<not> write_closed_flag st
      then (st\<lparr>write_closed_flag := True\<rparr>, fst (try_send F fc (new_fin 1 (stream_id st))))
      else (st, fc))"

definition stream_drop ::
    "('fc, frame) flume_api \<Rightarrow> ('dc, bytes) flume_api \<Rightarrow> stream \<Rightarrow> 'fc \<Rightarrow> 'dc \<Rightarrow> 'fc \<times> 'dc" where
  "stream_drop F D st fc ch =
     (let (st, fc) = drop_body F st fc in (fc, drop_receiver D ch))"

section \<open>What reading does\<close>

text \<open>
  The bytes a reader has yet to see: the rest of the chunk it was reading and the chunks in the
  channel. \<open>chunks_ok\<close> says that no chunk is empty, which the session guarantees by dropping empty
  PSH frames.
\<close>

definition unread :: "('dc, bytes) flume_api \<Rightarrow> stream \<Rightarrow> 'dc \<Rightarrow> bytes" where
  "unread D st ch = (case current_chunk st of None \<Rightarrow> [] | Some c \<Rightarrow> c) @ concat (contents D ch)"

definition chunks_ok :: "('dc, bytes) flume_api \<Rightarrow> stream \<Rightarrow> 'dc \<Rightarrow> bool" where
  "chunks_ok D st ch \<longleftrightarrow> current_chunk st \<noteq> Some [] \<and> [] \<notin> set (contents D ch)"

text \<open>What a poll put into the caller's buffer.\<close>

fun poll_data :: "(io_error + bytes) poll \<Rightarrow> bytes" where
  "poll_data (Ready (Inr d)) = d"
| "poll_data (Ready (Inl e)) = []"
| "poll_data Pending = []"

text \<open>A caller that polls again and again, with buffers of the given sizes.\<close>

fun read_many ::
    "bytes_api \<Rightarrow> ('dc, bytes) flume_api \<Rightarrow> stream \<times> 'dc \<times> session_state \<Rightarrow> nat list
     \<Rightarrow> (stream \<times> 'dc \<times> session_state) \<times> bytes" where
  "read_many B D s [] = (s, [])"
| "read_many B D (st, ch, ss) (n # ns) =
     (let (s, r) = poll_read B D st ch ss n;
          (s, out) = read_many B D s ns
      in (s, poll_data r @ out))"

locale stream_env =
  bytes: bytes_crate B + frames: flume F + data: flume D
  for B :: bytes_api
    and F :: "('fc, frame) flume_api"
    and D :: "('dc, bytes) flume_api"
begin

lemma poll_read_recv_cases:
  assumes "\<not> read_closed_flag st"
  obtains (data) c cs ch' where "contents D ch = c # cs" "contents D ch' = cs"
        "senders_gone D ch' = senders_gone D ch" "c \<noteq> []" "0 < n"
        "poll_read_recv B D st ch ss n =
           ((if length c \<le> n then st else st\<lparr>current_chunk := Some (drop n c)\<rparr>, ch',
             return_tokens (min (length c) n) ss), Ready (Inr (take n c)))"
    | (kept) c cs ch' where "contents D ch = c # cs" "contents D ch' = cs"
        "senders_gone D ch' = senders_gone D ch" "c = [] \<or> n = 0"
        "poll_read_recv B D st ch ss n =
           ((st\<lparr>current_chunk := Some c\<rparr>, ch', ss), Ready (Inr []))"
    | (eof) "contents D ch = []" "senders_gone D ch"
        "poll_read_recv B D st ch ss n = ((st, ch, ss), Ready (Inr []))"
    | (pending) "contents D ch = []" "\<not> senders_gone D ch"
        "poll_read_recv B D st ch ss n = ((st, ch, ss), Pending)"
proof (cases rule: data.recv_cases [of ch])
  case (message c cs ch')
  show ?thesis
  proof (cases "c = [] \<or> n = 0")
    case True
    with message kept show ?thesis by (auto simp: poll_read_recv_def)
  next
    case False
    with message data show ?thesis
      by (auto simp: poll_read_recv_def bytes.split_to_law Let_def)
  qed
next
  case empty
  with assms pending show ?thesis by (simp add: poll_read_recv_def)
next
  case disconnected
  with eof show ?thesis by (simp add: poll_read_recv_def)
qed

text \<open>A poll with room in the buffer neither loses, invents nor reorders a byte.\<close>

lemma poll_read_conserves:
  assumes "poll_read B D st ch ss n = ((st', ch', ss'), r)" "0 < n"
  shows "poll_data r @ unread D st' ch' = unread D st ch"
proof (cases "read_closed_flag st \<or> is_closed ss")
  case True
  with assms show ?thesis by (auto simp: poll_read_def split: if_splits)
next
  case False
  then have open_st: "\<not> read_closed_flag st" by simp
  have recv: "poll_data r @ unread D st' ch' = unread D st ch"
    if "poll_read_recv B D st ch ss n = ((st', ch', ss'), r)"
      and "current_chunk st = None \<or> current_chunk st = Some []"
    by (cases rule: poll_read_recv_cases [OF open_st, of ch n ss])
      (use that assms(2) in \<open>auto simp: unread_def split: if_splits\<close>)
  show ?thesis
  proof (cases "current_chunk st")
    case None
    with False assms recv show ?thesis by (simp add: poll_read_def)
  next
    case (Some c)
    show ?thesis
    proof (cases "c = []")
      case True
      with False assms recv Some show ?thesis by (simp add: poll_read_def)
    next
      case nonempty: False
      with False assms Some have "st' = st\<lparr>current_chunk :=
           (if drop n c = [] then None else Some (drop n c))\<rparr>" "ch' = ch" "r = Ready (Inr (take n c))"
        by (auto simp: poll_read_def bytes.split_to_law Let_def min_def split: if_splits)
      with Some show ?thesis by (simp add: unread_def)
    qed
  qed
qed

text \<open>An open stream of non-empty chunks: what the three kinds of result mean.\<close>

lemma poll_read_open:
  assumes "poll_read B D st ch ss n = ((st', ch', ss'), r)" "0 < n"
    and "\<not> read_closed_flag st" "\<not> closed ss" "chunks_ok D st ch"
  shows "chunks_ok D st' ch' \<and> \<not> read_closed_flag st' \<and> \<not> closed ss' \<and>
         senders_gone D ch' = senders_gone D ch \<and>
         r = (if unread D st ch \<noteq> [] then Ready (Inr (poll_data r))
              else if senders_gone D ch then Ready (Inr []) else Pending) \<and>
         (unread D st ch \<noteq> [] \<longrightarrow> poll_data r \<noteq> []) \<and> length (poll_data r) \<le> n"
proof (cases "current_chunk st")
  case None
  with assms have "poll_read_recv B D st ch ss n = ((st', ch', ss'), r)"
    by (simp add: poll_read_def is_closed_def)
  with None assms(2-5) show ?thesis
    by (cases rule: poll_read_recv_cases [OF assms(3), of ch n ss])
      (auto simp: chunks_ok_def unread_def split: if_splits)
next
  case (Some c)
  with assms have c: "c \<noteq> []" by (simp add: chunks_ok_def)
  with Some assms have "st' = st\<lparr>current_chunk :=
       (if drop n c = [] then None else Some (drop n c))\<rparr>"
    "ch' = ch" "ss' = return_tokens (min (length c) n) ss" "r = Ready (Inr (take n c))"
    by (auto simp: poll_read_def is_closed_def bytes.split_to_law Let_def min_def split: if_splits)
  with Some c assms(2-5) show ?thesis
    by (auto simp: chunks_ok_def unread_def)
qed

lemma read_many_conserves:
  "\<lbrakk>read_many B D (st, ch, ss) ns = ((st', ch', ss'), out); \<forall>n \<in> set ns. 0 < n\<rbrakk>
   \<Longrightarrow> out @ unread D st' ch' = unread D st ch"
proof (induction ns arbitrary: st ch ss out)
  case (Cons n ns)
  obtain st1 ch1 ss1 r where p: "poll_read B D st ch ss n = ((st1, ch1, ss1), r)"
    by (metis surj_pair)
  obtain out1 where q: "read_many B D (st1, ch1, ss1) ns = ((st', ch', ss'), out1)"
    and out: "out = poll_data r @ out1"
    using Cons.prems(1) p by (auto simp: Let_def split: prod.splits)
  from poll_read_conserves [OF p] Cons.IH [OF q] Cons.prems(2) out show ?case by simp
qed simp

lemma read_many_complete:
  "\<lbrakk>read_many B D (st, ch, ss) ns = ((st', ch', ss'), out); \<forall>n \<in> set ns. 0 < n;
    \<not> read_closed_flag st; \<not> closed ss; chunks_ok D st ch;
    length (unread D st ch) \<le> length ns\<rbrakk>
   \<Longrightarrow> out = unread D st ch \<and> unread D st' ch' = [] \<and> chunks_ok D st' ch' \<and>
       \<not> read_closed_flag st' \<and> \<not> closed ss' \<and> senders_gone D ch' = senders_gone D ch"
proof (induction ns arbitrary: st ch ss out)
  case (Cons n ns)
  obtain st1 ch1 ss1 r where p: "poll_read B D st ch ss n = ((st1, ch1, ss1), r)"
    by (metis surj_pair)
  obtain out1 where q: "read_many B D (st1, ch1, ss1) ns = ((st', ch', ss'), out1)"
    and out: "out = poll_data r @ out1"
    using Cons.prems(1) p by (auto simp: Let_def split: prod.splits)
  from Cons.prems(2) have n: "0 < n" by simp
  note step = poll_read_open [OF p n Cons.prems(3-5)]
  note cons = poll_read_conserves [OF p n]
  have "length (unread D st1 ch1) \<le> length ns"
    using step cons [symmetric] Cons.prems(6) by (cases "poll_data r") auto
  with Cons.IH [OF q] step Cons.prems(2) cons out show ?case by simp
qed simp

lemma poll_read_tokens:
  assumes "poll_read B D st ch ss n = ((st', ch', ss'), r)"
  shows "tokens ss' = tokens ss + word_of_nat (length (poll_data r))"
proof (cases "read_closed_flag st")
  case True
  with assms show ?thesis by (auto simp: poll_read_def)
next
  case False
  have recv: "tokens ss' = tokens ss + word_of_nat (length (poll_data r))"
    if "poll_read_recv B D st ch ss n = ((st', ch', ss'), r)"
    by (cases rule: poll_read_recv_cases [OF False, of ch n ss]) (use that in auto)
  with assms False show ?thesis
    by (auto simp: poll_read_def bytes.split_to_law Let_def split: if_splits option.splits)
qed

text \<open>
  A poll without room in the buffer, while a partly read chunk is held and another waits in the
  channel: the held chunk is overwritten.
\<close>

lemma poll_read_zero_drops:
  assumes "\<not> read_closed_flag st" "\<not> closed ss"
    and "current_chunk st = Some c" "contents D ch = d # ds"
    and "poll_read B D st ch ss 0 = ((st', ch', ss'), r)"
  shows "r = Ready (Inr []) \<and> ss' = ss \<and> unread D st' ch' = d @ concat ds"
proof -
  have "poll_read_recv B D st ch ss 0 = ((st', ch', ss'), r)"
    using assms by (simp add: poll_read_def is_closed_def)
  with assms(4) show ?thesis
    by (cases rule: poll_read_recv_cases [OF assms(1), of ch 0 ss]) (auto simp: unread_def)
qed

end

section \<open>What writing does\<close>

text \<open>
  A caller that writes a whole buffer: it polls until nothing is left, an error or a write of
  zero bytes is reported, or the channel is full. The result is the channel, the part not yet
  written, and the last poll's result.
\<close>

function write_all ::
    "('fc, frame) flume_api \<Rightarrow> config \<Rightarrow> stream \<Rightarrow> 'fc \<Rightarrow> session_state \<Rightarrow> bytes
     \<Rightarrow> ('fc \<times> bytes) \<times> (io_error + nat) poll" where
  "write_all F cfg st fc ss buf =
     (case poll_write F cfg st fc ss buf of
        (fc', Ready (Inr n)) \<Rightarrow>
          (if 0 < n \<and> n \<le> length buf then write_all F cfg st fc' ss (drop n buf)
           else ((fc', buf), Ready (Inr n)))
      | (fc', r) \<Rightarrow> ((fc', buf), r))"
  by pat_completeness auto
termination
  by (relation "measure (\<lambda>(F, cfg, st, fc, ss, buf). length buf)") auto

declare write_all.simps [simp del]

text \<open>The pieces a buffer is cut into.\<close>

function pieces :: "nat \<Rightarrow> 'a list \<Rightarrow> 'a list list" where
  "pieces k xs = (if xs = [] \<or> k = 0 then [] else take k xs # pieces k (drop k xs))"
  by pat_completeness auto
termination
  by (relation "measure (\<lambda>(k, xs). length xs)") auto

declare pieces.simps [simp del]

lemma pieces_Nil [simp]: "pieces k [] = []"
  by (simp add: pieces.simps)

lemma concat_pieces: "0 < k \<Longrightarrow> concat (pieces k xs) = xs"
proof (induction k xs rule: pieces.induct)
  case (1 k xs)
  then show ?case by (cases "xs = []") (simp_all add: pieces.simps [of k xs])
qed

lemma pieces_bounds: "p \<in> set (pieces k xs) \<Longrightarrow> p \<noteq> [] \<and> length p \<le> k"
proof (induction k xs rule: pieces.induct)
  case (1 k xs)
  then show ?case by (subst (asm) (2) pieces.simps) (auto split: if_splits)
qed

text \<open>Room for \<open>n\<close> more messages.\<close>

definition room_for :: "('c, 'a) flume_api \<Rightarrow> 'c \<Rightarrow> nat \<Rightarrow> bool" where
  "room_for F c n =
     (case capacity F c of None \<Rightarrow> True | Some k \<Rightarrow> length (contents F c) + n \<le> k)"

lemma room_for_Suc: "room_for F c (Suc n) \<Longrightarrow> has_room F c"
  by (auto simp: room_for_def has_room_def split: option.splits)

context stream_env
begin

lemma poll_write_sent:
  assumes "\<not> closed ss" "\<not> write_closed_flag st" "buf \<noteq> []"
    and "\<not> receivers_gone F fc" "has_room F fc"
  obtains fc' where
    "poll_write F cfg st fc ss buf =
       (fc', Ready (Inr (min (length buf) (max_frame_size cfg - HEADER_SIZE))))"
    "contents F fc' =
       contents F fc @ [new_psh 1 (stream_id st) (take (max_frame_size cfg - HEADER_SIZE) buf)]"
    "capacity F fc' = capacity F fc" "\<not> receivers_gone F fc'"
proof -
  let ?f = "new_psh 1 (stream_id st) (take (max_frame_size cfg - HEADER_SIZE) buf)"
  obtain fc' r where t: "try_send F fc ?f = (fc', r)" by fastforce
  with frames.send_room [of fc ?f] assms(4,5) have "r = Sent"
    "contents F fc' = contents F fc @ [?f]" "capacity F fc' = capacity F fc" "\<not> receivers_gone F fc'"
    by simp_all
  with t assms(1-3) that show ?thesis by (simp add: poll_write_def is_closed_def)
qed

lemma write_all_room:
  "\<lbrakk>\<not> closed ss; \<not> write_closed_flag st; \<not> receivers_gone F fc; HEADER_SIZE < max_frame_size cfg;
    room_for F fc (length (pieces (max_frame_size cfg - HEADER_SIZE) buf))\<rbrakk>
   \<Longrightarrow> \<exists>fc'. write_all F cfg st fc ss buf = ((fc', []), Ready (Inr 0)) \<and>
         contents F fc' = contents F fc @
           map (new_psh 1 (stream_id st)) (pieces (max_frame_size cfg - HEADER_SIZE) buf) \<and>
         \<not> receivers_gone F fc' \<and> capacity F fc' = capacity F fc"
proof (induction "length buf" arbitrary: fc buf rule: less_induct)
  case less
  let ?k = "max_frame_size cfg - HEADER_SIZE"
  show ?case
  proof (cases "buf = []")
    case True
    with less.prems show ?thesis
      by (simp add: write_all.simps [of F] poll_write_def is_closed_def)
  next
    case False
    have k: "0 < ?k" using less.prems(4) by simp
    with False have ps: "pieces ?k buf = take ?k buf # pieces ?k (drop ?k buf)"
      by (simp add: pieces.simps [of ?k buf])
    from less.prems(5) ps have room: "has_room F fc" by (simp add: room_for_Suc)
    from poll_write_sent [OF less.prems(1,2) False less.prems(3) room, of cfg]
    obtain fc1 where w: "poll_write F cfg st fc ss buf = (fc1, Ready (Inr (min (length buf) ?k)))"
      and c: "contents F fc1 = contents F fc @ [new_psh 1 (stream_id st) (take ?k buf)]"
        "capacity F fc1 = capacity F fc" "\<not> receivers_gone F fc1"
      by blast
    have "room_for F fc1 (length (pieces ?k (drop ?k buf)))"
      using less.prems(5) ps c by (auto simp: room_for_def split: option.splits)
    moreover have "length (drop ?k buf) < length buf"
      by (subst length_drop, rule diff_less) (use k False in auto)
    ultimately obtain fc2 where
      "write_all F cfg st fc1 ss (drop ?k buf) = ((fc2, []), Ready (Inr 0))"
      "contents F fc2 = contents F fc1 @ map (new_psh 1 (stream_id st)) (pieces ?k (drop ?k buf))"
      "\<not> receivers_gone F fc2" "capacity F fc2 = capacity F fc1"
      using less.hyps [OF _ less.prems(1,2) c(3) less.prems(4)] by blast
    with w c k False ps show ?thesis
      by (simp add: write_all.simps [of F cfg st fc])
  qed
qed

text \<open>Writing a buffer and shutting down: the frames that go into the frame channel.\<close>

lemma write_then_shutdown:
  assumes "\<not> closed ss" "\<not> write_closed_flag st" "\<not> receivers_gone F fc"
    and "HEADER_SIZE < max_frame_size cfg"
    and "room_for F fc (Suc (length (pieces (max_frame_size cfg - HEADER_SIZE) buf)))"
  shows "\<exists>fc1 fc2. write_all F cfg st fc ss buf = ((fc1, []), Ready (Inr 0)) \<and>
           poll_shutdown F st fc1 = ((st\<lparr>write_closed_flag := True\<rparr>, fc2), Ready (Inr ())) \<and>
           contents F fc2 = contents F fc @
             map (new_psh 1 (stream_id st)) (pieces (max_frame_size cfg - HEADER_SIZE) buf) @
             [new_fin 1 (stream_id st)]"
proof -
  let ?ps = "pieces (max_frame_size cfg - HEADER_SIZE) buf"
  have "room_for F fc (length ?ps)"
    using assms(5) by (auto simp: room_for_def split: option.splits)
  from write_all_room [OF assms(1-4) this] obtain fc1 where
    w: "write_all F cfg st fc ss buf = ((fc1, []), Ready (Inr 0))"
      "contents F fc1 = contents F fc @ map (new_psh 1 (stream_id st)) ?ps"
      "\<not> receivers_gone F fc1" "capacity F fc1 = capacity F fc"
    by blast
  have room: "has_room F fc1"
    using assms(5) w(2,4) by (auto simp: room_for_def has_room_def split: option.splits)
  obtain fc2 r where t: "try_send F fc1 (new_fin 1 (stream_id st)) = (fc2, r)" by fastforce
  with frames.send_room(1,2) [OF w(3) room, of "new_fin 1 (stream_id st)"] have "r = Sent"
    "contents F fc2 = contents F fc1 @ [new_fin 1 (stream_id st)]" by simp_all
  with t w assms(2) show ?thesis by (simp add: poll_shutdown_def)
qed

end

text \<open>
  Frames that a stream writes can be encoded: the version is 1, the piece fits the frame size, and
  (up to a frame size of 65543) its length fits the header.
\<close>

lemma encodable_psh:
  assumes "sid \<noteq> 0" "HEADER_SIZE < max_frame_size cfg" "max_frame_size cfg \<le> 65543"
    and "p \<in> set (pieces (max_frame_size cfg - HEADER_SIZE) buf)"
  shows "encodable cfg (new_psh 1 sid p)"
proof -
  have "HEADER_SIZE + length p \<le> max_frame_size cfg"
    using pieces_bounds [OF assms(4)] assms(2) by linarith
  with assms(1,3) show ?thesis
    by (simp add: encodable_def frame_valid_def frame_new_defs wire_payload_def HEADER_SIZE_def)
qed

section \<open>The frames of a stream\<close>

text \<open>
  A stream's life as its owner drives it: any sequence of writes, shutdowns and closes, ended by
  dropping it. A \<open>close\<close> call that is pending is either polled again or cancelled, which is what any
  other operation after it means; the flag of the state records a pending one. Between two
  operations the rest of the session may change the frame channel and the session state, so each
  operation comes with the ones it finds.
\<close>

datatype stream_op = Op_write bytes | Op_shutdown | Op_close | Op_close_again | Op_drop

fun apply_op ::
    "('fc, frame) flume_api \<Rightarrow> config \<Rightarrow> stream \<times> bool \<Rightarrow> stream_op \<times> 'fc \<times> session_state
     \<Rightarrow> (stream \<times> bool) \<times> 'fc" where
  "apply_op F cfg (st, closing) (Op_write buf, fc, ss) =
     ((st, False), fst (poll_write F cfg st fc ss buf))"
| "apply_op F cfg (st, closing) (Op_shutdown, fc, ss) =
     (let ((st', fc'), r) = poll_shutdown F st fc in ((st', False), fc'))"
| "apply_op F cfg (st, closing) (Op_close, fc, ss) =
     (let ((st', fc'), r) = stream_close F st fc in ((st', r = Pending), fc'))"
| "apply_op F cfg (st, closing) (Op_close_again, fc, ss) =
     (if closing
      then (let (fc', r) = stream_close_resume F st fc in ((st, r = Pending), fc'))
      else ((st, False), fc))"
| "apply_op F cfg (st, closing) (Op_drop, fc, ss) =
     (let (st', fc') = drop_body F st fc in ((st', False), fc'))"

definition emitted :: "('fc, frame) flume_api \<Rightarrow> 'fc \<Rightarrow> 'fc \<Rightarrow> frame list" where
  "emitted F fc fc' = drop (length (contents F fc)) (contents F fc')"

fun run_stream ::
    "('fc, frame) flume_api \<Rightarrow> config \<Rightarrow> stream \<times> bool
     \<Rightarrow> (stream_op \<times> 'fc \<times> session_state) list \<Rightarrow> (stream \<times> bool) \<times> frame list" where
  "run_stream F cfg s [] = (s, [])"
| "run_stream F cfg s ((op, fc, ss) # ops) =
     (let (s', fc') = apply_op F cfg s (op, fc, ss);
          (s'', fs) = (if op = Op_drop then (s', []) else run_stream F cfg s' ops)
      in (s'', emitted F fc fc' @ fs))"

text \<open>
  What a stream may still send: nothing once the FIN is out; at most the FIN once it is closing;
  any number of PSH frames and then at most one FIN before.
\<close>

fun psh_then_fin :: "u32 \<Rightarrow> frame list \<Rightarrow> bool" where
  "psh_then_fin sid [] = True"
| "psh_then_fin sid (f # fs) \<longleftrightarrow>
     f = new_psh 1 sid (frame_data f) \<and> psh_then_fin sid fs \<or> f = new_fin 1 sid \<and> fs = []"

fun may_send :: "stream \<times> bool \<Rightarrow> frame list \<Rightarrow> bool" where
  "may_send (st, closing) fs \<longleftrightarrow>
     (if \<not> write_closed_flag st then psh_then_fin (stream_id st) fs
      else fs = [] \<or> closing \<and> fs = [new_fin 1 (stream_id st)])"

lemma psh_then_fin_split:
  "psh_then_fin sid fs \<Longrightarrow>
   \<exists>ps. fs = map (new_psh 1 sid) ps \<or> fs = map (new_psh 1 sid) ps @ [new_fin 1 sid]"
proof (induction fs)
  case (Cons f fs)
  show ?case
  proof (cases "f = new_fin 1 sid \<and> fs = []")
    case True
    then show ?thesis by (intro exI [of _ "[]"]) simp
  next
    case False
    with Cons obtain ps where "f = new_psh 1 sid (frame_data f)"
      "fs = map (new_psh 1 sid) ps \<or> fs = map (new_psh 1 sid) ps @ [new_fin 1 sid]"
      by auto
    then show ?thesis by (intro exI [of _ "frame_data f # ps"]) auto
  qed
qed simp

lemma may_send_Nil: "may_send s []"
  by (cases s) simp

lemma frame_data_new_psh [simp]: "frame_data (new_psh v sid d) = d"
  by (simp add: frame_new_defs)

context stream_env
begin

lemma emitted_send:
  assumes "capacity F fc \<noteq> Some 0" "try_send F fc x = (fc', r)"
  shows "emitted F fc fc' = (if r = Sent then [x] else [])"
  by (cases rule: frames.send_cases [OF assms(1), of x]) (use assms(2) in \<open>auto simp: emitted_def\<close>)

lemma emitted_same [simp]: "emitted F fc fc = []"
  by (simp add: emitted_def)

text \<open>
  One operation: what it sends, together with what may still be sent after it. A pending close has
  set the flag.
\<close>

lemma apply_op_pending:
  assumes "apply_op F cfg (st, closing) (op, fc, ss) = ((st', closing'), fc')"
    and "closing \<longrightarrow> write_closed_flag st"
  shows "closing' \<longrightarrow> write_closed_flag st'" "stream_id st' = stream_id st"
    "read_closed_flag st' = read_closed_flag st"
  using assms
  by (cases op; auto simp: poll_shutdown_def stream_close_def drop_body_def Let_def
      split: if_splits prod.splits send_result.splits)+

lemma apply_op_fin:
  assumes "capacity F fc \<noteq> Some 0" and "closing \<longrightarrow> write_closed_flag st"
    and "apply_op F cfg (st, closing) (op, fc, ss) = (s', fc')" "may_send s' fs"
    and "op \<in> {Op_shutdown, Op_close, Op_close_again, Op_drop}"
  shows "may_send (st, closing) (emitted F fc fc' @ fs)"
  by (cases rule: frames.send_cases [OF assms(1), of "new_fin 1 (stream_id st)"]; cases op)
    (use assms in \<open>auto simp: poll_shutdown_def stream_close_def stream_close_resume_def
      send_async_def drop_body_def emitted_def Let_def split: if_splits\<close>)

lemma apply_op_may_send:
  assumes step: "apply_op F cfg (st, closing) (op, fc, ss) = (s', fc')"
    and cap: "capacity F fc \<noteq> Some 0" and wf: "closing \<longrightarrow> write_closed_flag st"
    and rest: "may_send s' fs"
  shows "may_send (st, closing) (emitted F fc fc' @ fs)"
proof (cases op)
  case (Op_write buf)
  show ?thesis
  proof (cases "closed ss \<or> write_closed_flag st \<or> buf = []")
    case True
    then have "fst (poll_write F cfg st fc ss buf) = fc"
      by (auto simp: poll_write_def is_closed_def)
    with Op_write step rest show ?thesis by (auto split: if_splits)
  next
    case False
    let ?f = "new_psh 1 (stream_id st) (take (min (length buf) (max_frame_size cfg - HEADER_SIZE)) buf)"
    show ?thesis
      by (cases rule: frames.send_cases [OF cap, of ?f])
        (use False Op_write step rest in
          \<open>auto simp: poll_write_def is_closed_def emitted_def Let_def\<close>)
  qed
qed (use apply_op_fin [OF cap wf step rest] in simp_all)

lemma run_stream_may_send:
  "\<lbrakk>run_stream F cfg (st, closing) ops = (s', fs); closing \<longrightarrow> write_closed_flag st;
    \<forall>(op, fc, ss) \<in> set ops. capacity F fc \<noteq> Some 0\<rbrakk>
   \<Longrightarrow> may_send (st, closing) fs \<and> read_closed_flag (fst s') = read_closed_flag st"
proof (induction ops arbitrary: st closing fs)
  case (Cons x ops)
  obtain op fc ss where x: "x = (op, fc, ss)" by (cases x)
  obtain st1 c1 fc1 where step: "apply_op F cfg (st, closing) (op, fc, ss) = ((st1, c1), fc1)"
    by (metis surj_pair)
  note inv = apply_op_pending [OF step Cons.prems(2)]
  have cap: "capacity F fc \<noteq> Some 0" using Cons.prems(3) x by auto
  show ?case
  proof (cases "op = Op_drop")
    case True
    with Cons.prems(1) x step have "fs = emitted F fc fc1 @ []" "s' = (st1, c1)"
      by (auto simp: Let_def)
    then show ?thesis
      using apply_op_may_send [OF step cap Cons.prems(2), of "[]"] inv(3) by (auto simp del: may_send.simps simp: may_send_Nil)
  next
    case False
    with Cons.prems(1) x step obtain gs where
      run: "run_stream F cfg (st1, c1) ops = (s', gs)" and fs: "fs = emitted F fc fc1 @ gs"
      by (auto simp: Let_def split: prod.splits)
    from Cons.IH [OF run inv(1)] Cons.prems(3)
    have "may_send (st1, c1) gs" "read_closed_flag (fst s') = read_closed_flag st1" by auto
    with apply_op_may_send [OF step cap Cons.prems(2)] inv(3) fs show ?thesis by metis
  qed
qed (auto)

end

section \<open>The environment of a stream on the instances\<close>

interpretation ls: stream_env list_bytes list_chan list_chan
  by unfold_locales

text \<open>A channel with given contents, for concrete runs.\<close>

definition chan_with :: "nat option \<Rightarrow> 'a list \<Rightarrow> bool \<Rightarrow> 'a lchan" where
  "chan_with cap xs ended =
     \<lparr>lc_queue = xs, lc_capacity = cap, lc_senders_gone = ended, lc_receivers_gone = False\<rparr>"

lemmas stream_run_simps =
  list_chan_simps chan_with_def stream_new_def session_state_new_def unread_def chunks_ok_def
  frame_new_defs config_default_def HEADER_SIZE_def room_for_def

section \<open>Properties\<close>

text \<open>
  Reading conserves bytes: whatever the state of the stream, a poll of a buffer with room in it hands
  out a prefix of the unread bytes and leaves exactly the rest; no byte is lost, duplicated,
  reordered or invented, also when the poll fails or is pending.
\<close>

lemma read_conserves_bytes:
  assumes "stream_env B F D"
    and "poll_read B D st ch ss n = ((st', ch', ss'), r)" "0 < n"
  shows "poll_data r @ unread D st' ch' = unread D st ch"
  by (rule stream_env.poll_read_conserves [OF assms])

lemma read_conserves_bytes_witness:
  "unread list_chan ((stream_new 3 0)\<lparr>current_chunk := Some [2]\<rparr>) (chan_with None [[3]] False) = [2, 3]"
  using read_conserves_bytes [OF ls.stream_env_axioms,
      of "stream_new 3 0" "chan_with None [[1, 2], [3]] False" "session_state_new 9" 1
        "(stream_new 3 0)\<lparr>current_chunk := Some [2]\<rparr>" "chan_with None [[3]] False"
        "return_tokens 1 (session_state_new 9)" "Ready (Inr [1])"]
  by (simp add: poll_read_def poll_read_recv_def list_bytes_def is_closed_def stream_run_simps)

text \<open>
  What the result of a read means, on an open session and a channel of non-empty chunks: data exactly
  when unread bytes exist, end of stream (zero bytes) exactly when nothing is left and the sender is
  gone, pending exactly when nothing is left and the sender is alive. What is handed out is not
  empty and fits the buffer.
\<close>

lemma read_result_meaning:
  assumes "stream_env B F D"
    and "poll_read B D st ch ss n = ((st', ch', ss'), r)" "0 < n"
    and "\<not> is_read_closed st" "\<not> is_closed ss" "chunks_ok D st ch"
  shows "chunks_ok D st' ch' \<and>
         (if unread D st ch \<noteq> []
          then r = Ready (Inr (poll_data r)) \<and> poll_data r \<noteq> [] \<and> length (poll_data r) \<le> n
          else r = (if senders_gone D ch then Ready (Inr []) else Pending))"
  using stream_env.poll_read_open [OF assms(1-3)] assms(4-6)
  unfolding is_read_closed_def is_closed_def by (auto split: if_splits)

lemma read_result_meaning_witness:
  "chunks_ok list_chan (stream_new 3 0) (chan_with None [] True)"
  using read_result_meaning [OF ls.stream_env_axioms,
      of "stream_new 3 0" "chan_with None [] True" "session_state_new 9" 4
        "stream_new 3 0" "chan_with None [] True" "session_state_new 9" "Ready (Inr [])"]
  by (simp add: poll_read_def poll_read_recv_def list_bytes_def is_read_closed_def is_closed_def
      stream_run_simps)

text \<open>
  Reading is complete: a caller that keeps reading, with buffers of any positive sizes, has received
  every byte sent, in order, after at most as many reads as there are bytes, whatever the chunks they
  came in.
\<close>

lemma read_many_receives_all:
  assumes "stream_env B F D"
    and "read_many B D (st, ch, ss) ns = ((st', ch', ss'), out)" "\<forall>n \<in> set ns. 0 < n"
    and "\<not> is_read_closed st" "\<not> is_closed ss" "chunks_ok D st ch"
    and "length (unread D st ch) \<le> length ns"
  shows "out = unread D st ch \<and> unread D st' ch' = [] \<and> senders_gone D ch' = senders_gone D ch"
  using stream_env.read_many_complete [OF assms(1-3)] assms(4-7)
  by (simp add: is_read_closed_def is_closed_def)

lemma read_many_receives_all_witness:
  "snd (read_many list_bytes list_chan
     (stream_new 3 0, chan_with None [[1, 2], [3]] False, session_state_new 9) [1, 5, 5]) = [1, 2, 3]"
proof -
  obtain st' ch' ss' out where run: "read_many list_bytes list_chan
     (stream_new 3 0, chan_with None [[1, 2], [3]] False, session_state_new 9) [1, 5, 5]
     = ((st', ch', ss'), out)" by (metis surj_pair)
  from read_many_receives_all [OF ls.stream_env_axioms run] have "out = [1, 2, 3]"
    by (simp add: is_read_closed_def is_closed_def stream_run_simps)
  then show ?thesis unfolding run by simp
qed

text \<open>
  C39. A read into a buffer without room loses data: when the session is open, part of a chunk is held and
  another chunk waits in the channel, the read reports zero bytes, takes the waiting chunk and overwrites
  the held one with it. The held bytes are gone, their tokens are not returned, and a caller that goes on
  reading gets only what follows them.
\<close>

lemma read_zero_loses_held_chunk:
  assumes "stream_env B F D" "\<not> is_read_closed st" "\<not> is_closed ss"
    and "current_chunk st = Some c" "contents D ch = d # ds"
    and "poll_read B D st ch ss 0 = ((st', ch', ss'), r)"
  shows "r = Ready (Inr []) \<and> ss' = ss \<and> unread D st ch = c @ d @ concat ds \<and>
         unread D st' ch' = d @ concat ds \<and>
         (\<forall>ns s'' out. (\<forall>n \<in> set ns. 0 < n) \<longrightarrow> read_many B D (st', ch', ss') ns = (s'', out)
            \<longrightarrow> (\<exists>rest. out @ rest = d @ concat ds))"
proof -
  note lost = stream_env.poll_read_zero_drops [OF assms(1) _ _ assms(4-6)]
  have "\<exists>rest. out @ rest = d @ concat ds"
    if "\<forall>n \<in> set ns. 0 < n" "read_many B D (st', ch', ss') ns = (s'', out)" for ns s'' out
  proof -
    obtain st2 ch2 ss2 where "s'' = (st2, ch2, ss2)" by (cases s'')
    with stream_env.read_many_conserves [OF assms(1), of st' ch' ss' ns st2 ch2 ss2 out] that lost assms(2,3)
    show ?thesis by (auto simp: is_read_closed_def is_closed_def)
  qed
  with lost assms(2-5) show ?thesis by (simp add: is_read_closed_def is_closed_def unread_def)
qed

text \<open>Two chunks of two bytes: one byte is read, an empty read follows, and the second byte is lost.\<close>

lemma read_zero_loses_held_chunk_witness:
  "\<exists>st ch ss st' ch' ss' s''.
     read_many list_bytes list_chan (stream_new 3 0, chan_with None [[1, 2], [3, 4]] False, session_state_new 9) [1] =
       ((st, ch, ss), [1]) \<and>
     unread list_chan st ch = [2, 3, 4] \<and>
     poll_read list_bytes list_chan st ch ss 0 = ((st', ch', ss'), Ready (Inr [])) \<and>
     unread list_chan st' ch' = [3, 4] \<and> read_many list_bytes list_chan (st', ch', ss') [8, 8] = (s'', [3, 4])"
proof -
  let ?st = "(stream_new 3 0)\<lparr>current_chunk := Some [2]\<rparr>" and ?ch = "chan_with None [[3, 4]] False"
    and ?ss = "return_tokens 1 (session_state_new 9)"
  let ?st' = "(stream_new 3 0)\<lparr>current_chunk := Some [3, 4]\<rparr>" and ?ch' = "chan_with None [] False"
  have first: "read_many list_bytes list_chan (stream_new 3 0, chan_with None [[1, 2], [3, 4]] False, session_state_new 9) [1] =
      ((?st, ?ch, ?ss), [1])"
    and zero: "poll_read list_bytes list_chan ?st ?ch ?ss 0 = ((?st', ?ch', ?ss), Ready (Inr []))"
    and rest: "\<exists>s''. read_many list_bytes list_chan (?st', ?ch', ?ss) [8, 8] = (s'', [3, 4])"
    and open_st: "\<not> is_read_closed ?st" "\<not> is_closed ?ss" "current_chunk ?st = Some [2]"
      "contents list_chan ?ch = [[3, 4]]"
    by (simp_all add: poll_read_def poll_read_recv_def list_bytes_def is_read_closed_def is_closed_def
        return_tokens_def stream_run_simps)
  from read_zero_loses_held_chunk [OF ls.stream_env_axioms open_st zero] first zero rest show ?thesis
    by fastforce
qed

text \<open>
  C30. Writing a whole buffer into a channel with room for it: the buffer is cut into pieces of the maximal
  payload size, each piece becomes one data frame of this stream, in order, the pieces together are the
  buffer, none is empty, and, for frame sizes up to what the length field can carry, the codec
  encodes every one of them.
\<close>

lemma write_all_fragments:
  assumes "stream_env B F D" "\<not> is_closed ss" "\<not> is_write_closed st" "\<not> receivers_gone F fc"
    and "HEADER_SIZE < max_frame_size cfg"
    and "room_for F fc (length (pieces (max_frame_size cfg - HEADER_SIZE) buf))"
  shows "\<exists>fc' ps. write_all F cfg st fc ss buf = ((fc', []), Ready (Inr 0)) \<and>
           contents F fc' = contents F fc @ map (new_psh 1 (stream_id st)) ps \<and>
           concat ps = buf \<and> [] \<notin> set ps \<and>
           (stream_id st \<noteq> 0 \<and> max_frame_size cfg \<le> 65543 \<longrightarrow>
              (\<forall>p \<in> set ps. encodable cfg (new_psh 1 (stream_id st) p)))"
proof -
  let ?k = "max_frame_size cfg - HEADER_SIZE"
  from stream_env.write_all_room [OF assms(1) _ _ assms(4-6)] assms(2,3)
  obtain fc' where "write_all F cfg st fc ss buf = ((fc', []), Ready (Inr 0))"
    "contents F fc' = contents F fc @ map (new_psh 1 (stream_id st)) (pieces ?k buf)"
    by (auto simp: is_closed_def is_write_closed_def)
  moreover have "concat (pieces ?k buf) = buf" using assms(5) by (simp add: concat_pieces)
  moreover have "[] \<notin> set (pieces ?k buf)" using pieces_bounds by blast
  moreover have "\<forall>p \<in> set (pieces ?k buf). encodable cfg (new_psh 1 (stream_id st) p)"
    if "stream_id st \<noteq> 0" "max_frame_size cfg \<le> 65543"
    using encodable_psh [OF that(1) assms(5) that(2)] by blast
  ultimately show ?thesis by blast
qed

lemma write_all_fragments_witness:
  "\<exists>fc' ps. write_all list_chan (config_default\<lparr>max_frame_size := 10\<rparr>) (stream_new 3 0)
       (chan_with (Some 4) [] False) (session_state_new 9) [1, 2, 3] = ((fc', []), Ready (Inr 0)) \<and>
     lc_queue fc' = map (new_psh 1 3) ps \<and> concat ps = [1, 2, 3] \<and> [] \<notin> set ps"
proof -
  have "pieces 2 [1, 2, 3 :: byte] = [[1, 2], [3]]"
    by (simp add: pieces.simps numeral_eq_Suc)
  then show ?thesis
    using write_all_fragments [OF ls.stream_env_axioms,
        of "session_state_new 9" "stream_new 3 0" "chan_with (Some 4) [] False"
          "config_default\<lparr>max_frame_size := 10\<rparr>" "[1, 2, 3]"]
    by (auto simp: is_closed_def is_write_closed_def stream_run_simps)
qed

text \<open>
  With a frame size no larger than the header, which the configuration allows, a write of any buffer
  reports zero bytes written and still sends a frame, an empty one.
\<close>

lemma write_with_tiny_frames:
  assumes "stream_env B F D" "\<not> is_closed ss" "\<not> is_write_closed st" "buf \<noteq> []"
    and "\<not> receivers_gone F fc" "has_room F fc" "max_frame_size cfg \<le> HEADER_SIZE"
  shows "\<exists>fc'. poll_write F cfg st fc ss buf = (fc', Ready (Inr 0)) \<and>
           contents F fc' = contents F fc @ [new_psh 1 (stream_id st) []]"
proof -
  from stream_env.poll_write_sent [OF assms(1), of ss st buf fc cfg] assms(2-6)
  obtain fc' where "poll_write F cfg st fc ss buf =
       (fc', Ready (Inr (min (length buf) (max_frame_size cfg - HEADER_SIZE))))"
    "contents F fc' =
       contents F fc @ [new_psh 1 (stream_id st) (take (max_frame_size cfg - HEADER_SIZE) buf)]"
    by (auto simp: is_closed_def is_write_closed_def)
  with assms(7) show ?thesis by auto
qed

lemma write_with_tiny_frames_witness:
  "config_valid (config_default\<lparr>max_frame_size := 8\<rparr>) \<and>
   (\<exists>fc'. poll_write list_chan (config_default\<lparr>max_frame_size := 8\<rparr>) (stream_new 3 0)
       (chan_with (Some 4) [] False) (session_state_new 9) [1, 2, 3] = (fc', Ready (Inr 0)) \<and>
     lc_queue fc' = [new_psh 1 3 []])"
  using write_with_tiny_frames [OF ls.stream_env_axioms,
      of "session_state_new 9" "stream_new 3 0" "[1, 2, 3]" "chan_with (Some 4) [] False"
        "config_default\<lparr>max_frame_size := 8\<rparr>"]
  by (auto simp: is_closed_def is_write_closed_def config_valid_def duration_from_secs_def
      stream_run_simps)

text \<open>
  The frames of a stream: whatever its owner does, writes, shutdowns, closes that are polled again or
  cancelled, and a drop at the end, in any order and with the rest of the session changing the frame
  channel in between, the stream sends data frames and then at most one FIN, and nothing after it.
\<close>

lemma stream_sends_data_then_one_fin:
  assumes "stream_env B F D"
    and "run_stream F cfg (stream_new sid rx, False) ops = (s', fs)"
    and "\<forall>(op, fc, ss) \<in> set ops. capacity F fc \<noteq> Some 0"
  shows "\<exists>ps. fs = map (new_psh 1 sid) ps \<or> fs = map (new_psh 1 sid) ps @ [new_fin 1 sid]"
proof -
  have "may_send (stream_new sid rx, False) fs"
    using stream_env.run_stream_may_send [OF assms(1,2) _ assms(3)] by blast
  then have "psh_then_fin sid fs" by (simp add: stream_new_def)
  then show ?thesis by (rule psh_then_fin_split)
qed

lemma stream_sends_data_then_one_fin_witness:
  "\<exists>ps. [new_psh 1 3 [7], new_fin 1 3] = map (new_psh 1 3) ps \<or>
        [new_psh 1 3 [7], new_fin 1 3] = map (new_psh 1 3) ps @ [new_fin 1 3]"
  using stream_sends_data_then_one_fin [OF ls.stream_env_axioms, of config_default 3 0
      "[(Op_write [7], chan_with (Some 4) [] False, session_state_new 9),
        (Op_shutdown, chan_with (Some 4) [] False, session_state_new 9),
        (Op_drop, chan_with (Some 4) [] False, session_state_new 9)]"
      "((stream_new 3 0)\<lparr>write_closed_flag := True\<rparr>, False)" "[new_psh 1 3 [7], new_fin 1 3]"]
  by (simp add: poll_write_def poll_shutdown_def drop_body_def emitted_def is_closed_def
      stream_run_simps)

end
