(* ===== verification/Sessions.thy ===== *)
theory Sessions
  imports Streams
begin

text \<open>
  \<open>src/src/session.rs\<close>: the shared state of a session, the operations of its handle and the handlers of
  incoming frames. The tasks that call the handlers are in the theory of tasks.

  The data channels live in a store, addressed by position: a stream holds the address of its
  receiving end and the session's table the address of the sending end, which is how the two share a
  channel. A channel is appended to the store when the code makes one and is never reused. The frame
  channel's receiver belongs to the send task; the accept channel's two ends are both fields of
  \<open>SessionInner\<close>. Dropping a value that owns a handle is written out where the code does it,
  explicitly or at the end of a scope.

  Each function is the code from one suspension point to the next. A poll of an awaited send that
  finds its channel full leaves the handler suspended there, which its outcome says.
\<close>

record stream_state =
  data_tx :: nat
  state_read_closed :: bool

definition stream_state_new :: "nat \<Rightarrow> stream_state" where
  "stream_state_new tx = \<lparr>data_tx = tx, state_read_closed = False\<rparr>"

record ('fc, 'dc, 'ac) session_inner =
  streams :: "u32 \<rightharpoonup> stream_state"
  session_config :: config
  accept_ch :: 'ac
  next_id :: u32
  is_client :: bool
  frame_ch :: 'fc
  shared :: session_state
  data_chs :: "'dc list"

definition session_new ::
    "('fc, frame) flume_api \<Rightarrow> ('ac, stream) flume_api \<Rightarrow> config \<Rightarrow> bool
     \<Rightarrow> ('fc, 'dc, 'ac) session_inner" where
  "session_new F A cfg client =
     \<lparr>streams = Map.empty,
      session_config = cfg,
      accept_ch = bounded A 16,
      next_id = (if client then 1 else 2),
      is_client = client,
      frame_ch = bounded F (max_receive_channel_buffer_size cfg),
      shared = session_state_new (max_receive_buffer cfg),
      data_chs = []\<rparr>"

definition session_client ::
    "('fc, frame) flume_api \<Rightarrow> ('ac, stream) flume_api \<Rightarrow> config
     \<Rightarrow> ('fc, 'dc, 'ac) session_inner" where
  "session_client F A cfg = session_new F A cfg True"

definition session_server ::
    "('fc, frame) flume_api \<Rightarrow> ('ac, stream) flume_api \<Rightarrow> config
     \<Rightarrow> ('fc, 'dc, 'ac) session_inner" where
  "session_server F A cfg = session_new F A cfg False"

section \<open>Handles in the store\<close>

definition alloc_channel ::
    "('dc, bytes) flume_api \<Rightarrow> ('fc, 'dc, 'ac) session_inner
     \<Rightarrow> ('fc, 'dc, 'ac) session_inner \<times> nat" where
  "alloc_channel D s = (s\<lparr>data_chs := data_chs s @ [unbounded D]\<rparr>, length (data_chs s))"

definition drop_data_tx ::
    "('dc, bytes) flume_api \<Rightarrow> stream_state \<Rightarrow> ('fc, 'dc, 'ac) session_inner
     \<Rightarrow> ('fc, 'dc, 'ac) session_inner" where
  "drop_data_tx D sst s =
     s\<lparr>data_chs := (data_chs s)[data_tx sst := drop_sender D (data_chs s ! data_tx sst)]\<rparr>"

text \<open>
  \<open>DashMap::insert\<close> returns the value it replaced and \<open>remove\<close> the one it removed; the callers drop it.
\<close>

definition insert_stream ::
    "('dc, bytes) flume_api \<Rightarrow> u32 \<Rightarrow> stream_state \<Rightarrow> ('fc, 'dc, 'ac) session_inner
     \<Rightarrow> ('fc, 'dc, 'ac) session_inner" where
  "insert_stream D sid sst s =
     (let s' = s\<lparr>streams := (streams s)(sid \<mapsto> sst)\<rparr> in
      case streams s sid of None \<Rightarrow> s' | Some old \<Rightarrow> drop_data_tx D old s')"

definition remove_stream ::
    "('dc, bytes) flume_api \<Rightarrow> u32 \<Rightarrow> ('fc, 'dc, 'ac) session_inner
     \<Rightarrow> ('fc, 'dc, 'ac) session_inner" where
  "remove_stream D sid s =
     (let s' = s\<lparr>streams := (streams s)(sid := None)\<rparr> in
      case streams s sid of None \<Rightarrow> s' | Some old \<Rightarrow> drop_data_tx D old s')"

definition drop_stream ::
    "('fc, frame) flume_api \<Rightarrow> ('dc, bytes) flume_api \<Rightarrow> stream \<Rightarrow> ('fc, 'dc, 'ac) session_inner
     \<Rightarrow> ('fc, 'dc, 'ac) session_inner" where
  "drop_stream F D st s =
     (let (fc, ch) = stream_drop F D st (frame_ch s) (data_chs s ! data_rx st)
      in s\<lparr>frame_ch := fc, data_chs := (data_chs s)[data_rx st := ch]\<rparr>)"

section \<open>Stream identifiers\<close>

definition next_stream_id ::
    "('fc, 'dc, 'ac) session_inner \<Rightarrow> ('fc, 'dc, 'ac) session_inner \<times> u32 result" where
  "next_stream_id s =
     (let current = next_id s;
          s = s\<lparr>next_id := current + 2\<rparr>
      in if current > 0xFFFFFFFF - 2 then
           (s, Inl (ProtocolViolation ''Stream ID overflow - session should be restarted''))
         else (s, Inr current))"

definition validate_peer_stream_id ::
    "('fc, 'dc, 'ac) session_inner \<Rightarrow> u32 \<Rightarrow> unit result" where
  "validate_peer_stream_id s sid =
     (if sid = 0 then Inl (InvalidStreamId sid)
      else
        (let expected_parity = (if is_client s then 0 else 1);
             actual_parity = sid mod 2
         in if actual_parity \<noteq> expected_parity then Inl (InvalidStreamId sid) else Inr ()))"

section \<open>Opening, accepting, closing\<close>

text \<open>
  \<open>open_stream\<close> up to its suspension point, and one poll of the send it then awaits. On an error the
  local \<open>stream\<close> is dropped; the table keeps its entry.
\<close>

definition open_stream_prepare ::
    "('dc, bytes) flume_api \<Rightarrow> ('fc, 'dc, 'ac) session_inner
     \<Rightarrow> ('fc, 'dc, 'ac) session_inner \<times> stream result" where
  "open_stream_prepare D s =
     (if is_closed (shared s) then (s, Inl SessionClosed)
      else
        case next_stream_id s of
          (s, Inl e) \<Rightarrow> (s, Inl e)
        | (s, Inr sid) \<Rightarrow>
            (let (s, addr) = alloc_channel D s;
                 st = stream_new sid addr;
                 s = insert_stream D sid (stream_state_new addr) s
             in (s, Inr st)))"

definition open_stream_send ::
    "('fc, frame) flume_api \<Rightarrow> ('dc, bytes) flume_api \<Rightarrow> stream \<Rightarrow> ('fc, 'dc, 'ac) session_inner
     \<Rightarrow> ('fc, 'dc, 'ac) session_inner \<times> stream result poll" where
  "open_stream_send F D st s =
     (case send_async F (frame_ch s)
             (new_syn (config_version (session_config s)) (stream_id st)) of
        (fc, Ready True) \<Rightarrow> (s\<lparr>frame_ch := fc\<rparr>, Ready (Inr st))
      | (fc, Ready False) \<Rightarrow>
          (drop_stream F D st (s\<lparr>frame_ch := fc\<rparr>), Ready (Inl SessionClosed))
      | (fc, Pending) \<Rightarrow> (s\<lparr>frame_ch := fc\<rparr>, Pending))"

definition open_stream ::
    "('fc, frame) flume_api \<Rightarrow> ('dc, bytes) flume_api \<Rightarrow> ('fc, 'dc, 'ac) session_inner
     \<Rightarrow> ('fc, 'dc, 'ac) session_inner \<times> stream result poll" where
  "open_stream F D s =
     (case open_stream_prepare D s of
        (s, Inl e) \<Rightarrow> (s, Ready (Inl e))
      | (s, Inr st) \<Rightarrow> open_stream_send F D st s)"

text \<open>
  \<open>accept_stream\<close>: a poll of its \<open>select!\<close>, and its first poll, which checks the flag before. \<open>woken\<close>
  says whether the close notification has reached this call, and \<open>first_close\<close> which branch \<open>select!\<close>,
  whose choice is random, tries first.
\<close>

definition accept_select ::
    "('ac, stream) flume_api \<Rightarrow> bool \<Rightarrow> bool \<Rightarrow> ('fc, 'dc, 'ac) session_inner
     \<Rightarrow> ('fc, 'dc, 'ac) session_inner \<times> stream result poll" where
  "accept_select A woken first_close s =
     (if woken \<and> first_close then (s, Ready (Inl SessionClosed))
      else
        case try_recv A (accept_ch s) of
          (ac, Received st) \<Rightarrow> (s\<lparr>accept_ch := ac\<rparr>, Ready (Inr st))
        | (ac, RecvDisconnected) \<Rightarrow> (s\<lparr>accept_ch := ac\<rparr>, Ready (Inl SessionClosed))
        | (ac, RecvEmpty) \<Rightarrow>
            (s\<lparr>accept_ch := ac\<rparr>, if woken then Ready (Inl SessionClosed) else Pending))"

definition accept_stream ::
    "('ac, stream) flume_api \<Rightarrow> bool \<Rightarrow> bool \<Rightarrow> ('fc, 'dc, 'ac) session_inner
     \<Rightarrow> ('fc, 'dc, 'ac) session_inner \<times> stream result poll" where
  "accept_stream A woken first_close s =
     (if is_closed (shared s) then (s, Ready (Inl SessionClosed))
      else accept_select A woken first_close s)"

definition session_close ::
    "('fc, 'dc, 'ac) session_inner \<Rightarrow> ('fc, 'dc, 'ac) session_inner \<times> unit result" where
  "session_close s = (s\<lparr>shared := close (shared s)\<rparr>, Inr ())"

definition session_is_closed :: "('fc, 'dc, 'ac) session_inner \<Rightarrow> bool" where
  "session_is_closed s = is_closed (shared s)"

section \<open>Handlers of incoming frames\<close>

text \<open>
  Where a handler stands after a poll: done with a result, or suspended in the send to the accept
  channel, in the wait for tokens, or in the send to a data channel.
\<close>

datatype outcome =
    Done "unit result"
  | Await_accept stream
  | Await_tokens frame
  | Await_data frame

definition syn_send ::
    "('fc, frame) flume_api \<Rightarrow> ('dc, bytes) flume_api \<Rightarrow> ('ac, stream) flume_api \<Rightarrow> stream
     \<Rightarrow> ('fc, 'dc, 'ac) session_inner \<Rightarrow> ('fc, 'dc, 'ac) session_inner \<times> outcome" where
  "syn_send F D A st s =
     (case send_async A (accept_ch s) st of
        (ac, Ready True) \<Rightarrow> (s\<lparr>accept_ch := ac\<rparr>, Done (Inr ()))
      | (ac, Ready False) \<Rightarrow>
          (remove_stream D (stream_id st) (drop_stream F D st (s\<lparr>accept_ch := ac\<rparr>)),
           Done (Inl SessionClosed))
      | (ac, Pending) \<Rightarrow> (s\<lparr>accept_ch := ac\<rparr>, Await_accept st))"

definition handle_syn_frame ::
    "('fc, frame) flume_api \<Rightarrow> ('dc, bytes) flume_api \<Rightarrow> ('ac, stream) flume_api \<Rightarrow> frame
     \<Rightarrow> ('fc, 'dc, 'ac) session_inner \<Rightarrow> ('fc, 'dc, 'ac) session_inner \<times> outcome" where
  "handle_syn_frame F D A f s =
     (let sid = frame_stream_id f in
      case validate_peer_stream_id s sid of
        Inl e \<Rightarrow> (s, Done (Inl e))
      | Inr _ \<Rightarrow>
          (if streams s sid \<noteq> None then (s, Done (Inl (StreamAlreadyExists sid)))
           else
             (let (s, addr) = alloc_channel D s;
                  st = stream_new sid addr;
                  s = insert_stream D sid (stream_state_new addr) s
              in syn_send F D A st s)))"

text \<open>
  FIN: the entry is removed, its flag is set (a cell that nothing else holds, so it goes with the
  entry) and its sender is dropped.
\<close>

definition handle_fin_frame ::
    "('dc, bytes) flume_api \<Rightarrow> frame \<Rightarrow> ('fc, 'dc, 'ac) session_inner
     \<Rightarrow> ('fc, 'dc, 'ac) session_inner \<times> outcome" where
  "handle_fin_frame D f s =
     (let sid = frame_stream_id f in
      case streams s sid of
        Some sst \<Rightarrow>
          (let s = s\<lparr>streams := (streams s)(sid := None)\<rparr>;
               sst = sst\<lparr>state_read_closed := True\<rparr>;
               s = drop_data_tx D sst s
           in (s, Done (Inr ())))
      | None \<Rightarrow> (s, Done (Inr ())))"

text \<open>
  PSH: \<open>psh_deliver\<close> is the part after the loop, \<open>psh_loop\<close> the loop up to its suspension point; a
  wake-up by returned tokens runs \<open>psh_loop\<close> again and a wake-up by closing runs \<open>psh_abandon\<close>.
\<close>

definition psh_deliver ::
    "('dc, bytes) flume_api \<Rightarrow> frame \<Rightarrow> ('fc, 'dc, 'ac) session_inner
     \<Rightarrow> ('fc, 'dc, 'ac) session_inner \<times> outcome" where
  "psh_deliver D f s =
     (let sid = frame_stream_id f; data_len = length (frame_data f) in
      case streams s sid of
        Some sst \<Rightarrow>
          (case send_async D (data_chs s ! data_tx sst) (frame_data f) of
             (ch, Ready True) \<Rightarrow>
               (s\<lparr>data_chs := (data_chs s)[data_tx sst := ch]\<rparr>, Done (Inr ()))
           | (ch, Ready False) \<Rightarrow>
               (let s = s\<lparr>data_chs := (data_chs s)[data_tx sst := ch]\<rparr>;
                    s = s\<lparr>shared := return_tokens data_len (shared s)\<rparr>
                in (remove_stream D sid s, Done (Inr ())))
           | (ch, Pending) \<Rightarrow>
               (s\<lparr>data_chs := (data_chs s)[data_tx sst := ch]\<rparr>, Await_data f))
      | None \<Rightarrow> (s\<lparr>shared := return_tokens data_len (shared s)\<rparr>, Done (Inr ())))"

definition psh_loop ::
    "('dc, bytes) flume_api \<Rightarrow> frame \<Rightarrow> ('fc, 'dc, 'ac) session_inner
     \<Rightarrow> ('fc, 'dc, 'ac) session_inner \<times> outcome" where
  "psh_loop D f s =
     (let current_tokens = get_tokens (shared s) in
      if sint current_tokens > 0 then psh_deliver D f s
      else
        (let (ss, _) = take_tokens (length (frame_data f)) (shared s)
         in (s\<lparr>shared := ss\<rparr>, Await_tokens f)))"

definition psh_abandon ::
    "frame \<Rightarrow> ('fc, 'dc, 'ac) session_inner \<Rightarrow> ('fc, 'dc, 'ac) session_inner \<times> outcome" where
  "psh_abandon f s =
     (s\<lparr>shared := return_tokens (length (frame_data f)) (shared s)\<rparr>, Done (Inr ()))"

definition handle_psh_frame ::
    "('dc, bytes) flume_api \<Rightarrow> frame \<Rightarrow> ('fc, 'dc, 'ac) session_inner
     \<Rightarrow> ('fc, 'dc, 'ac) session_inner \<times> outcome" where
  "handle_psh_frame D f s =
     (if length (frame_data f) = 0 then (s, Done (Inr ())) else psh_loop D f s)"

definition handle_upd_frame ::
    "frame \<Rightarrow> ('fc, 'dc, 'ac) session_inner \<Rightarrow> ('fc, 'dc, 'ac) session_inner \<times> outcome" where
  "handle_upd_frame f s = (s, Done (Inr ()))"

definition handle_frame ::
    "('fc, frame) flume_api \<Rightarrow> ('dc, bytes) flume_api \<Rightarrow> ('ac, stream) flume_api \<Rightarrow> frame
     \<Rightarrow> ('fc, 'dc, 'ac) session_inner \<Rightarrow> ('fc, 'dc, 'ac) session_inner \<times> outcome" where
  "handle_frame F D A f s =
     (case frame_cmd f of
        Syn \<Rightarrow> handle_syn_frame F D A f s
      | Fin \<Rightarrow> handle_fin_frame D f s
      | Psh \<Rightarrow> handle_psh_frame D f s
      | Upd _ _ \<Rightarrow> handle_upd_frame f s
      | Nop \<Rightarrow> (s, Done (Inr ())))"

section \<open>The sequence of identifiers\<close>

text \<open>The session after \<open>k\<close> calls of \<open>next_stream_id\<close>.\<close>

definition ids_taken :: "nat \<Rightarrow> ('fc, 'dc, 'ac) session_inner \<Rightarrow> ('fc, 'dc, 'ac) session_inner" where
  "ids_taken k s = ((fst \<circ> next_stream_id) ^^ k) s"

definition first_id :: "bool \<Rightarrow> nat" where
  "first_id client = (if client then 1 else 2)"

lemma next_stream_id_fst: "fst (next_stream_id s) = s\<lparr>next_id := next_id s + 2\<rparr>"
  by (simp add: next_stream_id_def Let_def)

lemma ids_taken_eq: "ids_taken k s = s\<lparr>next_id := next_id s + 2 * word_of_nat k\<rparr>"
proof (induction k)
  case 0
  then show ?case by (simp add: ids_taken_def)
next
  case (Suc k)
  then show ?case by (simp add: ids_taken_def next_stream_id_fst algebra_simps)
qed

lemma next_id_ids_taken:
  "next_id (ids_taken k (session_new F A cfg client)) = word_of_nat (first_id client + 2 * k)"
  by (simp add: ids_taken_eq session_new_def first_id_def)

lemma next_stream_id_snd:
  assumes "next_id s = word_of_nat n" "n < 2 ^ 32"
  shows "snd (next_stream_id s) =
    (if n \<le> 4294967293 then Inr (word_of_nat n)
     else Inl (ProtocolViolation ''Stream ID overflow - session should be restarted''))"
proof -
  note unat_u32_of_nat [OF assms(2)]
  then have "(word_of_nat n :: u32) > 0xFFFFFFFF - 2 \<longleftrightarrow> \<not> n \<le> 4294967293"
    by (simp add: word_less_nat_alt linorder_not_le)
  with assms(1) show ?thesis by (simp add: next_stream_id_def Let_def)
qed

lemma nth_stream_id:
  assumes "(word_of_nat (first_id client + 2 * k) :: u32) = word_of_nat n" "n < 2 ^ 32"
  shows "snd (next_stream_id (ids_taken k (session_new F A cfg client))) =
      (if n \<le> 4294967293 then Inr (word_of_nat n)
       else Inl (ProtocolViolation ''Stream ID overflow - session should be restarted''))"
  by (rule next_stream_id_snd [OF _ assms(2)]) (simp only: next_id_ids_taken assms(1))

section \<open>Properties\<close>

text \<open>
  The identifiers a session hands out: the call number \<open>k\<close> gets the id \<open>1 + 2 k\<close> on a client and
  \<open>2 + 2 k\<close> on a server, for all \<open>k\<close> up to the overflow check, so they are pairwise different and not
  zero; each of them passes the other side's check of peer identifiers and fails the own one, so the
  two sides never open the same identifier.
\<close>

lemma stream_ids_sequence:
  assumes "first_id client + 2 * k \<le> 4294967293" "is_client s = client" "is_client s' = (\<not> client)"
  shows "\<exists>sid. snd (next_stream_id (ids_taken k (session_new F A cfg client))) = Inr sid \<and>
           unat sid = first_id client + 2 * k \<and>
           validate_peer_stream_id s' sid = Inr () \<and>
           validate_peer_stream_id s sid = Inl (InvalidStreamId sid)"
proof -
  let ?n = "first_id client + 2 * k"
  have n: "?n < 2 ^ 32" using assms(1) by simp
  note u = unat_u32_of_nat [OF n]
  have "even (word_of_nat ?n :: u32) \<longleftrightarrow> \<not> client"
    by (simp add: even_word_iff even_of_nat_iff first_id_def)
  moreover have "(word_of_nat ?n :: u32) \<noteq> 0" using u by (auto simp: first_id_def)
  ultimately have "validate_peer_stream_id s' (word_of_nat ?n) = Inr () \<and>
      validate_peer_stream_id s (word_of_nat ?n) = Inl (InvalidStreamId (word_of_nat ?n))"
    using assms(2,3)
    by (auto simp: validate_peer_stream_id_def even_iff_mod_2_eq_zero odd_iff_mod_2_eq_one)
  with next_stream_id_snd [OF next_id_ids_taken n] assms(1) u show ?thesis by auto
qed

lemma stream_ids_sequence_witness:
  "\<exists>sid. snd (next_stream_id (ids_taken 1000 (session_new list_chan list_chan config_default True))) =
           Inr sid \<and> unat sid = 2001"
  using stream_ids_sequence [of True 1000 "session_new list_chan list_chan config_default True"
      "session_new list_chan list_chan config_default False" list_chan list_chan config_default]
  by (auto simp: first_id_def session_new_def)

text \<open>
  C32. Beyond the last identifier: the next call reports the overflow, but the counter wraps around, so
  the calls after it succeed again and hand out identifiers that were used before, and on a server
  first the identifier zero.
\<close>

lemma stream_ids_wrap_around:
  "snd (next_stream_id (ids_taken (2 ^ 31 - 1) (session_new F A cfg True))) =
     Inl (ProtocolViolation ''Stream ID overflow - session should be restarted'') \<and>
   snd (next_stream_id (ids_taken (2 ^ 31) (session_new F A cfg True))) = Inr 1 \<and>
   snd (next_stream_id (ids_taken (2 ^ 31 - 2) (session_new F A cfg False))) =
     Inl (ProtocolViolation ''Stream ID overflow - session should be restarted'') \<and>
   snd (next_stream_id (ids_taken (2 ^ 31 - 1) (session_new F A cfg False))) = Inr 0 \<and>
   snd (next_stream_id (ids_taken (2 ^ 31) (session_new F A cfg False))) = Inr 2"
proof -
  have "snd (next_stream_id (ids_taken (2 ^ 31 - 1) (session_new F A cfg True))) =
     Inl (ProtocolViolation ''Stream ID overflow - session should be restarted'')"
    by (subst nth_stream_id [where n = 4294967295]) (simp_all add: first_id_def)
  moreover have "snd (next_stream_id (ids_taken (2 ^ 31) (session_new F A cfg True))) = Inr 1"
    by (subst nth_stream_id [where n = 1]) (simp_all add: first_id_def)
  moreover have "snd (next_stream_id (ids_taken (2 ^ 31 - 2) (session_new F A cfg False))) =
     Inl (ProtocolViolation ''Stream ID overflow - session should be restarted'')"
    by (subst nth_stream_id [where n = 4294967294]) (simp_all add: first_id_def)
  moreover have "snd (next_stream_id (ids_taken (2 ^ 31 - 1) (session_new F A cfg False))) = Inr 0"
    by (subst nth_stream_id [where n = 0]) (simp_all add: first_id_def)
  moreover have "snd (next_stream_id (ids_taken (2 ^ 31) (session_new F A cfg False))) = Inr 2"
    by (subst nth_stream_id [where n = 2]) (simp_all add: first_id_def)
  ultimately show ?thesis by blast
qed

end
