(* ===== verification/Demux.thy ===== *)
theory Demux
  imports Sessions
begin

text \<open>
  What the session's table does with incoming frames: the well-formedness that every handler keeps,
  an abstract table of what each stream id has received, and the proof that \<open>handle_frame\<close> refines
  the step of the abstract table.
\<close>

section \<open>Well-formed sessions\<close>

text \<open>
  What every operation keeps: an entry's channel is in the store, unbounded, with its sender alive,
  and no two entries share one; no channel that is still read holds an empty chunk; the accept
  channel has capacity 16 and both its ends, which the session itself holds, are alive.
\<close>

definition entry_ok :: "('dc, bytes) flume_api \<Rightarrow> 'dc list \<Rightarrow> stream_state \<Rightarrow> bool" where
  "entry_ok D chs sst \<longleftrightarrow>
     data_tx sst < length chs \<and> capacity D (chs ! data_tx sst) = None \<and>
     \<not> senders_gone D (chs ! data_tx sst)"

definition no_empty_chunk :: "('dc, bytes) flume_api \<Rightarrow> 'dc \<Rightarrow> bool" where
  "no_empty_chunk D ch \<longleftrightarrow> receivers_gone D ch \<or> [] \<notin> set (contents D ch)"

definition table_wf ::
    "('dc, bytes) flume_api \<Rightarrow> (u32 \<rightharpoonup> stream_state) \<Rightarrow> 'dc list \<Rightarrow> bool" where
  "table_wf D m chs \<longleftrightarrow>
     (\<forall>sid sst. m sid = Some sst \<longrightarrow> entry_ok D chs sst) \<and>
     (\<forall>sid sid' sst sst'. m sid = Some sst \<and> m sid' = Some sst' \<and> data_tx sst = data_tx sst'
        \<longrightarrow> sid = sid') \<and>
     (\<forall>ch \<in> set chs. no_empty_chunk D ch)"

definition accept_wf :: "('ac, stream) flume_api \<Rightarrow> 'ac \<Rightarrow> bool" where
  "accept_wf A ac \<longleftrightarrow> capacity A ac = Some 16 \<and> \<not> receivers_gone A ac \<and> \<not> senders_gone A ac"

definition session_wf ::
    "('dc, bytes) flume_api \<Rightarrow> ('ac, stream) flume_api \<Rightarrow> ('fc, 'dc, 'ac) session_inner \<Rightarrow> bool" where
  "session_wf D A s \<longleftrightarrow> table_wf D (streams s) (data_chs s) \<and> accept_wf A (accept_ch s)"

lemma table_wfD:
  assumes "table_wf D m chs" "m sid = Some sst"
  shows "data_tx sst < length chs" "capacity D (chs ! data_tx sst) = None"
    "\<not> senders_gone D (chs ! data_tx sst)"
    "m sid' = Some sst' \<Longrightarrow> sid' \<noteq> sid \<Longrightarrow> data_tx sst' \<noteq> data_tx sst"
    "no_empty_chunk D (chs ! data_tx sst)"
  using assms by (auto simp: table_wf_def entry_ok_def)

text \<open>The table and the store may change together in three ways.\<close>

lemma table_wf_update:
  assumes "table_wf D m chs" "m sid = Some sst"
    and "capacity D ch = None" "\<not> senders_gone D ch" "no_empty_chunk D ch"
  shows "table_wf D m (chs[data_tx sst := ch])"
proof -
  have "entry_ok D (chs[data_tx sst := ch]) sst'" if "m sid' = Some sst'" for sid' sst'
  proof (cases "sid' = sid")
    case True
    with assms that table_wfD(1) [OF assms(1,2)] show ?thesis by (simp add: entry_ok_def)
  next
    case False
    with table_wfD(4) [OF assms(1,2) that] table_wfD(1-3) [OF assms(1) that]
    show ?thesis by (simp add: entry_ok_def)
  qed
  with assms show ?thesis
    by (auto simp: table_wf_def dest!: set_update_subset_insert [THEN subsetD])
qed

lemma table_wf_remove:
  assumes "table_wf D m chs" "m sid = Some sst" "no_empty_chunk D ch"
  shows "table_wf D (m(sid := None)) (chs[data_tx sst := ch])"
proof -
  have "entry_ok D (chs[data_tx sst := ch]) sst'" if "m sid' = Some sst'" "sid' \<noteq> sid" for sid' sst'
    using table_wfD(4) [OF assms(1,2) that] table_wfD(1-3) [OF assms(1) that(1)]
    by (simp add: entry_ok_def)
  with assms show ?thesis
    by (auto simp: table_wf_def dest!: set_update_subset_insert [THEN subsetD] split: if_splits)
qed

lemma table_wf_forget:
  "table_wf D m chs \<Longrightarrow> table_wf D (m(sid := None)) chs"
  by (auto simp: table_wf_def)

lemma table_wf_insert:
  assumes "table_wf D m chs"
    and "capacity D ch = None" "\<not> senders_gone D ch" "no_empty_chunk D ch"
  shows "table_wf D (m(sid \<mapsto> stream_state_new (length chs))) (chs @ [ch])"
proof -
  have "data_tx sst < length chs \<and> entry_ok D (chs @ [ch]) sst" if "m sid' = Some sst" for sid' sst
    using table_wfD(1-3) [OF assms(1) that] by (simp add: entry_ok_def nth_append)
  with assms show ?thesis
    by (fastforce simp: table_wf_def entry_ok_def stream_state_new_def)
qed

section \<open>The abstract table\<close>

text \<open>
  What a session is for its incoming frames: for each stream id with an entry, the chunks delivered
  and not yet received, or \<open>None\<close> when the local owner has dropped the stream. \<open>peer_id\<close> is the rule for
  ids that the peer may open: even ids on a client, odd ids on a server, never zero.
\<close>

type_synonym table = "u32 \<rightharpoonup> bytes list option"

definition entry_view :: "('dc, bytes) flume_api \<Rightarrow> 'dc list \<Rightarrow> stream_state \<Rightarrow> bytes list option" where
  "entry_view D chs sst =
     (let ch = chs ! data_tx sst in if receivers_gone D ch then None else Some (contents D ch))"

definition table_of :: "('dc, bytes) flume_api \<Rightarrow> ('fc, 'dc, 'ac) session_inner \<Rightarrow> table" where
  "table_of D s = map_option (entry_view D (data_chs s)) \<circ> streams s"

definition peer_id :: "bool \<Rightarrow> u32 \<Rightarrow> bool" where
  "peer_id client sid \<longleftrightarrow> sid \<noteq> 0 \<and> even sid = client"

definition spec_frame :: "bool \<Rightarrow> frame \<Rightarrow> table \<Rightarrow> table" where
  "spec_frame client f q =
     (let sid = frame_stream_id f; data = frame_data f in
      case frame_cmd f of
        Syn \<Rightarrow> (if peer_id client sid \<and> q sid = None then q(sid \<mapsto> Some []) else q)
      | Fin \<Rightarrow> q(sid := None)
      | Psh \<Rightarrow>
          (case q sid of
             Some (Some chunks) \<Rightarrow> if data = [] then q else q(sid \<mapsto> Some (chunks @ [data]))
           | Some None \<Rightarrow> if data = [] then q else q(sid := None)
           | None \<Rightarrow> q)
      | _ \<Rightarrow> q)"

lemma validate_peer_stream_id_Inr_iff:
  "validate_peer_stream_id s sid = Inr () \<longleftrightarrow> peer_id (is_client s) sid"
  by (auto simp: validate_peer_stream_id_def peer_id_def even_iff_mod_2_eq_zero
      odd_iff_mod_2_eq_one)

lemma validate_peer_stream_id_Inl:
  "validate_peer_stream_id s sid = Inl e \<Longrightarrow> e = InvalidStreamId sid \<and> \<not> peer_id (is_client s) sid"
  using validate_peer_stream_id_Inr_iff [of s sid]
  by (auto simp: validate_peer_stream_id_def Let_def split: if_splits)

lemma table_of_None_iff [simp]: "table_of D s sid = None \<longleftrightarrow> streams s sid = None"
  by (simp add: table_of_def)

lemma table_of_Some:
  "streams s sid = Some sst \<Longrightarrow> table_of D s sid = Some (entry_view D (data_chs s) sst)"
  by (simp add: table_of_def)

lemma table_of_cong:
  "\<lbrakk>streams s' = streams s; data_chs s' = data_chs s\<rbrakk> \<Longrightarrow> table_of D s' = table_of D s"
  by (simp add: table_of_def)

lemma table_of_update:
  assumes "table_wf D (streams s) (data_chs s)" "streams s sid = Some sst"
    and "streams s' = streams s" "data_chs s' = (data_chs s)[data_tx sst := ch]"
    and "\<not> receivers_gone D ch"
  shows "table_of D s' = (table_of D s)(sid \<mapsto> Some (contents D ch))"
proof
  fix sid'
  show "table_of D s' sid' = ((table_of D s)(sid \<mapsto> Some (contents D ch))) sid'"
    using assms table_wfD(1) [OF assms(1,2)] table_wfD(4) [OF assms(1,2), of sid']
    by (cases "streams s sid'") (auto simp: table_of_def entry_view_def)
qed

lemma table_of_remove:
  assumes "table_wf D (streams s) (data_chs s)" "streams s sid = Some sst"
    and "streams s' = (streams s)(sid := None)" "data_chs s' = (data_chs s)[data_tx sst := ch]"
  shows "table_of D s' = (table_of D s)(sid := None)"
proof
  fix sid'
  show "table_of D s' sid' = ((table_of D s)(sid := None)) sid'"
    using assms table_wfD(4) [OF assms(1,2), of sid']
    by (cases "streams s sid'") (auto simp: table_of_def entry_view_def)
qed

lemma table_of_insert:
  assumes "table_wf D (streams s) (data_chs s)"
    and "streams s' = (streams s)(sid \<mapsto> stream_state_new (length (data_chs s)))"
    and "data_chs s' = data_chs s @ [ch]" "\<not> receivers_gone D ch"
  shows "table_of D s' = (table_of D s)(sid \<mapsto> Some (contents D ch))"
proof
  fix sid'
  show "table_of D s' sid' = ((table_of D s)(sid \<mapsto> Some (contents D ch))) sid'"
    using assms table_wfD(1) [OF assms(1), of sid']
    by (cases "streams s sid'")
      (auto simp: table_of_def entry_view_def stream_state_new_def nth_append)
qed

section \<open>The handlers\<close>

lemma remove_stream_simps [simp]:
  "streams (remove_stream D sid s) = (streams s)(sid := None)"
  "accept_ch (remove_stream D sid s) = accept_ch s"
  "shared (remove_stream D sid s) = shared s"
  "frame_ch (remove_stream D sid s) = frame_ch s"
  "is_client (remove_stream D sid s) = is_client s"
  "next_id (remove_stream D sid s) = next_id s"
  "session_config (remove_stream D sid s) = session_config s"
  by (simp_all add: remove_stream_def drop_data_tx_def Let_def split: option.splits)

lemma data_chs_remove_stream:
  "data_chs (remove_stream D sid s) =
     (case streams s sid of
        None \<Rightarrow> data_chs s
      | Some sst \<Rightarrow> (data_chs s)[data_tx sst := drop_sender D (data_chs s ! data_tx sst)])"
  by (simp add: remove_stream_def drop_data_tx_def Let_def split: option.splits)

locale session_env =
  stream_env B F D + accept: flume A
  for B :: bytes_api
    and F :: "('fc, frame) flume_api"
    and D :: "('dc, bytes) flume_api"
    and A :: "('ac, stream) flume_api"
begin

lemma no_empty_chunk_drop_sender:
  "no_empty_chunk D ch \<Longrightarrow> no_empty_chunk D (drop_sender D ch)"
  by (simp add: no_empty_chunk_def data.drop_sender_laws)

lemma session_wf_new: "session_wf D A (session_new F A cfg client)"
  by (simp add: session_wf_def table_wf_def accept_wf_def session_new_def accept.bounded_new)

lemma table_of_new: "table_of D (session_new F A cfg client) = Map.empty"
  by (simp add: table_of_def session_new_def)

lemma handle_syn_cases:
  assumes "session_wf D A s"
  obtains (bad_id) "\<not> peer_id (is_client s) (frame_stream_id f)"
      "handle_syn_frame F D A f s = (s, Done (Inl (InvalidStreamId (frame_stream_id f))))"
  | (duplicate) "peer_id (is_client s) (frame_stream_id f)" "streams s (frame_stream_id f) \<noteq> None"
      "handle_syn_frame F D A f s = (s, Done (Inl (StreamAlreadyExists (frame_stream_id f))))"
  | (new) s' ac out where
      "peer_id (is_client s) (frame_stream_id f)" "streams s (frame_stream_id f) = None"
      "handle_syn_frame F D A f s = (s', out)"
      "s' = s\<lparr>data_chs := data_chs s @ [unbounded D],
              streams := (streams s)(frame_stream_id f \<mapsto> stream_state_new (length (data_chs s))),
              accept_ch := ac\<rparr>"
      "accept_wf A ac"
      "if has_room A (accept_ch s)
       then contents A ac =
              contents A (accept_ch s) @ [stream_new (frame_stream_id f) (length (data_chs s))] \<and>
            out = Done (Inr ())
       else ac = accept_ch s \<and>
            out = Await_accept (stream_new (frame_stream_id f) (length (data_chs s)))"
proof (cases "validate_peer_stream_id s (frame_stream_id f)")
  case (Inl e)
  from validate_peer_stream_id_Inl [OF this] Inl bad_id show ?thesis
    by (simp add: handle_syn_frame_def Let_def)
next
  case (Inr u)
  then have pid: "peer_id (is_client s) (frame_stream_id f)"
    using validate_peer_stream_id_Inr_iff by (metis old.unit.exhaust)
  show ?thesis
  proof (cases "streams s (frame_stream_id f) = None")
    case False
    with pid Inr duplicate show ?thesis by (simp add: handle_syn_frame_def Let_def)
  next
    case True
    let ?st = "stream_new (frame_stream_id f) (length (data_chs s))"
    have wf: "accept_wf A (accept_ch s)" using assms by (simp add: session_wf_def)
    then have "capacity A (accept_ch s) \<noteq> Some 0" by (simp add: accept_wf_def)
    then show ?thesis
    proof (cases rule: accept.send_cases [where c = "accept_ch s" and x = ?st])
      case disconnected
      with wf show ?thesis by (simp add: accept_wf_def)
    next
      case full
      with True Inr pid wf new show ?thesis
        by (simp add: handle_syn_frame_def Let_def alloc_channel_def insert_stream_def
            syn_send_def send_async_def)
    next
      case (sent ac)
      with wf have "accept_wf A ac" by (simp add: accept_wf_def)
      with sent True Inr pid new show ?thesis
        by (simp add: handle_syn_frame_def Let_def alloc_channel_def insert_stream_def
            syn_send_def send_async_def)
    qed
  qed
qed

lemma handle_syn_refines:
  assumes "session_wf D A s" "frame_cmd f = Syn" "handle_syn_frame F D A f s = (s', out)"
  shows "session_wf D A s' \<and> table_of D s' = spec_frame (is_client s) f (table_of D s)"
  using assms(1)
proof (cases rule: handle_syn_cases [where f = f])
  case bad_id
  with assms show ?thesis by (simp add: spec_frame_def)
next
  case duplicate
  with assms show ?thesis by (auto simp: spec_frame_def Let_def)
next
  case (new s1 ac out1)
  have s': "s' = s1" using assms(3) new by simp
  have tw: "table_wf D (streams s) (data_chs s)" using assms(1) by (simp add: session_wf_def)
  have "table_wf D (streams s') (data_chs s')"
    using table_wf_insert [OF tw] data.unbounded_new new(4)
    by (simp add: s' no_empty_chunk_def)
  moreover have "table_of D s' = (table_of D s)(frame_stream_id f \<mapsto> Some [])"
    using table_of_insert [OF tw, of s' "frame_stream_id f" "unbounded D"]
      data.unbounded_new new(4) by (simp add: s')
  ultimately show ?thesis
    using new assms(2) by (simp add: s' session_wf_def spec_frame_def)
qed

lemma handle_fin_refines:
  assumes "session_wf D A s" "frame_cmd f = Fin" "handle_fin_frame D f s = (s', out)"
  shows "session_wf D A s' \<and> table_of D s' = spec_frame (is_client s) f (table_of D s)"
proof (cases "streams s (frame_stream_id f)")
  case None
  with assms show ?thesis
    by (auto simp: handle_fin_frame_def spec_frame_def)
next
  case (Some sst)
  have tw: "table_wf D (streams s) (data_chs s)" using assms(1) by (simp add: session_wf_def)
  let ?ch = "drop_sender D (data_chs s ! data_tx sst)"
  have s': "streams s' = (streams s)(frame_stream_id f := None)"
    "data_chs s' = (data_chs s)[data_tx sst := ?ch]" "accept_ch s' = accept_ch s"
    using assms(3) Some by (auto simp: handle_fin_frame_def Let_def drop_data_tx_def)
  have "no_empty_chunk D ?ch"
    using table_wfD(5) [OF tw Some] by (rule no_empty_chunk_drop_sender)
  with table_wf_remove [OF tw Some] table_of_remove [OF tw Some, of s' ?ch] assms(1,2) s'
  show ?thesis by (simp add: session_wf_def spec_frame_def)
qed

lemma psh_deliver_refines:
  assumes "session_wf D A s" "frame_cmd f = Psh" "frame_data f \<noteq> []"
    and run: "psh_deliver D f s = (s', out)"
  shows "session_wf D A s' \<and> table_of D s' = spec_frame (is_client s) f (table_of D s) \<and>
         out = Done (Inr ())"
proof (cases "streams s (frame_stream_id f)")
  case None
  then have "s' = s\<lparr>shared := return_tokens (length (frame_data f)) (shared s)\<rparr>" "out = Done (Inr ())"
    using run by (simp_all add: psh_deliver_def Let_def)
  with None assms(1,2) show ?thesis
    by (simp add: session_wf_def spec_frame_def table_of_def)
next
  case (Some sst)
  let ?sid = "frame_stream_id f" and ?data = "frame_data f" and ?ch = "data_chs s ! data_tx sst"
  have tw: "table_wf D (streams s) (data_chs s)" using assms(1) by (simp add: session_wf_def)
  note sst = table_wfD [OF tw Some]
  have "capacity D ?ch \<noteq> Some 0" using sst by simp
  then show ?thesis
  proof (cases rule: data.send_cases [where x = ?data])
    case disconnected
    then have s': "streams s' = (streams s)(?sid := None)"
      "data_chs s' = (data_chs s)[data_tx sst := drop_sender D ?ch]"
      "accept_ch s' = accept_ch s" "out = Done (Inr ())"
      using run Some sst(1)
      by (auto simp: psh_deliver_def Let_def send_async_def data_chs_remove_stream)
    moreover have "no_empty_chunk D (drop_sender D ?ch)"
      using sst(5) by (rule no_empty_chunk_drop_sender)
    ultimately show ?thesis
      using table_wf_remove [OF tw Some] table_of_remove [OF tw Some s'(1,2)] assms(1-3)
        disconnected(1) table_of_Some [OF Some, of D]
      by (simp add: session_wf_def spec_frame_def entry_view_def Let_def)
  next
    case full
    with sst show ?thesis by (simp add: has_room_def)
  next
    case (sent ch)
    then have s': "streams s' = streams s" "data_chs s' = (data_chs s)[data_tx sst := ch]"
      "accept_ch s' = accept_ch s" "out = Done (Inr ())"
      using run Some by (auto simp: psh_deliver_def Let_def send_async_def)
    have "no_empty_chunk D ch"
      using sst(5) sent assms(3) by (auto simp: no_empty_chunk_def)
    with table_wf_update [OF tw Some, of ch] table_of_update [OF tw Some s'(1,2)] sent sst s'
      table_of_Some [OF Some, of D] assms(1-3)
    show ?thesis
      by (simp add: session_wf_def spec_frame_def entry_view_def Let_def)
  qed
qed

lemma handle_psh_refines:
  assumes "session_wf D A s" "frame_cmd f = Psh" "0 < token_balance (shared s)"
    and "handle_psh_frame D f s = (s', out)"
  shows "session_wf D A s' \<and> table_of D s' = spec_frame (is_client s) f (table_of D s) \<and>
         out = Done (Inr ())"
proof (cases "frame_data f = []")
  case True
  with assms show ?thesis
    by (auto simp: handle_psh_frame_def spec_frame_def Let_def split: option.splits)
next
  case False
  then have "psh_deliver D f s = (s', out)"
    using assms(3,4)
    by (simp add: handle_psh_frame_def psh_loop_def get_tokens_def token_balance_def)
  with psh_deliver_refines [OF assms(1,2) False] show ?thesis by blast
qed

text \<open>Without tokens the handler waits, and the table stays as it is.\<close>

lemma psh_loop_wf:
  assumes "session_wf D A s" "frame_cmd f = Psh" "frame_data f \<noteq> []" "psh_loop D f s = (s', out)"
  shows "session_wf D A s' \<and> out \<in> {Done (Inr ()), Await_tokens f}"
proof (cases "0 < sint (get_tokens (shared s))")
  case True
  with assms have "psh_deliver D f s = (s', out)" by (simp add: psh_loop_def)
  with psh_deliver_refines [OF assms(1-3)] show ?thesis by blast
next
  case False
  with assms show ?thesis by (auto simp: psh_loop_def session_wf_def Let_def split: prod.splits)
qed

lemma handle_frame_wf:
  assumes "session_wf D A s" "handle_frame F D A f s = (s', out)"
  shows "session_wf D A s'" "out = Await_tokens g \<Longrightarrow> g = f \<and> frame_cmd f = Psh \<and> frame_data f \<noteq> []"
    "out \<noteq> Await_data g"
proof -
  have "session_wf D A s' \<and>
        (out = Await_tokens g \<longrightarrow> g = f \<and> frame_cmd f = Psh \<and> frame_data f \<noteq> []) \<and>
        out \<noteq> Await_data g"
  proof (cases "frame_cmd f")
    case Syn
    with assms have run: "handle_syn_frame F D A f s = (s', out)" by (simp add: handle_frame_def)
    have "out \<noteq> Await_tokens g \<and> out \<noteq> Await_data g"
      using assms(1) by (cases rule: handle_syn_cases [where f = f]) (use run in \<open>auto split: if_splits\<close>)
    with handle_syn_refines [OF assms(1) Syn run] show ?thesis by blast
  next
    case Fin
    with assms have run: "handle_fin_frame D f s = (s', out)" by (simp add: handle_frame_def)
    then have "out = Done (Inr ())"
      by (auto simp: handle_fin_frame_def Let_def split: option.splits)
    with handle_fin_refines [OF assms(1) Fin run] show ?thesis by simp
  next
    case Psh
    show ?thesis
    proof (cases "frame_data f = []")
      case True
      with assms Psh show ?thesis by (auto simp: handle_frame_def handle_psh_frame_def)
    next
      case False
      with assms(2) Psh have "psh_loop D f s = (s', out)"
        by (simp add: handle_frame_def handle_psh_frame_def)
      with psh_loop_wf [OF assms(1) Psh False] Psh False show ?thesis by auto
    qed
  qed (use assms in \<open>auto simp: handle_frame_def handle_upd_frame_def\<close>)
  then show "session_wf D A s'"
    "out = Await_tokens g \<Longrightarrow> g = f \<and> frame_cmd f = Psh \<and> frame_data f \<noteq> []"
    "out \<noteq> Await_data g" by blast+
qed

text \<open>Every frame: the table follows the abstract step, whether or not the handler is suspended.\<close>

lemma handle_frame_refines:
  assumes "session_wf D A s" "frame_cmd f = Psh \<longrightarrow> 0 < token_balance (shared s)"
    and "handle_frame F D A f s = (s', out)"
  shows "session_wf D A s' \<and> table_of D s' = spec_frame (is_client s) f (table_of D s)"
proof (cases "frame_cmd f")
  case Syn
  with handle_syn_refines assms show ?thesis by (simp add: handle_frame_def)
next
  case Fin
  with handle_fin_refines assms show ?thesis by (simp add: handle_frame_def)
next
  case Psh
  with handle_psh_refines [OF assms(1) Psh] assms show ?thesis by (simp add: handle_frame_def)
qed (use assms in \<open>auto simp: handle_frame_def handle_upd_frame_def spec_frame_def Let_def\<close>)

lemma handle_frame_no_await:
  assumes "session_wf D A s" "0 < token_balance (shared s)" "handle_frame F D A f s = (s', out)"
  shows "out \<noteq> Await_tokens g" "out \<noteq> Await_data g"
proof -
  show "out \<noteq> Await_data g" by (rule handle_frame_wf(3) [OF assms(1,3)])
  show "out \<noteq> Await_tokens g"
  proof (cases "frame_cmd f = Psh")
    case True
    with handle_psh_refines [OF assms(1) True assms(2)] assms(3) show ?thesis
      by (auto simp: handle_frame_def)
  next
    case False
    with handle_frame_wf(2) [OF assms(1,3)] show ?thesis by blast
  qed
qed

text \<open>What no handler touches, and what it does to the session state.\<close>

lemma psh_deliver_shared:
  assumes "session_wf D A s" "psh_deliver D f s = (s', out)"
  shows "shared s' =
           (case table_of D s (frame_stream_id f) of
              Some (Some chunks) \<Rightarrow> shared s
            | _ \<Rightarrow> return_tokens (length (frame_data f)) (shared s)) \<and>
         is_client s' = is_client s \<and> next_id s' = next_id s \<and> frame_ch s' = frame_ch s \<and>
         session_config s' = session_config s \<and> accept_ch s' = accept_ch s"
proof (cases "streams s (frame_stream_id f)")
  case None
  with assms show ?thesis by (auto simp: psh_deliver_def Let_def table_of_def)
next
  case (Some sst)
  have tw: "table_wf D (streams s) (data_chs s)" using assms(1) by (simp add: session_wf_def)
  let ?ch = "data_chs s ! data_tx sst"
  have "capacity D ?ch \<noteq> Some 0" using table_wfD(2) [OF tw Some] by simp
  then show ?thesis
    by (cases rule: data.send_cases [where x = "frame_data f"])
      (use assms(2) Some table_of_Some [OF Some, of D] table_wfD(2) [OF tw Some] in
        \<open>auto simp: psh_deliver_def Let_def send_async_def entry_view_def has_room_def\<close>)
qed

lemma handle_frame_keeps:
  assumes "session_wf D A s" "handle_frame F D A f s = (s', out)"
  shows "is_client s' = is_client s" "next_id s' = next_id s" "frame_ch s' = frame_ch s"
    "session_config s' = session_config s" "closed (shared s') = closed (shared s)"
    "die_notified (shared s') = die_notified (shared s)"
    "data_received (shared s') = data_received (shared s)"
proof -
  have "is_client s' = is_client s \<and> next_id s' = next_id s \<and> frame_ch s' = frame_ch s \<and>
    session_config s' = session_config s \<and> closed (shared s') = closed (shared s) \<and>
    die_notified (shared s') = die_notified (shared s) \<and>
    data_received (shared s') = data_received (shared s)"
  proof (cases "frame_cmd f")
    case Syn
    with assms have run: "handle_syn_frame F D A f s = (s', out)" by (simp add: handle_frame_def)
    show ?thesis
      using assms(1) by (cases rule: handle_syn_cases [where f = f]) (use run in auto)
  next
    case Fin
    with assms show ?thesis
      by (auto simp: handle_frame_def handle_fin_frame_def drop_data_tx_def Let_def
          split: option.splits)
  next
    case Psh
    have "shared s' = shared s \<or> shared s' = return_tokens (length (frame_data f)) (shared s) \<or>
          shared s' = fst (take_tokens (length (frame_data f)) (shared s))"
      and "is_client s' = is_client s \<and> next_id s' = next_id s \<and> frame_ch s' = frame_ch s \<and>
         session_config s' = session_config s"
      using assms Psh psh_deliver_shared [OF assms(1), of f s' out]
      by (auto simp: handle_frame_def handle_psh_frame_def psh_loop_def Let_def take_tokens_def
          split: if_splits option.splits)
    then show ?thesis by (auto simp: take_tokens_def Let_def)
  qed (use assms in \<open>auto simp: handle_frame_def handle_upd_frame_def\<close>)
  then show "is_client s' = is_client s" "next_id s' = next_id s" "frame_ch s' = frame_ch s"
    "session_config s' = session_config s" "closed (shared s') = closed (shared s)"
    "die_notified (shared s') = die_notified (shared s)"
    "data_received (shared s') = data_received (shared s)" by simp_all
qed

text \<open>
  The flow-control counter: as long as it is positive no incoming frame lowers it. The frames of
  open streams leave it alone and the frames nobody reads raise it.
\<close>

lemma handle_frame_tokens:
  assumes "session_wf D A s" "handle_frame F D A f s = (s', out)"
    and "0 < token_balance (shared s)"
  shows "tokens (shared s') = tokens (shared s) + word_of_nat
           (if frame_cmd f = Psh \<and> \<not> (\<exists>chunks. table_of D s (frame_stream_id f) = Some (Some chunks))
            then length (frame_data f) else 0)"
proof (cases "frame_cmd f")
  case Syn
  with assms have run: "handle_syn_frame F D A f s = (s', out)" by (simp add: handle_frame_def)
  show ?thesis
    using assms(1) by (cases rule: handle_syn_cases [where f = f]) (use run Syn in auto)
next
  case Fin
  with assms show ?thesis
    by (auto simp: handle_frame_def handle_fin_frame_def drop_data_tx_def Let_def
        split: option.splits)
next
  case Psh
  then show ?thesis
    using assms psh_deliver_shared [OF assms(1), of f s' out]
    by (auto simp: handle_frame_def handle_psh_frame_def psh_loop_def get_tokens_def
        token_balance_def simp del: table_of_None_iff split: if_splits option.splits)
qed (use assms in \<open>auto simp: handle_frame_def handle_upd_frame_def\<close>)

lemma handle_frame_token_balance:
  assumes "session_wf D A s" "handle_frame F D A f s = (s', out)"
    and "0 < token_balance (shared s)"
    and "token_balance (shared s) + int (length (frame_data f)) < 2 ^ 63"
  shows "token_balance (shared s) \<le> token_balance (shared s')"
    "token_balance (shared s') \<le> token_balance (shared s) + int (length (frame_data f))"
  using handle_frame_tokens [OF assms(1-3)] assms(3,4)
    sint_add_nat [of "tokens (shared s)" "length (frame_data f)"]
  by (auto simp: token_balance_def split: if_splits)

text \<open>Opening a stream; the id may be in the table already, after the counter wrapped around.\<close>

lemma open_entry:
  assumes "session_wf D A s"
    and "s' = insert_stream D sid (stream_state_new (length (data_chs s))) (fst (alloc_channel D s))"
  shows "session_wf D A s' \<and> table_of D s' = (table_of D s)(sid \<mapsto> Some []) \<and>
         streams s' sid = Some (stream_state_new (length (data_chs s))) \<and>
         length (data_chs s') = Suc (length (data_chs s)) \<and>
         shared s' = shared s \<and> frame_ch s' = frame_ch s \<and> is_client s' = is_client s \<and>
         next_id s' = next_id s \<and> session_config s' = session_config s \<and> accept_ch s' = accept_ch s"
proof (cases "streams s sid")
  case None
  have tw: "table_wf D (streams s) (data_chs s)" using assms(1) by (simp add: session_wf_def)
  from None assms(2) have s': "streams s' = (streams s)(sid \<mapsto> stream_state_new (length (data_chs s)))"
    "data_chs s' = data_chs s @ [unbounded D]" "accept_ch s' = accept_ch s" "shared s' = shared s"
    "frame_ch s' = frame_ch s" "is_client s' = is_client s" "next_id s' = next_id s"
    "session_config s' = session_config s"
    by (simp_all add: alloc_channel_def insert_stream_def)
  with table_wf_insert [OF tw, of "unbounded D" sid] table_of_insert [OF tw s'(1,2)] assms(1)
  show ?thesis by (simp add: session_wf_def data.unbounded_new no_empty_chunk_def)
next
  case (Some old)
  have tw: "table_wf D (streams s) (data_chs s)" using assms(1) by (simp add: session_wf_def)
  note old = table_wfD [OF tw Some]
  let ?ch = "drop_sender D (data_chs s ! data_tx old)"
  define r where "r = s\<lparr>streams := (streams s)(sid := None),
                        data_chs := (data_chs s)[data_tx old := ?ch]\<rparr>"
  have rw: "table_wf D (streams r) (data_chs r)" and rt: "table_of D r = (table_of D s)(sid := None)"
    using table_wf_remove [OF tw Some] table_of_remove [OF tw Some, of r ?ch]
      no_empty_chunk_drop_sender [OF old(5)] by (simp_all add: r_def)
  from Some assms(2) old(1) have s':
    "streams s' = (streams r)(sid \<mapsto> stream_state_new (length (data_chs r)))"
    "data_chs s' = data_chs r @ [unbounded D]" "accept_ch s' = accept_ch s" "shared s' = shared s"
    "frame_ch s' = frame_ch s" "is_client s' = is_client s" "next_id s' = next_id s"
    "session_config s' = session_config s"
    by (auto simp: alloc_channel_def insert_stream_def drop_data_tx_def r_def Let_def nth_append
        list_update_append)
  with table_wf_insert [OF rw, of "unbounded D" sid] table_of_insert [OF rw s'(1,2)] assms(1) rt
  show ?thesis by (simp add: session_wf_def data.unbounded_new no_empty_chunk_def r_def)
qed

lemma next_stream_id_fields:
  assumes "next_stream_id s = (s', r)"
  shows "streams s' = streams s" "data_chs s' = data_chs s" "accept_ch s' = accept_ch s"
    "shared s' = shared s" "frame_ch s' = frame_ch s" "is_client s' = is_client s"
    "session_config s' = session_config s" "next_id s' = next_id s + 2"
  using assms by (auto simp: next_stream_id_def Let_def split: if_splits)

lemma open_stream_prepare_cases:
  assumes "session_wf D A s"
  obtains (closed) "is_closed (shared s)" "open_stream_prepare D s = (s, Inl SessionClosed)"
    | (overflow) s' e where "\<not> is_closed (shared s)" "next_stream_id s = (s', Inl e)"
        "open_stream_prepare D s = (s', Inl e)"
    | (opened) s' sid where "\<not> is_closed (shared s)" "snd (next_stream_id s) = Inr sid"
        "open_stream_prepare D s = (s', Inr (stream_new sid (length (data_chs s))))"
        "session_wf D A s'" "table_of D s' = (table_of D s)(sid \<mapsto> Some [])"
        "streams s' sid = Some (stream_state_new (length (data_chs s)))"
        "length (data_chs s') = Suc (length (data_chs s))"
        "shared s' = shared s" "frame_ch s' = frame_ch s" "is_client s' = is_client s"
        "accept_ch s' = accept_ch s" "session_config s' = session_config s"
        "next_id s' = next_id s + 2"
proof (cases "is_closed (shared s)")
  case True
  with closed show ?thesis by (simp add: open_stream_prepare_def)
next
  case open_session: False
  obtain s1 r where n: "next_stream_id s = (s1, r)" by fastforce
  note s1 = next_stream_id_fields [OF n]
  show ?thesis
  proof (cases r)
    case (Inl e)
    with n open_session overflow show ?thesis by (simp add: open_stream_prepare_def)
  next
    case (Inr sid)
    define s2 where
      "s2 = insert_stream D sid (stream_state_new (length (data_chs s1))) (fst (alloc_channel D s1))"
    have wf1: "session_wf D A s1" using assms s1 by (simp add: session_wf_def)
    have t1: "table_of D s1 = table_of D s" using s1 by (simp add: table_of_def)
    have "open_stream_prepare D s = (s2, Inr (stream_new sid (length (data_chs s))))"
      using n Inr open_session s1
      by (simp add: open_stream_prepare_def s2_def alloc_channel_def Let_def)
    with open_entry [OF wf1 s2_def] open_session n Inr s1 t1 opened [of sid s2] show ?thesis by simp
  qed
qed

text \<open>Taking a stream from the accept queue and receiving from a channel keep the session well formed.\<close>

lemma accept_select_cases:
  assumes "session_wf D A s" "accept_select A woken first s = (s', r)"
  shows "session_wf D A s' \<and> s' = s\<lparr>accept_ch := accept_ch s'\<rparr> \<and>
         (\<forall>st. r = Ready (Inr st) \<longrightarrow> contents A (accept_ch s) = st # contents A (accept_ch s')) \<and>
         ((\<forall>st. r \<noteq> Ready (Inr st)) \<longrightarrow> s' = s)"
proof -
  have "accept_wf A (accept_ch s)" using assms(1) by (simp add: session_wf_def)
  then show ?thesis
    using assms
    by (cases rule: accept.recv_cases [of "accept_ch s"])
      (auto simp: accept_select_def session_wf_def accept_wf_def split: if_splits)
qed

lemma syn_send_cases:
  assumes "session_wf D A s" "syn_send F D A st s = (s', out)"
  shows "session_wf D A s' \<and> s' = s\<lparr>accept_ch := accept_ch s'\<rparr> \<and>
         (if has_room A (accept_ch s)
          then out = Done (Inr ()) \<and> contents A (accept_ch s') = contents A (accept_ch s) @ [st]
          else out = Await_accept st \<and> s' = s)"
proof -
  have wf: "accept_wf A (accept_ch s)" using assms(1) by (simp add: session_wf_def)
  then have "capacity A (accept_ch s) \<noteq> Some 0" by (simp add: accept_wf_def)
  then show ?thesis
    by (cases rule: accept.send_cases [where x = st])
      (use wf assms in \<open>auto simp: syn_send_def send_async_def session_wf_def accept_wf_def\<close>)
qed

text \<open>Receiving from a channel of the store, and dropping a receiver.\<close>

lemma session_wf_channel:
  assumes "session_wf D A s"
    and "capacity D ch = capacity D (data_chs s ! a)" "senders_gone D ch = senders_gone D (data_chs s ! a)"
    and "no_empty_chunk D (data_chs s ! a) \<Longrightarrow> no_empty_chunk D ch"
    and "streams s' = streams s" "data_chs s' = (data_chs s)[a := ch]" "accept_ch s' = accept_ch s"
  shows "session_wf D A s'"
proof (cases "a < length (data_chs s)")
  case True
  have tw: "table_wf D (streams s) (data_chs s)" using assms(1) by (simp add: session_wf_def)
  then have "no_empty_chunk D ch" using True assms(4) by (simp add: table_wf_def)
  then have "table_wf D (streams s) ((data_chs s)[a := ch])"
    using tw assms(2,3) True
    by (auto simp: table_wf_def entry_ok_def nth_list_update
        dest!: set_update_subset_insert [THEN subsetD])
  with assms show ?thesis by (simp add: session_wf_def)
next
  case False
  with assms show ?thesis by (simp add: session_wf_def list_update_beyond)
qed

lemma poll_read_channel:
  assumes "poll_read B D st ch ss n = ((st', ch', ss'), r)"
  shows "capacity D ch' = capacity D ch \<and> senders_gone D ch' = senders_gone D ch \<and>
         receivers_gone D ch' = receivers_gone D ch \<and>
         (contents D ch' = contents D ch \<or> (\<exists>c. contents D ch = c # contents D ch')) \<and>
         closed ss' = closed ss \<and> die_notified ss' = die_notified ss \<and>
         data_received ss' = data_received ss \<and> stream_id st' = stream_id st \<and>
         data_rx st' = data_rx st \<and> write_closed_flag st' = write_closed_flag st"
proof -
  have recv: "?thesis" if "poll_read_recv B D st ch ss n = ((st', ch', ss'), r)"
    using that
    by (cases rule: data.recv_cases [of ch])
      (auto simp: poll_read_recv_def Let_def split: if_splits prod.splits)
  show ?thesis
    using assms recv by (auto simp: poll_read_def Let_def split: if_splits option.splits prod.splits)
qed

lemma session_wf_read:
  assumes "session_wf D A s"
    and "poll_read B D st (data_chs s ! data_rx st) (shared s) n = ((st', ch, ss), r)"
  shows "session_wf D A (s\<lparr>data_chs := (data_chs s)[data_rx st := ch], shared := ss\<rparr>)"
  using poll_read_channel [OF assms(2)]
  by (intro session_wf_channel [OF assms(1)]) (auto simp: no_empty_chunk_def)

lemma session_wf_drop:
  assumes "session_wf D A s"
  shows "session_wf D A (drop_stream F D st s)"
proof -
  obtain fc ch where "stream_drop F D st (frame_ch s) (data_chs s ! data_rx st) = (fc, ch)" by fastforce
  then show ?thesis
    by (intro session_wf_channel [OF assms, where a = "data_rx st" and ch = ch])
      (auto simp: drop_stream_def stream_drop_def data.drop_receiver_laws no_empty_chunk_def
        split: prod.splits)
qed

lemma drop_stream_fields [simp]:
  "shared (drop_stream F D st s) = shared s" "is_client (drop_stream F D st s) = is_client s"
  "next_id (drop_stream F D st s) = next_id s" "accept_ch (drop_stream F D st s) = accept_ch s"
  "streams (drop_stream F D st s) = streams s"
  "session_config (drop_stream F D st s) = session_config s"
  by (simp_all add: drop_stream_def split: prod.splits)

end

context session_env
begin

lemma open_stream_ok:
  assumes "session_wf D A s" "\<not> is_closed (shared s)" "snd (next_stream_id s) = Inr sid"
    and "\<not> receivers_gone F (frame_ch s)" "has_room F (frame_ch s)"
  shows "\<exists>s'. open_stream F D s = (s', Ready (Inr (stream_new sid (length (data_chs s))))) \<and>
           contents F (frame_ch s') =
             contents F (frame_ch s) @ [new_syn (config_version (session_config s)) sid] \<and>
           streams s' sid = Some (stream_state_new (length (data_chs s))) \<and>
           table_of D s' = (table_of D s)(sid \<mapsto> Some []) \<and>
           next_id s' = next_id s + 2 \<and> session_wf D A s'"
  using assms(1)
proof (cases rule: open_stream_prepare_cases)
  case (opened s' sid')
  let ?f = "new_syn (config_version (session_config s)) sid"
  obtain fc r where t: "try_send F (frame_ch s) ?f = (fc, r)" by fastforce
  with frames.send_room [of "frame_ch s" ?f] assms(4,5)
  have "r = Sent" "contents F fc = contents F (frame_ch s) @ [?f]" by simp_all
  with t opened assms(3) have "open_stream F D s =
      (s'\<lparr>frame_ch := fc\<rparr>, Ready (Inr (stream_new sid (length (data_chs s)))))"
    by (simp add: open_stream_def open_stream_send_def send_async_def stream_new_def)
  moreover have "table_of D (s'\<lparr>frame_ch := fc\<rparr>) = table_of D s'" by (rule table_of_cong) simp_all
  moreover have "session_wf D A (s'\<lparr>frame_ch := fc\<rparr>)"
    using opened(4) by (simp add: session_wf_def)
  ultimately show ?thesis
    using opened assms(3) \<open>contents F fc = _\<close> by (intro exI [of _ "s'\<lparr>frame_ch := fc\<rparr>"]) simp
qed (use assms in auto)

lemma open_stream_disconnected:
  assumes "session_wf D A s" "\<not> is_closed (shared s)" "snd (next_stream_id s) = Inr sid"
    and "receivers_gone F (frame_ch s)"
  shows "\<exists>s'. open_stream F D s = (s', Ready (Inl SessionClosed)) \<and>
           table_of D s' sid = Some None \<and> session_wf D A s'"
  using assms(1)
proof (cases rule: open_stream_prepare_cases)
  case (opened s' sid')
  let ?st = "stream_new sid (length (data_chs s))"
  let ?s = "drop_stream F D ?st s'"
  have same: "s'\<lparr>frame_ch := frame_ch s\<rparr> = s'" using opened(9) by (cases s') simp
  have "open_stream F D s =
      (drop_stream F D ?st (s'\<lparr>frame_ch := frame_ch s\<rparr>), Ready (Inl SessionClosed))"
    using opened assms(3,4)
    by (simp add: open_stream_def open_stream_send_def send_async_def frames.send_disconnected)
  then have "open_stream F D s = (?s, Ready (Inl SessionClosed))" unfolding same .
  moreover have "table_of D ?s sid = Some None"
    using opened assms(3)
    by (auto simp: table_of_def entry_view_def stream_state_new_def stream_new_def drop_stream_def
        stream_drop_def data.drop_receiver_laws Let_def split: prod.splits)
  ultimately show ?thesis using session_wf_drop [OF opened(4)] by blast
qed (use assms in auto)

lemma accept_stream_exact:
  assumes "session_wf D A s" "accept_stream A woken first s = (s', r)"
  shows "(\<forall>st. r = Ready (Inr st) \<longrightarrow>
            contents A (accept_ch s) = st # contents A (accept_ch s') \<and>
            s' = s\<lparr>accept_ch := accept_ch s'\<rparr>) \<and>
         ((\<forall>st. r \<noteq> Ready (Inr st)) \<longrightarrow> s' = s) \<and>
         (r = Pending \<longleftrightarrow>
            \<not> closed (shared s) \<and> \<not> woken \<and> contents A (accept_ch s) = []) \<and>
         (closed (shared s) \<or> contents A (accept_ch s) = [] \<and> woken \<longrightarrow>
            r = Ready (Inl SessionClosed)) \<and> session_wf D A s'"
proof -
  have "accept_wf A (accept_ch s)" using assms(1) by (simp add: session_wf_def)
  then have "(r = Pending \<longleftrightarrow>
            \<not> closed (shared s) \<and> \<not> woken \<and> contents A (accept_ch s) = []) \<and>
         (closed (shared s) \<or> contents A (accept_ch s) = [] \<and> woken \<longrightarrow>
            r = Ready (Inl SessionClosed))"
    using assms(2)
    by (cases rule: accept.recv_cases [of "accept_ch s"])
      (auto simp: accept_stream_def accept_select_def is_closed_def accept_wf_def split: if_splits)
  moreover have "(s', r) = (s, Ready (Inl SessionClosed)) \<or> accept_select A woken first s = (s', r)"
    using assms(2) by (auto simp: accept_stream_def split: if_splits)
  ultimately show ?thesis using assms(1) accept_select_cases [OF assms(1), of woken first s' r] by auto
qed

end

interpretation lse: session_env list_bytes list_chan list_chan list_chan
  by unfold_locales

lemma session_wf_demo: "session_wf list_chan list_chan (session_new list_chan list_chan config_default c)"
  by (rule lse.session_wf_new)

lemmas session_run_simps =
  stream_run_simps session_new_def stream_state_new_def alloc_channel_def insert_stream_def

section \<open>Properties\<close>

text \<open>
  C18. Refinement: handling any frame keeps the session well formed and does to the table exactly the
  abstract step: SYN opens an empty stream under an unused identifier of the peer's parity, PSH
  appends its chunk to its stream or removes a stream that nobody reads, FIN removes the entry,
  everything else changes nothing, and so no frame touches any other stream. For a data frame this
  needs a positive token balance; without one the handler is suspended.
\<close>

lemma handle_frame_refines_table:
  assumes "session_env B F D A" "session_wf D A s"
    and "frame_cmd f = Psh \<longrightarrow> 0 < sint (get_tokens (shared s))"
    and "handle_frame F D A f s = (s', out)"
  shows "session_wf D A s' \<and> table_of D s' = spec_frame (is_client s) f (table_of D s) \<and>
         (sid \<noteq> frame_stream_id f \<longrightarrow> table_of D s' sid = table_of D s sid)"
proof -
  have "session_wf D A s' \<and> table_of D s' = spec_frame (is_client s) f (table_of D s)"
    using session_env.handle_frame_refines [OF assms(1,2) _ assms(4)] assms(3)
    by (simp add: token_balance_def get_tokens_def)
  then show ?thesis
    by (auto simp: spec_frame_def Let_def simp del: table_of_None_iff
        split: command.splits option.splits)
qed

lemma handle_frame_refines_table_witness:
  "table_of list_chan (fst (handle_frame list_chan list_chan list_chan (new_syn 1 3)
      (session_new list_chan list_chan config_default False))) 3 = Some (Some [])"
proof -
  let ?s = "session_new list_chan list_chan config_default False :: (frame lchan, bytes lchan, stream lchan) session_inner"
  obtain s' out where run: "handle_frame list_chan list_chan list_chan (new_syn 1 3) ?s = (s', out)"
    by fastforce
  have "table_of list_chan ?s 3 = None" by (simp add: table_of_def session_new_def)
  with handle_frame_refines_table [OF lse.session_env_axioms session_wf_demo _ run] run
  show ?thesis
    by (simp add: frame_new_defs spec_frame_def peer_id_def session_new_def del: table_of_None_iff)
qed

text \<open>
  A SYN, on every branch: an identifier of the wrong parity or zero and an identifier in use are
  refused with their error and nothing changes; otherwise a new entry and a new stream share a fresh
  channel, and the stream is in the accept queue, or, when the 16 places of the queue are taken, the
  handler is suspended with the entry already in the table.
\<close>

lemma handle_syn_correct:
  assumes "session_env B F D A" "session_wf D A s" "frame_cmd f = Syn"
    and "handle_frame F D A f s = (s', out)" "sid = frame_stream_id f" "a = length (data_chs s)"
  shows "if \<not> peer_id (is_client s) sid then s' = s \<and> out = Done (Inl (InvalidStreamId sid))
         else if streams s sid \<noteq> None then s' = s \<and> out = Done (Inl (StreamAlreadyExists sid))
         else streams s' = (streams s)(sid \<mapsto> stream_state_new a) \<and>
              data_chs s' = data_chs s @ [unbounded D] \<and>
              (if length (contents A (accept_ch s)) < 16
               then contents A (accept_ch s') = contents A (accept_ch s) @ [stream_new sid a] \<and>
                    out = Done (Inr ())
               else accept_ch s' = accept_ch s \<and> out = Await_accept (stream_new sid a))"
proof -
  have run: "handle_syn_frame F D A f s = (s', out)"
    using assms(3,4) by (simp add: handle_frame_def)
  have room: "has_room A (accept_ch s) \<longleftrightarrow> length (contents A (accept_ch s)) < 16"
    using assms(2) by (simp add: session_wf_def accept_wf_def has_room_def)
  show ?thesis
    by (rule session_env.handle_syn_cases [OF assms(1,2), of f])
      (use run room assms(5,6) in \<open>auto split: if_splits\<close>)
qed

lemma handle_syn_correct_witness:
  "snd (handle_frame list_chan list_chan list_chan (new_syn 1 4)
      (session_new list_chan list_chan config_default False)) = Done (Inl (InvalidStreamId 4))"
proof -
  let ?s = "session_new list_chan list_chan config_default False :: (frame lchan, bytes lchan, stream lchan) session_inner"
  obtain s' out where run: "handle_frame list_chan list_chan list_chan (new_syn 1 4) ?s = (s', out)"
    by fastforce
  from handle_syn_correct [OF lse.session_env_axioms session_wf_demo _ run, of 4 "length (data_chs ?s)"] run
  show ?thesis by (simp add: frame_new_defs peer_id_def session_new_def)
qed

text \<open>
  C36. Opening a stream, when there is an identifier left and room in the frame channel: the stream carries
  the next identifier, its SYN is the last frame of the channel, its entry is in the table over a
  fresh empty channel that the stream reads from, and the session stays well formed.
\<close>

lemma open_stream_correct:
  assumes "session_env B F D A" "session_wf D A s" "\<not> session_is_closed s"
    and "snd (next_stream_id s) = Inr sid" "\<not> receivers_gone F (frame_ch s)" "has_room F (frame_ch s)"
  shows "\<exists>s'. open_stream F D s = (s', Ready (Inr (stream_new sid (length (data_chs s))))) \<and>
           contents F (frame_ch s') =
             contents F (frame_ch s) @ [new_syn (config_version (session_config s)) sid] \<and>
           streams s' sid = Some (stream_state_new (length (data_chs s))) \<and>
           table_of D s' = (table_of D s)(sid \<mapsto> Some []) \<and>
           next_id s' = next_id s + 2 \<and> session_wf D A s'"
  by (rule session_env.open_stream_ok [OF assms(1,2) _ assms(4-6)])
    (use assms(3) in \<open>simp add: session_is_closed_def is_closed_def\<close>)

lemma open_stream_correct_witness:
  "\<exists>s'. open_stream list_chan list_chan
       (session_new list_chan list_chan config_default True
         :: (frame lchan, bytes lchan, stream lchan) session_inner) =
       (s', Ready (Inr (stream_new 1 0))) \<and> lc_queue (frame_ch s') = [new_syn 1 1]"
  using open_stream_correct [OF lse.session_env_axioms session_wf_demo, of True 1]
  by (auto simp: session_run_simps session_is_closed_def is_closed_def next_stream_id_def)

text \<open>
  When the frame channel is disconnected, because the send task has returned, opening fails with the
  session-closed error and the stream is dropped, but its entry stays in the table, as an entry that
  nobody reads.
\<close>

lemma open_stream_failure_leaves_entry:
  assumes "session_env B F D A" "session_wf D A s" "\<not> session_is_closed s"
    and "snd (next_stream_id s) = Inr sid" "receivers_gone F (frame_ch s)"
  shows "\<exists>s'. open_stream F D s = (s', Ready (Inl SessionClosed)) \<and>
           table_of D s' sid = Some None \<and> session_wf D A s'"
  by (rule session_env.open_stream_disconnected [OF assms(1,2) _ assms(4,5)])
    (use assms(3) in \<open>simp add: session_is_closed_def is_closed_def\<close>)

lemma open_stream_failure_leaves_entry_witness:
  "\<exists>s'. open_stream list_chan list_chan
       ((session_new list_chan list_chan config_default True
         :: (frame lchan, bytes lchan, stream lchan) session_inner)
        \<lparr>frame_ch := lc_new (Some 4)\<lparr>lc_receivers_gone := True\<rparr>\<rparr>) =
       (s', Ready (Inl SessionClosed)) \<and> table_of list_chan s' 1 = Some None"
proof -
  let ?s = "(session_new list_chan list_chan config_default True
         :: (frame lchan, bytes lchan, stream lchan) session_inner)
        \<lparr>frame_ch := lc_new (Some 4)\<lparr>lc_receivers_gone := True\<rparr>\<rparr>"
  have "session_wf list_chan list_chan ?s"
    using session_wf_demo [of True] by (simp add: session_wf_def)
  from open_stream_failure_leaves_entry [OF lse.session_env_axioms this, of 1] show ?thesis
    by (auto simp: session_run_simps session_is_closed_def is_closed_def next_stream_id_def)
qed

text \<open>
  Accepting: a stream is handed out exactly when the session is open and the queue is not empty (and
  the notification of a close has not been preferred); it is the oldest of the queue, and nothing else
  of the session changes.
\<close>

lemma accept_stream_correct:
  assumes "session_env B F D A" "session_wf D A s" "accept_stream A woken first s = (s', r)"
  shows "(\<forall>st. r = Ready (Inr st) \<longrightarrow>
            contents A (accept_ch s) = st # contents A (accept_ch s') \<and>
            s' = s\<lparr>accept_ch := accept_ch s'\<rparr>) \<and>
         ((\<forall>st. r \<noteq> Ready (Inr st)) \<longrightarrow> s' = s) \<and>
         (r = Pending \<longleftrightarrow>
            \<not> session_is_closed s \<and> \<not> woken \<and> contents A (accept_ch s) = []) \<and>
         (session_is_closed s \<or> contents A (accept_ch s) = [] \<and> woken \<longrightarrow>
            r = Ready (Inl SessionClosed)) \<and> session_wf D A s'"
  using session_env.accept_stream_exact [OF assms]
  by (simp add: session_is_closed_def is_closed_def)

lemma accept_stream_correct_witness:
  "\<exists>s'. accept_stream list_chan False False
       ((session_new list_chan list_chan config_default False
         :: (frame lchan, bytes lchan, stream lchan) session_inner)
        \<lparr>accept_ch := chan_with (Some 16) [stream_new 3 0, stream_new 5 1] False\<rparr>) =
       (s', Ready (Inr (stream_new 3 0))) \<and> lc_queue (accept_ch s') = [stream_new 5 1]"
proof -
  let ?s = "(session_new list_chan list_chan config_default False
         :: (frame lchan, bytes lchan, stream lchan) session_inner)
        \<lparr>accept_ch := chan_with (Some 16) [stream_new 3 0, stream_new 5 1] False\<rparr>"
  have wf: "session_wf list_chan list_chan ?s"
    using session_wf_demo [of False]
    by (simp add: session_wf_def accept_wf_def list_chan_simps chan_with_def)
  obtain s' r where run: "accept_stream list_chan False False ?s = (s', r)" by fastforce
  then have "r = Ready (Inr (stream_new 3 0))"
    by (auto simp: accept_stream_def accept_select_def session_new_def session_state_new_def is_closed_def
        list_chan_simps chan_with_def)
  with accept_stream_correct [OF lse.session_env_axioms wf run] run show ?thesis
    by (simp add: list_chan_simps chan_with_def)
qed

text \<open>
  Waiting for tokens takes them again and again: on a balance that is not positive the handler takes
  the frame's length from the counter at every check, also at the ones after a wake-up that found too
  few tokens, while a close gives the length back once.
\<close>

lemma psh_wait_takes_again:
  assumes "frame_cmd f = Psh" "frame_data f \<noteq> []" "sint (get_tokens (shared s)) \<le> 0"
    and "handle_frame F D A f s = (s1, out1)" "s2 = s1\<lparr>shared := return_tokens n (shared s1)\<rparr>"
    and "sint (get_tokens (shared s2)) \<le> 0" "psh_loop D f s2 = (s3, out3)"
    and "psh_abandon f s3 = (s4, out4)"
  shows "out1 = Await_tokens f \<and> out3 = Await_tokens f \<and>
         get_tokens (shared s4) =
           get_tokens (shared s) + word_of_nat n - word_of_nat (length (frame_data f))"
proof -
  have "s1 = s\<lparr>shared := fst (take_tokens (length (frame_data f)) (shared s))\<rparr>"
    "out1 = Await_tokens f"
    using assms(1-4)
    by (auto simp: handle_frame_def handle_psh_frame_def psh_loop_def Let_def split: prod.splits)
  moreover have "s3 = s2\<lparr>shared := fst (take_tokens (length (frame_data f)) (shared s2))\<rparr>"
    "out3 = Await_tokens f"
    using assms(6,7) by (auto simp: psh_loop_def Let_def split: prod.splits)
  ultimately show ?thesis
    using assms(5,8) by (auto simp: psh_abandon_def take_tokens_def get_tokens_def Let_def)
qed

lemma psh_wait_takes_again_witness:
  "\<exists>s s1 s3 s4 :: (frame lchan, bytes lchan, stream lchan) session_inner.
     get_tokens (shared s) = 0 \<and>
     handle_frame list_chan list_chan list_chan (new_psh 1 3 [7, 8]) s =
       (s1, Await_tokens (new_psh 1 3 [7, 8])) \<and>
     psh_loop list_chan (new_psh 1 3 [7, 8]) (s1\<lparr>shared := return_tokens 0 (shared s1)\<rparr>) =
       (s3, Await_tokens (new_psh 1 3 [7, 8])) \<and>
     fst (psh_abandon (new_psh 1 3 [7, 8]) s3) = s4 \<and> get_tokens (shared s4) = - 2"
proof -
  define s :: "(frame lchan, bytes lchan, stream lchan) session_inner" where
    "s = session_new list_chan list_chan (config_default\<lparr>max_receive_buffer := 0\<rparr>) False"
  let ?f = "new_psh 1 3 [7, 8]"
  obtain s1 out1 where r1: "handle_frame list_chan list_chan list_chan ?f s = (s1, out1)" by fastforce
  define s2 where "s2 = s1\<lparr>shared := return_tokens 0 (shared s1)\<rparr>"
  obtain s3 out3 where r3: "psh_loop list_chan ?f s2 = (s3, out3)" by fastforce
  obtain s4 out4 where r4: "psh_abandon ?f s3 = (s4, out4)" by fastforce
  have s: "get_tokens (shared s) = 0"
    by (simp add: s_def session_new_def session_state_new_def get_tokens_def)
  with r1 have "get_tokens (shared s2) = - 2"
    by (auto simp: s2_def handle_frame_def handle_psh_frame_def psh_loop_def take_tokens_def
        get_tokens_def frame_new_defs Let_def)
  then have "out1 = Await_tokens ?f \<and> out3 = Await_tokens ?f \<and> get_tokens (shared s4) =
      get_tokens (shared s) + word_of_nat 0 - word_of_nat (length (frame_data ?f))"
    by (intro psh_wait_takes_again [OF _ _ _ r1 s2_def _ r3 r4]) (simp_all add: s frame_new_defs)
  with s r1 r3 r4 s2_def show ?thesis
    by (intro exI [of _ s] exI [of _ s1] exI [of _ s3] exI [of _ s4]) (simp add: frame_new_defs)
qed

end
