(* ===== verification/Tasks.thy ===== *)
theory Tasks
  imports Demux
begin

text \<open>
  The three background tasks of \<open>src/src/session.rs\<close>, \<open>recv_loop\<close>, \<open>send_loop\<close> and \<open>keep_alive_loop\<close>, and
  the application, as one system whose steps interleave. A task is a control point; a step runs it from
  one suspension point to the next, and the two places where a window between two accesses matters
  (before the futures of a \<open>select!\<close> are created) are control points of their own.

  \<open>Notify::notify_waiters\<close> wakes the futures that \<open>notified()\<close> has created before the call and leaves no
  permit behind. A waiting task therefore carries the number of calls it had seen when it created its
  future, and is woken when there have been more.

  The transport and the clock are the environment: a frame may arrive, the transport may end or fail,
  and an interval may tick, at any moment at which the task waits for it. The theory \<open>Clocks\<close> adds the
  moments at which the intervals really tick.
\<close>

section \<open>The receive task\<close>

datatype recv_pc =
    R_top                     \<comment> \<open>before the \<open>select!\<close> of the loop\<close>
  | R_select nat              \<comment> \<open>in the \<open>select!\<close>, with the count of close notifications seen\<close>
  | R_accept stream           \<comment> \<open>in \<open>handle_syn_frame\<close>, sending to the accept channel\<close>
  | R_wait frame              \<comment> \<open>in \<open>handle_psh_frame\<close>, before its \<open>select!\<close>\<close>
  | R_tokens frame nat nat    \<comment> \<open>in that \<open>select!\<close>, with both counts seen\<close>
  | R_data frame              \<comment> \<open>in \<open>handle_psh_frame\<close>, sending to a data channel\<close>
  | R_done

fun recv_after :: "outcome \<Rightarrow> recv_pc" where
  "recv_after (Done r) = R_top"
| "recv_after (Await_accept st) = R_accept st"
| "recv_after (Await_tokens f) = R_wait f"
| "recv_after (Await_data f) = R_data f"

definition recv_frame ::
    "('fc, frame) flume_api \<Rightarrow> ('dc, bytes) flume_api \<Rightarrow> ('ac, stream) flume_api \<Rightarrow> frame
     \<Rightarrow> ('fc, 'dc, 'ac) session_inner \<Rightarrow> ('fc, 'dc, 'ac) session_inner \<times> outcome" where
  "recv_frame F D A f s =
     (let s = s\<lparr>shared := mark_data_received (shared s)\<rparr> in handle_frame F D A f s)"

definition recv_end :: "('fc, 'dc, 'ac) session_inner \<Rightarrow> ('fc, 'dc, 'ac) session_inner" where
  "recv_end s = s\<lparr>shared := close (shared s)\<rparr>"

section \<open>The send task\<close>

text \<open>
  The task owns the receiver of the frame channel and drops it when it returns, after it has closed
  the session.
\<close>

datatype send_pc = S_top | S_select nat | S_sending frame | S_exit | S_done

definition send_end :: "('fc, 'dc, 'ac) session_inner \<Rightarrow> ('fc, 'dc, 'ac) session_inner" where
  "send_end s = s\<lparr>shared := close (shared s)\<rparr>"

definition send_return ::
    "('fc, frame) flume_api \<Rightarrow> ('fc, 'dc, 'ac) session_inner \<Rightarrow> ('fc, 'dc, 'ac) session_inner" where
  "send_return F s = s\<lparr>frame_ch := drop_receiver F (frame_ch s)\<rparr>"

section \<open>The keep-alive task\<close>

text \<open>
  The task returns at once when keep-alive is off. It then makes two intervals, and \<open>tokio\<close>'s \<open>interval\<close>
  panics on a period of zero, which also ends the task and nothing else.
\<close>

datatype keep_pc = K_top | K_select nat | K_ping frame | K_done

definition keep_start :: "config \<Rightarrow> keep_pc" where
  "keep_start cfg =
     (if \<not> enable_keep_alive cfg then K_done
      else if keep_alive_interval cfg = 0 \<or> keep_alive_timeout cfg = 0 then K_done
      else K_top)"

text \<open>A tick of the timeout interval: the state afterwards and whether the task stops.\<close>

definition keep_timeout :: "session_state \<Rightarrow> session_state \<times> bool" where
  "keep_timeout ss =
     (let (ss, received) = check_and_reset_data_received ss in
      if \<not> received then
        (let available_tokens = get_tokens ss in
         if sint available_tokens > 0 then (close ss, True) else (ss, False))
      else (ss, False))"

section \<open>The system\<close>

text \<open>A call of \<open>accept_stream\<close> that has passed its check: before its \<open>select!\<close>, and in it.\<close>

datatype accept_pc = A_top | A_select nat

text \<open>
  \<open>wire\<close> is what the send task has handed to the transport; \<open>pending_opens\<close> are the streams of \<open>open_stream\<close> calls
  that are suspended in their send, \<open>accepting\<close> the unfinished calls of \<open>accept_stream\<close>, and \<open>handles\<close> the streams that the application holds, each with
  whether a call of its \<open>close\<close> is suspended.
\<close>

record ('fc, 'dc, 'ac) system =
  inner :: "('fc, 'dc, 'ac) session_inner"
  recv_at :: recv_pc
  send_at :: send_pc
  keep_at :: keep_pc
  wire :: bytes
  pending_opens :: "stream list"
  accepting :: "accept_pc list"
  handles :: "(stream \<times> bool) list"

definition system_new ::
    "('fc, frame) flume_api \<Rightarrow> ('ac, stream) flume_api \<Rightarrow> config \<Rightarrow> bool
     \<Rightarrow> ('fc, 'dc, 'ac) system" where
  "system_new F A cfg client =
     \<lparr>inner = session_new F A cfg client,
      recv_at = R_top, send_at = S_top, keep_at = keep_start cfg,
      wire = [], pending_opens = [], accepting = [], handles = []\<rparr>"

definition remove_nth :: "nat \<Rightarrow> 'a list \<Rightarrow> 'a list" where
  "remove_nth i xs = take i xs @ drop (Suc i) xs"

text \<open>
  What a step shows to the outside: a frame that arrives or departs, the clock, an identifier that
  \<open>open_stream\<close> takes, the size and the result of a read, the bytes that a write accepted, a call of
  the session's \<open>close\<close>, a stream that is accepted, one that is dropped.
\<close>

datatype event =
    Internal
  | Arrives frame
  | Departs frame
  | Transport_fails
  | Ping_tick
  | Timeout_tick
  | Opens u32
  | Reads u32 nat "(io_error + bytes) poll"
  | Writes u32 bytes
  | Closes
  | Accepts u32
  | Drops u32
  | App

fun accepted_bytes :: "bytes \<Rightarrow> (io_error + nat) poll \<Rightarrow> bytes" where
  "accepted_bytes buf (Ready (Inr n)) = take n buf"
| "accepted_bytes buf r = []"

inductive recv_step ::
    "('fc, frame) flume_api \<Rightarrow> ('dc, bytes) flume_api \<Rightarrow> ('ac, stream) flume_api
     \<Rightarrow> ('fc, 'dc, 'ac) system \<Rightarrow> event \<Rightarrow> ('fc, 'dc, 'ac) system \<Rightarrow> bool"
  for F :: "('fc, frame) flume_api" and D :: "('dc, bytes) flume_api"
    and A :: "('ac, stream) flume_api" where
  recv_top:
    "recv_at s = R_top \<Longrightarrow>
     recv_step F D A s Internal (s\<lparr>recv_at := R_select (die_notified (shared (inner s)))\<rparr>)"
| recv_arrives:
    "\<lbrakk>recv_at s = R_select g; recv_frame F D A f (inner s) = (i, out)\<rbrakk> \<Longrightarrow>
     recv_step F D A s (Arrives f) (s\<lparr>inner := i, recv_at := recv_after out\<rparr>)"
| recv_fails:
    "recv_at s = R_select g \<Longrightarrow>
     recv_step F D A s Transport_fails (s\<lparr>inner := recv_end (inner s), recv_at := R_done\<rparr>)"
| recv_closed:
    "\<lbrakk>recv_at s = R_select g; g < die_notified (shared (inner s))\<rbrakk> \<Longrightarrow>
     recv_step F D A s Internal (s\<lparr>inner := recv_end (inner s), recv_at := R_done\<rparr>)"
| recv_accept:
    "\<lbrakk>recv_at s = R_accept st; syn_send F D A st (inner s) = (i, out)\<rbrakk> \<Longrightarrow>
     recv_step F D A s Internal (s\<lparr>inner := i, recv_at := recv_after out\<rparr>)"
| recv_wait:
    "recv_at s = R_wait f \<Longrightarrow>
     recv_step F D A s Internal
       (s\<lparr>recv_at := R_tokens f (tokens_returned_notified (shared (inner s)))
                         (die_notified (shared (inner s)))\<rparr>)"
| recv_tokens:
    "\<lbrakk>recv_at s = R_tokens f g h; g < tokens_returned_notified (shared (inner s));
      psh_loop D f (inner s) = (i, out)\<rbrakk> \<Longrightarrow>
     recv_step F D A s Internal (s\<lparr>inner := i, recv_at := recv_after out\<rparr>)"
| recv_abandon:
    "\<lbrakk>recv_at s = R_tokens f g h; h < die_notified (shared (inner s));
      psh_abandon f (inner s) = (i, out)\<rbrakk> \<Longrightarrow>
     recv_step F D A s Internal (s\<lparr>inner := i, recv_at := recv_after out\<rparr>)"
| recv_data:
    "\<lbrakk>recv_at s = R_data f; psh_deliver D f (inner s) = (i, out)\<rbrakk> \<Longrightarrow>
     recv_step F D A s Internal (s\<lparr>inner := i, recv_at := recv_after out\<rparr>)"

inductive send_step ::
    "bytes_api \<Rightarrow> ('fc, frame) flume_api
     \<Rightarrow> ('fc, 'dc, 'ac) system \<Rightarrow> event \<Rightarrow> ('fc, 'dc, 'ac) system \<Rightarrow> bool"
  for B :: bytes_api and F :: "('fc, frame) flume_api" where
  send_top:
    "send_at s = S_top \<Longrightarrow>
     send_step B F s Internal (s\<lparr>send_at := S_select (die_notified (shared (inner s)))\<rparr>)"
| send_frame:
    "\<lbrakk>send_at s = S_select g; try_recv F (frame_ch (inner s)) = (fc, Received f)\<rbrakk> \<Longrightarrow>
     send_step B F s Internal (s\<lparr>inner := (inner s)\<lparr>frame_ch := fc\<rparr>, send_at := S_sending f\<rparr>)"
| send_none:
    "\<lbrakk>send_at s = S_select g; try_recv F (frame_ch (inner s)) = (fc, RecvDisconnected)\<rbrakk> \<Longrightarrow>
     send_step B F s Internal
       (s\<lparr>inner := send_end ((inner s)\<lparr>frame_ch := fc\<rparr>), send_at := S_exit\<rparr>)"
| send_closed:
    "\<lbrakk>send_at s = S_select g; g < die_notified (shared (inner s))\<rbrakk> \<Longrightarrow>
     send_step B F s Internal (s\<lparr>inner := send_end (inner s), send_at := S_exit\<rparr>)"
| send_write:
    "\<lbrakk>send_at s = S_sending f;
      encode B (codec_new (session_config (inner s))) f [] = (bs, Inr ())\<rbrakk> \<Longrightarrow>
     send_step B F s (Departs f) (s\<lparr>wire := wire s @ bs, send_at := S_top\<rparr>)"
| send_refused:
    "\<lbrakk>send_at s = S_sending f;
      encode B (codec_new (session_config (inner s))) f [] = (bs, Inl e)\<rbrakk> \<Longrightarrow>
     send_step B F s Internal (s\<lparr>inner := send_end (inner s), send_at := S_exit\<rparr>)"
| send_fails:
    "send_at s = S_sending f \<Longrightarrow>
     send_step B F s Transport_fails (s\<lparr>inner := send_end (inner s), send_at := S_exit\<rparr>)"
| send_returns:
    "send_at s = S_exit \<Longrightarrow>
     send_step B F s Internal (s\<lparr>inner := send_return F (inner s), send_at := S_done\<rparr>)"

inductive keep_step ::
    "('fc, frame) flume_api \<Rightarrow> ('fc, 'dc, 'ac) system \<Rightarrow> event \<Rightarrow> ('fc, 'dc, 'ac) system \<Rightarrow> bool"
  for F :: "('fc, frame) flume_api" where
  keep_top:
    "keep_at s = K_top \<Longrightarrow>
     keep_step F s Internal (s\<lparr>keep_at := K_select (die_notified (shared (inner s)))\<rparr>)"
| keep_ping:
    "keep_at s = K_select g \<Longrightarrow>
     keep_step F s Ping_tick
       (s\<lparr>keep_at := K_ping (new_nop (config_version (session_config (inner s))))\<rparr>)"
| keep_sends:
    "\<lbrakk>keep_at s = K_ping f; send_async F (frame_ch (inner s)) f = (fc, Ready sent)\<rbrakk> \<Longrightarrow>
     keep_step F s Internal
       (s\<lparr>inner := (inner s)\<lparr>frame_ch := fc\<rparr>, keep_at := (if sent then K_top else K_done)\<rparr>)"
| keep_ticks:
    "\<lbrakk>keep_at s = K_select g; keep_timeout (shared (inner s)) = (ss, stop)\<rbrakk> \<Longrightarrow>
     keep_step F s Timeout_tick
       (s\<lparr>inner := (inner s)\<lparr>shared := ss\<rparr>, keep_at := (if stop then K_done else K_top)\<rparr>)"
| keep_closed:
    "\<lbrakk>keep_at s = K_select g; g < die_notified (shared (inner s))\<rbrakk> \<Longrightarrow>
     keep_step F s Internal (s\<lparr>keep_at := K_done\<rparr>)"

text \<open>
  The application: it opens, accepts and closes, and reads, writes, shuts down, closes and drops
  streams, in any order (\<open>apply_op\<close> is the shutting down and closing of a stream). An \<open>open_stream\<close>
  or \<open>accept_stream\<close> call may be cancelled while it is suspended.
\<close>

inductive app_step ::
    "bytes_api \<Rightarrow> ('fc, frame) flume_api \<Rightarrow> ('dc, bytes) flume_api \<Rightarrow> ('ac, stream) flume_api
     \<Rightarrow> ('fc, 'dc, 'ac) system \<Rightarrow> event \<Rightarrow> ('fc, 'dc, 'ac) system \<Rightarrow> bool"
  for B :: bytes_api and F :: "('fc, frame) flume_api" and D :: "('dc, bytes) flume_api"
    and A :: "('ac, stream) flume_api" where
  app_open:
    "open_stream_prepare D (inner s) = (i, Inr st) \<Longrightarrow>
     app_step B F D A s (Opens (stream_id st)) (s\<lparr>inner := i, pending_opens := pending_opens s @ [st]\<rparr>)"
| app_open_fails:
    "open_stream_prepare D (inner s) = (i, Inl e) \<Longrightarrow>
     app_step B F D A s App (s\<lparr>inner := i\<rparr>)"
| app_opened:
    "\<lbrakk>k < length (pending_opens s);
      open_stream_send F D (pending_opens s ! k) (inner s) = (i, Ready (Inr st))\<rbrakk> \<Longrightarrow>
     app_step B F D A s App
       (s\<lparr>inner := i, pending_opens := remove_nth k (pending_opens s), handles := handles s @ [(st, False)]\<rparr>)"
| app_open_refused:
    "\<lbrakk>k < length (pending_opens s);
      open_stream_send F D (pending_opens s ! k) (inner s) = (i, Ready (Inl e))\<rbrakk> \<Longrightarrow>
     app_step B F D A s (Drops (stream_id (pending_opens s ! k)))
       (s\<lparr>inner := i, pending_opens := remove_nth k (pending_opens s)\<rparr>)"
| app_open_cancel:
    "k < length (pending_opens s) \<Longrightarrow>
     app_step B F D A s (Drops (stream_id (pending_opens s ! k)))
       (s\<lparr>inner := drop_stream F D (pending_opens s ! k) (inner s), pending_opens := remove_nth k (pending_opens s)\<rparr>)"
| app_accept_call:
    "\<not> is_closed (shared (inner s)) \<Longrightarrow>
     app_step B F D A s App (s\<lparr>accepting := accepting s @ [A_top]\<rparr>)"
| app_accept_select:
    "\<lbrakk>k < length (accepting s); accepting s ! k = A_top\<rbrakk> \<Longrightarrow>
     app_step B F D A s App
       (s\<lparr>accepting := (accepting s)[k := A_select (die_notified (shared (inner s)))]\<rparr>)"
| app_accepted:
    "\<lbrakk>k < length (accepting s); accepting s ! k = A_select g;
      accept_select A (g < die_notified (shared (inner s))) first (inner s) = (i, Ready (Inr st))\<rbrakk>
     \<Longrightarrow>
     app_step B F D A s (Accepts (stream_id st))
       (s\<lparr>inner := i, accepting := remove_nth k (accepting s), handles := handles s @ [(st, False)]\<rparr>)"
| app_accept_ends:
    "\<lbrakk>k < length (accepting s); accepting s ! k = A_select g;
      accept_select A (g < die_notified (shared (inner s))) first (inner s) = (i, Ready (Inl e))\<rbrakk>
     \<Longrightarrow> app_step B F D A s App (s\<lparr>inner := i, accepting := remove_nth k (accepting s)\<rparr>)"
| app_accept_cancel:
    "k < length (accepting s) \<Longrightarrow>
     app_step B F D A s App (s\<lparr>accepting := remove_nth k (accepting s)\<rparr>)"
| app_close:
    "session_close (inner s) = (i, r) \<Longrightarrow> app_step B F D A s Closes (s\<lparr>inner := i\<rparr>)"
| app_read:
    "\<lbrakk>k < length (handles s); handles s ! k = (st, closing);
      poll_read B D st (data_chs (inner s) ! data_rx st) (shared (inner s)) n = ((st', ch, ss), r)\<rbrakk>
     \<Longrightarrow>
     app_step B F D A s (Reads (stream_id st) n r)
       (s\<lparr>inner := (inner s)\<lparr>data_chs := (data_chs (inner s))[data_rx st := ch], shared := ss\<rparr>,
          handles := (handles s)[k := (st', False)]\<rparr>)"
| app_write:
    "\<lbrakk>k < length (handles s); handles s ! k = (st, closing);
      poll_write F (session_config (inner s)) st (frame_ch (inner s)) (shared (inner s)) buf = (fc, r)\<rbrakk>
     \<Longrightarrow>
     app_step B F D A s (Writes (stream_id st) (accepted_bytes buf r))
       (s\<lparr>inner := (inner s)\<lparr>frame_ch := fc\<rparr>, handles := (handles s)[k := (st, False)]\<rparr>)"
| app_stream:
    "\<lbrakk>k < length (handles s); op \<in> {Op_shutdown, Op_close, Op_close_again};
      apply_op F (session_config (inner s)) (handles s ! k)
        (op, frame_ch (inner s), shared (inner s)) = (h, fc)\<rbrakk>
     \<Longrightarrow>
     app_step B F D A s App
       (s\<lparr>inner := (inner s)\<lparr>frame_ch := fc\<rparr>, handles := (handles s)[k := h]\<rparr>)"
| app_close_cancel:
    "\<lbrakk>k < length (handles s); handles s ! k = (st, True)\<rbrakk> \<Longrightarrow>
     app_step B F D A s App (s\<lparr>handles := (handles s)[k := (st, False)]\<rparr>)"
| app_drop:
    "k < length (handles s) \<Longrightarrow>
     app_step B F D A s (Drops (stream_id (fst (handles s ! k))))
       (s\<lparr>inner := drop_stream F D (fst (handles s ! k)) (inner s), handles := remove_nth k (handles s)\<rparr>)"

definition step ::
    "bytes_api \<Rightarrow> ('fc, frame) flume_api \<Rightarrow> ('dc, bytes) flume_api \<Rightarrow> ('ac, stream) flume_api
     \<Rightarrow> ('fc, 'dc, 'ac) system \<Rightarrow> event \<Rightarrow> ('fc, 'dc, 'ac) system \<Rightarrow> bool" where
  "step B F D A s e s' \<longleftrightarrow>
     recv_step F D A s e s' \<or> send_step B F s e s' \<or> keep_step F s e s' \<or> app_step B F D A s e s'"

inductive run ::
    "bytes_api \<Rightarrow> ('fc, frame) flume_api \<Rightarrow> ('dc, bytes) flume_api \<Rightarrow> ('ac, stream) flume_api
     \<Rightarrow> ('fc, 'dc, 'ac) system \<Rightarrow> event list \<Rightarrow> ('fc, 'dc, 'ac) system \<Rightarrow> bool"
  for B :: bytes_api and F :: "('fc, frame) flume_api" and D :: "('dc, bytes) flume_api"
    and A :: "('ac, stream) flume_api" where
  run_nil: "run B F D A s [] s"
| run_snoc: "\<lbrakk>run B F D A s es s'; step B F D A s' e s''\<rbrakk> \<Longrightarrow> run B F D A s (es @ [e]) s''"

text \<open>Only the keep-alive task takes a tick of the timeout.\<close>

inductive_cases recv_tickE: "recv_step F D A s Timeout_tick s'"
inductive_cases send_tickE: "send_step B F s Timeout_tick s'"
inductive_cases app_tickE: "app_step B F D A s Timeout_tick s'"
inductive_cases keep_tickE: "keep_step F s Timeout_tick s'"

lemma timeout_step: "step B F D A s Timeout_tick s' \<Longrightarrow> keep_step F s Timeout_tick s'"
  unfolding step_def by (auto elim: recv_tickE send_tickE app_tickE)

text \<open>Only the receive task takes a frame that arrives.\<close>

inductive_cases send_arrivesE: "send_step B F s (Arrives f) s'"
inductive_cases keep_arrivesE: "keep_step F s (Arrives f) s'"
inductive_cases app_arrivesE: "app_step B F D A s (Arrives f) s'"

lemma arrival_step: "step B F D A s (Arrives f) s' \<Longrightarrow> recv_step F D A s (Arrives f) s'"
  unfolding step_def by (auto elim: send_arrivesE keep_arrivesE app_arrivesE)

section \<open>The invariant of the system\<close>

lemma accept_select_fields:
  assumes "accept_select A woken first s = (s', r)"
  shows "shared s' = shared s" "frame_ch s' = frame_ch s" "session_config s' = session_config s"
    "is_client s' = is_client s"
  using assms by (auto simp: accept_select_def split: if_splits prod.splits recv_result.splits)

text \<open>
  The session is well formed; the close notification has gone out exactly when the session is closed;
  no task has seen more notifications than there were; a task that has ended has closed the session;
  the frame channel has the capacity of the configuration and always a sender, and its receiver is gone
  only when the send task has returned; a frame whose handler is suspended for tokens is a data frame, and no handler is
  ever suspended in the send to a data channel.
\<close>

definition notified_ok :: "session_state \<Rightarrow> bool" where
  "notified_ok ss \<longleftrightarrow> die_notified ss = (if closed ss then 1 else 0)"

definition recv_ok :: "recv_pc \<Rightarrow> session_state \<Rightarrow> bool" where
  "recv_ok pc ss =
     (case pc of
        R_select g \<Rightarrow> g \<le> die_notified ss
      | R_wait f \<Rightarrow> frame_cmd f = Psh \<and> frame_data f \<noteq> []
      | R_tokens f g h \<Rightarrow> frame_cmd f = Psh \<and> frame_data f \<noteq> []
      | R_data f \<Rightarrow> False
      | R_done \<Rightarrow> closed ss
      | _ \<Rightarrow> True)"

definition send_ok ::
    "('fc, frame) flume_api \<Rightarrow> send_pc \<Rightarrow> session_state \<Rightarrow> 'fc \<Rightarrow> bool" where
  "send_ok F pc ss fc \<longleftrightarrow>
     (\<forall>g. pc = S_select g \<longrightarrow> g \<le> die_notified ss) \<and>
     (pc \<in> {S_exit, S_done} \<longrightarrow> closed ss) \<and>
     (receivers_gone F fc \<longleftrightarrow> pc = S_done) \<and> \<not> senders_gone F fc"

definition keep_ok :: "keep_pc \<Rightarrow> session_state \<Rightarrow> bool" where
  "keep_ok pc ss \<longleftrightarrow> (\<forall>g. pc = K_select g \<longrightarrow> g \<le> die_notified ss)"

definition system_wf ::
    "('fc, frame) flume_api \<Rightarrow> ('dc, bytes) flume_api \<Rightarrow> ('ac, stream) flume_api
     \<Rightarrow> ('fc, 'dc, 'ac) system \<Rightarrow> bool" where
  "system_wf F D A s \<longleftrightarrow>
     session_wf D A (inner s) \<and> notified_ok (shared (inner s)) \<and>
     recv_ok (recv_at s) (shared (inner s)) \<and>
     send_ok F (send_at s) (shared (inner s)) (frame_ch (inner s)) \<and>
     keep_ok (keep_at s) (shared (inner s)) \<and>
     capacity F (frame_ch (inner s)) =
       Some (max_receive_channel_buffer_size (session_config (inner s)))"

text \<open>
  What a step may do to the shared parts: close the session, and change the frame channel's contents.
  Everything else in the invariant is about one task.
\<close>

definition shared_later :: "session_state \<Rightarrow> session_state \<Rightarrow> bool" where
  "shared_later ss ss' \<longleftrightarrow>
     (closed ss \<longrightarrow> closed ss') \<and> die_notified ss \<le> die_notified ss' \<and>
     (notified_ok ss \<longrightarrow> notified_ok ss')"

definition channel_later :: "('fc, frame) flume_api \<Rightarrow> 'fc \<Rightarrow> 'fc \<Rightarrow> bool" where
  "channel_later F fc fc' \<longleftrightarrow>
     capacity F fc' = capacity F fc \<and> (receivers_gone F fc' \<longleftrightarrow> receivers_gone F fc) \<and>
     (senders_gone F fc' \<longleftrightarrow> senders_gone F fc)"

lemma shared_later_refl [simp]: "shared_later ss ss"
  by (simp add: shared_later_def)

lemma shared_later_close [simp]: "shared_later ss (close ss)"
  by (auto simp: shared_later_def notified_ok_def close_def)

lemma shared_later_same:
  "\<lbrakk>closed ss' = closed ss; die_notified ss' = die_notified ss\<rbrakk> \<Longrightarrow> shared_later ss ss'"
  by (simp add: shared_later_def notified_ok_def)

lemma channel_later_refl [simp]: "channel_later F fc fc"
  by (simp add: channel_later_def)

lemma recv_ok_later: "\<lbrakk>recv_ok pc ss; shared_later ss ss'\<rbrakk> \<Longrightarrow> recv_ok pc ss'"
  by (auto simp: recv_ok_def shared_later_def split: recv_pc.splits)

lemma send_ok_later:
  "\<lbrakk>send_ok F pc ss fc; shared_later ss ss'; channel_later F fc fc'\<rbrakk> \<Longrightarrow> send_ok F pc ss' fc'"
  by (fastforce simp: send_ok_def shared_later_def channel_later_def)

lemma keep_ok_later: "\<lbrakk>keep_ok pc ss; shared_later ss ss'\<rbrakk> \<Longrightarrow> keep_ok pc ss'"
  by (fastforce simp: keep_ok_def shared_later_def)

text \<open>What one step does to the invariant and to the parts that everybody sees.\<close>

definition advances ::
    "('fc, frame) flume_api \<Rightarrow> ('dc, bytes) flume_api \<Rightarrow> ('ac, stream) flume_api
     \<Rightarrow> ('fc, 'dc, 'ac) system \<Rightarrow> ('fc, 'dc, 'ac) system \<Rightarrow> bool" where
  "advances F D A s s' \<longleftrightarrow>
     system_wf F D A s' \<and> shared_later (shared (inner s)) (shared (inner s')) \<and>
     session_config (inner s') = session_config (inner s) \<and>
     is_client (inner s') = is_client (inner s)"

lemma advancesI:
  assumes "system_wf F D A s" "session_wf D A (inner s')"
    and "shared_later (shared (inner s)) (shared (inner s'))"
    and "channel_later F (frame_ch (inner s)) (frame_ch (inner s'))"
    and "session_config (inner s') = session_config (inner s) \<and>
         is_client (inner s') = is_client (inner s)"
    and "recv_at s' = recv_at s \<or> recv_ok (recv_at s') (shared (inner s'))"
    and "send_at s' = send_at s \<or>
         send_ok F (send_at s') (shared (inner s')) (frame_ch (inner s'))"
    and "keep_at s' = keep_at s \<or> keep_ok (keep_at s') (shared (inner s'))"
  shows "advances F D A s s'"
  using assms recv_ok_later [OF _ assms(3)] send_ok_later [OF _ assms(3,4)]
    keep_ok_later [OF _ assms(3)]
  unfolding advances_def system_wf_def by (auto simp: channel_later_def shared_later_def)

lemma shared_later_trans:
  "\<lbrakk>shared_later a b; shared_later b c\<rbrakk> \<Longrightarrow> shared_later a c"
  by (auto simp: shared_later_def)

lemma advances_trans:
  "\<lbrakk>advances F D A a b; advances F D A b c\<rbrakk> \<Longrightarrow> advances F D A a c"
  by (auto simp: advances_def intro: shared_later_trans)

context session_env
begin

lemma session_wf_fields:
  "\<lbrakk>session_wf D A s; streams s' = streams s; data_chs s' = data_chs s; accept_ch s' = accept_ch s\<rbrakk>
   \<Longrightarrow> session_wf D A s'"
  by (simp add: session_wf_def)

lemma handle_frame_psh:
  "\<lbrakk>frame_cmd f = Psh; frame_data f \<noteq> []\<rbrakk> \<Longrightarrow> handle_frame F D A f s = psh_loop D f s"
  by (simp add: handle_frame_def handle_psh_frame_def)

lemma recv_after_ok:
  assumes "session_wf D A s" "handle_frame F D A f s = (s', out)"
  shows "recv_ok (recv_after out) ss"
  using handle_frame_wf [OF assms] by (cases out) (auto simp: recv_ok_def)

text \<open>Handling a frame, in the loop of the receive task.\<close>

lemma handled_wf:
  assumes "system_wf F D A s" "handle_frame F D A f (inner s) = (i, out)"
  shows "advances F D A s (s\<lparr>inner := i, recv_at := recv_after out\<rparr>)"
proof -
  have wf: "session_wf D A (inner s)" using assms(1) by (simp add: system_wf_def)
  show ?thesis
    by (rule advancesI [OF assms(1)])
      (simp_all add: handle_frame_wf(1) [OF wf assms(2)] handle_frame_keeps [OF wf assms(2)]
        shared_later_same recv_after_ok [OF wf assms(2)])
qed

lemma marked_wf:
  assumes "system_wf F D A s"
  shows "advances F D A s (s\<lparr>inner := (inner s)\<lparr>shared := mark_data_received (shared (inner s))\<rparr>\<rparr>)"
  using assms
  by (intro advancesI [OF assms])
    (auto simp: system_wf_def intro: session_wf_fields shared_later_same)

lemma ended_wf:
  assumes "system_wf F D A s"
  shows "advances F D A s (s\<lparr>inner := recv_end (inner s), recv_at := R_done\<rparr>)"
    "send_at s \<notin> {S_exit, S_done} \<Longrightarrow>
     advances F D A s (s\<lparr>inner := send_end (inner s), send_at := S_exit\<rparr>)"
proof -
  show "advances F D A s (s\<lparr>inner := recv_end (inner s), recv_at := R_done\<rparr>)"
    using assms
    by (intro advancesI [OF assms])
      (auto simp: recv_end_def recv_ok_def system_wf_def intro: session_wf_fields)
  assume "send_at s \<notin> {S_exit, S_done}"
  with assms show "advances F D A s (s\<lparr>inner := send_end (inner s), send_at := S_exit\<rparr>)"
    by (intro advancesI [OF assms])
      (auto simp: send_end_def send_ok_def system_wf_def intro: session_wf_fields)
qed

lemma recv_step_wf:
  assumes "recv_step F D A s e s'" "system_wf F D A s"
  shows "advances F D A s s'"
  using assms
proof (induction rule: recv_step.induct)
  case (recv_top s)
  then show ?case
    by (intro advancesI [OF recv_top(2)]) (auto simp: recv_ok_def system_wf_def)
next
  case (recv_arrives s g f i out)
  let ?s = "s\<lparr>inner := (inner s)\<lparr>shared := mark_data_received (shared (inner s))\<rparr>\<rparr>"
  have "handle_frame F D A f (inner ?s) = (i, out)"
    using recv_arrives(2) by (simp add: recv_frame_def)
  from handled_wf [OF _ this] marked_wf [OF recv_arrives(3)] show ?case
    by (auto simp: advances_def intro: shared_later_trans)
next
  case (recv_fails s g)
  then show ?case by (simp add: ended_wf)
next
  case (recv_closed s g)
  then show ?case by (simp add: ended_wf)
next
  case (recv_accept s st i out)
  have wf: "session_wf D A (inner s)" using recv_accept(3) by (simp add: system_wf_def)
  note i = syn_send_cases [OF wf recv_accept(2)]
  then have eq: "shared i = shared (inner s)" "frame_ch i = frame_ch (inner s)"
    "session_config i = session_config (inner s)" "is_client i = is_client (inner s)"
    by (metis session_inner.ext_inject session_inner.surjective session_inner.update_convs(3))+
  have "recv_ok (recv_after out) ss" for ss
    using i by (auto simp: recv_ok_def split: if_splits)
  with i eq show ?case
    by (intro advancesI [OF recv_accept(3)]) auto
next
  case (recv_wait s f)
  then show ?case
    by (intro advancesI [OF recv_wait(2)]) (auto simp: recv_ok_def system_wf_def)
next
  case (recv_tokens s f g h i out)
  then have "frame_cmd f = Psh" "frame_data f \<noteq> []" by (simp_all add: system_wf_def recv_ok_def)
  with recv_tokens(3) have "handle_frame F D A f (inner s) = (i, out)"
    by (simp add: handle_frame_psh)
  with recv_tokens(4) show ?case by (rule handled_wf)
next
  case (recv_abandon s f g h i out)
  then show ?case
    by (intro advancesI [OF recv_abandon(4)])
      (auto simp: psh_abandon_def system_wf_def recv_ok_def
        intro: session_wf_fields shared_later_same)
next
  case (recv_data s f i out)
  then show ?case by (simp add: system_wf_def recv_ok_def)
qed

lemma try_send_later: "channel_later F fc (fst (try_send F fc f))"
  by (simp add: channel_later_def frames.send_room)

lemma try_recv_later: "channel_later F fc (fst (try_recv F fc))"
  by (simp add: channel_later_def frames.recv_message)

lemma send_async_later: "send_async F fc f = (fc', r) \<Longrightarrow> channel_later F fc fc'"
  using try_send_later [of fc f]
  by (auto simp: send_async_def split: prod.splits send_result.splits)

lemma send_step_wf:
  assumes "send_step B F s e s'" "system_wf F D A s"
  shows "advances F D A s s'"
  using assms
proof (induction rule: send_step.induct)
  case (send_top s)
  then show ?case
    by (intro advancesI [OF send_top(2)]) (auto simp: send_ok_def system_wf_def)
next
  case (send_frame s g fc f)
  have "channel_later F (frame_ch (inner s)) fc"
    using try_recv_later [of "frame_ch (inner s)"] send_frame(2) by simp
  with send_frame show ?case
    by (intro advancesI [OF send_frame(3)])
      (auto simp: send_ok_def system_wf_def channel_later_def intro: session_wf_fields)
next
  case (send_none s g fc)
  have later: "channel_later F (frame_ch (inner s)) fc"
    using try_recv_later [of "frame_ch (inner s)"] send_none(2) by simp
  have s1: "advances F D A s (s\<lparr>inner := (inner s)\<lparr>frame_ch := fc\<rparr>\<rparr>)"
    using later send_none(3)
    by (intro advancesI [OF send_none(3)]) (auto simp: system_wf_def intro: session_wf_fields)
  from ended_wf(2) [of "s\<lparr>inner := (inner s)\<lparr>frame_ch := fc\<rparr>\<rparr>"] s1 send_none(1)
  show ?case by (auto simp: advances_def intro: shared_later_trans)
next
  case (send_write s f bs)
  then show ?case
    by (intro advancesI [OF send_write(3)]) (auto simp: send_ok_def system_wf_def)
next
  case (send_returns s)
  then show ?case
    by (auto simp: advances_def system_wf_def send_ok_def send_return_def frames.drop_receiver_laws
        intro: session_wf_fields)
qed (simp_all add: ended_wf)

lemma keep_step_wf:
  assumes "keep_step F s e s'" "system_wf F D A s"
  shows "advances F D A s s'"
  using assms
proof (induction rule: keep_step.induct)
  case (keep_sends s f fc sent)
  with send_async_later [OF keep_sends(2)] show ?case
    by (intro advancesI [OF keep_sends(3)])
      (auto simp: keep_ok_def system_wf_def intro: session_wf_fields)
next
  case (keep_ticks s g ss stop)
  then have "shared_later (shared (inner s)) ss"
    by (auto simp: keep_timeout_def check_and_reset_data_received_def Let_def shared_later_def
        notified_ok_def close_def split: if_splits)
  with keep_ticks(3) show ?case
    by (intro advancesI [OF keep_ticks(3)])
      (auto simp: keep_ok_def system_wf_def intro: session_wf_fields)
next
  case (keep_closed s g)
  then show ?case
    by (intro advancesI [OF keep_closed(3)]) (auto simp: keep_ok_def system_wf_def)
next
  case (keep_top s)
  then show ?case
    by (intro advancesI [OF keep_top(2)]) (auto simp: keep_ok_def system_wf_def)
next
  case (keep_ping s g)
  then show ?case
    by (intro advancesI [OF keep_ping(2)]) (auto simp: keep_ok_def system_wf_def)
qed

text \<open>The application.\<close>

lemma stream_drop_later: "channel_later F fc (fst (stream_drop F D st fc ch))"
  using try_send_later [of fc "new_fin 1 (stream_id st)"]
  by (simp add: stream_drop_def drop_body_def split: prod.splits)

lemma drop_stream_later: "channel_later F (frame_ch s) (frame_ch (drop_stream F D st s))"
  using stream_drop_later [of "frame_ch s" st "data_chs s ! data_rx st"]
  by (auto simp: drop_stream_def split: prod.splits)

lemma channel_later_trans:
  "\<lbrakk>channel_later F a b; channel_later F b c\<rbrakk> \<Longrightarrow> channel_later F a c"
  by (simp add: channel_later_def)

lemma open_stream_send_keeps:
  assumes "session_wf D A s" "open_stream_send F D st s = (s', r)"
  shows "session_wf D A s' \<and> shared s' = shared s \<and> session_config s' = session_config s \<and>
         is_client s' = is_client s \<and>
         channel_later F (frame_ch s) (frame_ch s')"
proof -
  let ?f = "new_syn (config_version (session_config s)) (stream_id st)"
  obtain fc a where a: "send_async F (frame_ch s) ?f = (fc, a)" by fastforce
  have wf: "session_wf D A (s\<lparr>frame_ch := fc\<rparr>)" using assms(1) by (simp add: session_wf_def)
  from a assms(2) have "s' = s\<lparr>frame_ch := fc\<rparr> \<or> s' = drop_stream F D st (s\<lparr>frame_ch := fc\<rparr>)"
    by (auto simp: open_stream_send_def split: poll.splits bool.splits)
  with wf session_wf_drop [OF wf, of st] send_async_later [OF a]
    drop_stream_later [of "s\<lparr>frame_ch := fc\<rparr>" st] show ?thesis
    by (auto intro: channel_later_trans)
qed

lemma apply_op_later:
  assumes "apply_op F cfg (st, closing) (op, fc, ss) = (s', fc')"
  shows "channel_later F fc fc'"
proof (cases op)
  case (Op_write buf)
  with assms try_send_later [of fc "new_psh 1 (stream_id st)
      (take (min (length buf) (max_frame_size cfg - HEADER_SIZE)) buf)"]
  show ?thesis
    by (auto simp: poll_write_def Let_def split: if_splits prod.splits send_result.splits)
next
  case Op_shutdown
  with assms try_send_later [of fc "new_fin 1 (stream_id st)"] show ?thesis
    by (auto simp: poll_shutdown_def split: if_splits prod.splits send_result.splits)
next
  case Op_drop
  with assms try_send_later [of fc "new_fin 1 (stream_id st)"] show ?thesis
    by (auto simp: drop_body_def split: if_splits)
qed (use assms in \<open>auto simp: stream_close_def stream_close_resume_def Let_def
    split: if_splits prod.splits poll.splits bool.splits dest: send_async_later\<close>)

lemma poll_write_later:
  "poll_write F cfg st fc ss buf = (fc', r) \<Longrightarrow> channel_later F fc fc'"
  using apply_op_later [of cfg st False "Op_write buf" fc ss "(st, False)" fc'] by simp

lemma app_step_wf:
  assumes "app_step B F D A s e s'" "system_wf F D A s"
  shows "advances F D A s s'"
  using assms
proof (induction rule: app_step.induct)
  case (app_open s i st)
  then have wf: "session_wf D A (inner s)" by (simp add: system_wf_def)
  show ?case
    by (rule open_stream_prepare_cases [OF wf]; rule advancesI [OF app_open(2)])
      (use app_open(1) in auto)
next
  case (app_open_fails s i e)
  then have wf: "session_wf D A (inner s)" by (simp add: system_wf_def)
  have "session_wf D A i \<and> shared i = shared (inner s) \<and> frame_ch i = frame_ch (inner s) \<and>
        session_config i = session_config (inner s) \<and> is_client i = is_client (inner s)"
    by (rule open_stream_prepare_cases [OF wf])
      (use app_open_fails(1) wf in
        \<open>auto simp: next_stream_id_def Let_def split: if_splits intro: session_wf_fields\<close>)
  then show ?case by (intro advancesI [OF app_open_fails(2)]) auto
next
  case (app_opened k s i st)
  then have wf: "session_wf D A (inner s)" by (simp add: system_wf_def)
  from open_stream_send_keeps [OF wf app_opened(2)] show ?case
    by (intro advancesI [OF app_opened(3)]) auto
next
  case (app_open_refused k s i e)
  then have wf: "session_wf D A (inner s)" by (simp add: system_wf_def)
  from open_stream_send_keeps [OF wf app_open_refused(2)] show ?case
    by (intro advancesI [OF app_open_refused(3)]) auto
next
  case (app_open_cancel k s)
  then have wf: "session_wf D A (inner s)" by (simp add: system_wf_def)
  from session_wf_drop [OF wf] drop_stream_later show ?case
    by (intro advancesI [OF app_open_cancel(2)]) auto
next
  case (app_accepted k s g first i st)
  then have wf: "session_wf D A (inner s)" by (simp add: system_wf_def)
  from accept_select_cases [OF wf app_accepted(3)] accept_select_fields [OF app_accepted(3)]
  show ?case by (intro advancesI [OF app_accepted(4)]) auto
next
  case (app_accept_ends k s g first i e)
  then have wf: "session_wf D A (inner s)" by (simp add: system_wf_def)
  from accept_select_cases [OF wf app_accept_ends(3)] show ?case
    by (intro advancesI [OF app_accept_ends(4)]) auto
next
  case (app_accept_call s)
  then show ?case by (intro advancesI [OF app_accept_call(2)]) (auto simp: system_wf_def)
next
  case (app_accept_select k s)
  then show ?case by (intro advancesI [OF app_accept_select(3)]) (auto simp: system_wf_def)
next
  case (app_accept_cancel k s)
  then show ?case by (intro advancesI [OF app_accept_cancel(2)]) (auto simp: system_wf_def)
next
  case (app_close s i r)
  then show ?case
    by (intro advancesI [OF app_close(2)])
      (auto simp: session_close_def system_wf_def intro: session_wf_fields)
next
  case (app_read k s st closing n st' ch ss r)
  then have wf: "session_wf D A (inner s)" by (simp add: system_wf_def)
  from session_wf_read [OF wf app_read(3)] poll_read_channel [OF app_read(3)] show ?case
    by (intro advancesI [OF app_read(4)]) (auto intro: shared_later_same)
next
  case (app_stream k s op h fc)
  have "channel_later F (frame_ch (inner s)) fc"
    using app_stream(3) by (cases "handles s ! k") (auto dest: apply_op_later)
  with app_stream(4) show ?case
    by (intro advancesI [OF app_stream(4)])
      (auto simp: system_wf_def intro: session_wf_fields)
next
  case (app_write k s st closing buf fc r)
  with poll_write_later [OF app_write(3)] show ?case
    by (intro advancesI [OF app_write(4)])
      (auto simp: system_wf_def intro: session_wf_fields)
next
  case (app_close_cancel k s st)
  then show ?case by (intro advancesI [OF app_close_cancel(3)]) (auto simp: system_wf_def)
next
  case (app_drop k s)
  then have wf: "session_wf D A (inner s)" by (simp add: system_wf_def)
  from session_wf_drop [OF wf] drop_stream_later show ?case
    by (intro advancesI [OF app_drop(2)]) auto
qed

lemma step_wf: "\<lbrakk>step B F D A s e s'; system_wf F D A s\<rbrakk> \<Longrightarrow> advances F D A s s'"
  unfolding step_def
  by (elim disjE) (blast intro: recv_step_wf send_step_wf keep_step_wf app_step_wf)+

lemma system_wf_new:
  "0 < max_receive_channel_buffer_size cfg \<Longrightarrow> system_wf F D A (system_new F A cfg client)"
  using session_wf_new [of cfg client]
  by (simp add: system_wf_def system_new_def session_new_def frames.bounded_new notified_ok_def
      session_state_new_def recv_ok_def send_ok_def keep_ok_def keep_start_def)

lemma advances_refl: "system_wf F D A s \<Longrightarrow> advances F D A s s"
  by (simp add: advances_def)

lemma run_wf: "\<lbrakk>run B F D A s es s'; system_wf F D A s\<rbrakk> \<Longrightarrow> advances F D A s s'"
proof (induction rule: run.induct)
  case (run_snoc s es s' e s'')
  then have "advances F D A s s'" by blast
  moreover from this have "advances F D A s' s''"
    using step_wf [OF run_snoc(2)] by (simp add: advances_def)
  ultimately show ?case by (rule advances_trans)
qed (rule advances_refl)

end

end
