(* ===== verification/Runs.thy ===== *)
theory Runs
  imports Tasks
begin

text \<open>
  What holds of every run of the system of tasks: closing, flow control, keep-alive, and what the send
  task puts on the wire.
\<close>

section \<open>Tokens\<close>

text \<open>
  The bytes that a run's events can return to the token counter: what arrived and what was read.
\<close>

fun event_bytes :: "event \<Rightarrow> nat" where
  "event_bytes (Arrives f) = length (frame_data f)"
| "event_bytes (Reads sid n r) = length (poll_data r)"
| "event_bytes _ = 0"

definition traffic :: "event list \<Rightarrow> nat" where
  "traffic es = sum_list (map event_bytes es)"

fun waits_for_tokens :: "recv_pc \<Rightarrow> bool" where
  "waits_for_tokens (R_wait f) = True"
| "waits_for_tokens (R_tokens f g h) = True"
| "waits_for_tokens _ = False"

definition balance :: "('fc, 'dc, 'ac) system \<Rightarrow> int" where
  "balance s = token_balance (shared (inner s))"

lemma balance_cong: "tokens (shared (inner s')) = tokens (shared (inner s)) \<Longrightarrow> balance s' = balance s"
  by (simp add: balance_def token_balance_def)

text \<open>What one step of a positive balance makes of it.\<close>

definition balance_ok :: "('fc, 'dc, 'ac) system \<Rightarrow> event \<Rightarrow> ('fc, 'dc, 'ac) system \<Rightarrow> bool" where
  "balance_ok s e s' \<longleftrightarrow>
     balance s \<le> balance s' \<and> balance s' \<le> balance s + int (event_bytes e) \<and>
     \<not> waits_for_tokens (recv_at s')"

lemma balance_okI:
  "\<lbrakk>tokens (shared (inner s')) = tokens (shared (inner s)); \<not> waits_for_tokens (recv_at s')\<rbrakk>
   \<Longrightarrow> balance_ok s e s'"
  using balance_cong [of s' s] by (simp add: balance_ok_def)

context session_env
begin

lemma handle_frame_no_wait:
  assumes "session_wf D A s" "0 < token_balance (shared s)" "handle_frame F D A f s = (s', out)"
  shows "\<not> waits_for_tokens (recv_after out)"
  using handle_frame_no_await [OF assms] by (cases out) auto

lemma recv_step_balance:
  assumes "recv_step F D A s e s'" "system_wf F D A s" "\<not> waits_for_tokens (recv_at s)"
    and "0 < balance s" "balance s + int (event_bytes e) < 2 ^ 63"
  shows "balance_ok s e s'"
  using assms
proof (induction rule: recv_step.induct)
  case (recv_arrives s g f i out)
  let ?i = "(inner s)\<lparr>shared := mark_data_received (shared (inner s))\<rparr>"
  have run: "handle_frame F D A f ?i = (i, out)"
    using recv_arrives(2) by (simp add: recv_frame_def)
  have wf: "session_wf D A ?i"
    using recv_arrives(3) by (auto simp: system_wf_def intro: session_wf_fields)
  have b: "token_balance (shared ?i) = balance s" by (simp add: balance_def token_balance_def)
  have pos: "0 < token_balance (shared ?i)" using recv_arrives(5) by (simp only: b)
  have "token_balance (shared ?i) + int (length (frame_data f)) < 2 ^ 63"
    using recv_arrives(6) by (simp only: b event_bytes.simps)
  from handle_frame_token_balance [OF wf run pos this] handle_frame_no_wait [OF wf pos run]
  show ?case unfolding b by (simp add: balance_ok_def balance_def)
next
  case (recv_accept s st i out)
  have wf: "session_wf D A (inner s)" using recv_accept(3) by (simp add: system_wf_def)
  note i = syn_send_cases [OF wf recv_accept(2)]
  then have "shared i = shared (inner s)"
    by (metis session_inner.ext_inject session_inner.surjective session_inner.update_convs(3))
  with i show ?case by (intro balance_okI) (auto split: if_splits)
next
  case (recv_data s f i out)
  then show ?case by (simp add: system_wf_def recv_ok_def)
qed (auto simp: recv_end_def intro: balance_okI)

lemma send_step_balance:
  "\<lbrakk>send_step B F s e s'; \<not> waits_for_tokens (recv_at s)\<rbrakk> \<Longrightarrow> balance_ok s e s'"
  by (induction rule: send_step.induct)
    (auto simp: send_end_def send_return_def intro: balance_okI)

lemma keep_step_balance:
  "\<lbrakk>keep_step F s e s'; \<not> waits_for_tokens (recv_at s)\<rbrakk> \<Longrightarrow> balance_ok s e s'"
  by (induction rule: keep_step.induct)
    (auto simp: keep_timeout_def check_and_reset_data_received_def Let_def
      split: if_splits intro: balance_okI)

lemma app_step_balance:
  assumes "app_step B F D A s e s'" "system_wf F D A s" "\<not> waits_for_tokens (recv_at s)"
    and "0 < balance s" "balance s + int (event_bytes e) < 2 ^ 63"
  shows "balance_ok s e s'"
  using assms
proof (induction rule: app_step.induct)
  case (app_read k s st closing n st' ch ss r)
  from poll_read_tokens [OF app_read(3)]
  have t: "tokens ss = tokens (shared (inner s)) + word_of_nat (length (poll_data r))" .
  have "sint (tokens ss) = sint (tokens (shared (inner s))) + int (length (poll_data r))"
    unfolding t by (rule sint_add_nat) (use app_read(6,7) in \<open>simp_all add: balance_def token_balance_def\<close>)
  with app_read(5) show ?case by (simp add: balance_ok_def balance_def token_balance_def)
next
  case (app_open s i st)
  then have wf: "session_wf D A (inner s)" by (simp add: system_wf_def)
  show ?case
    by (rule open_stream_prepare_cases [OF wf]; rule balance_okI)
      (use app_open in auto)
next
  case (app_open_fails s i e)
  then have wf: "session_wf D A (inner s)" by (simp add: system_wf_def)
  show ?case
    by (rule open_stream_prepare_cases [OF wf]; rule balance_okI)
      (use app_open_fails in \<open>auto simp: next_stream_id_def Let_def split: if_splits\<close>)
next
  case (app_opened k s i st)
  then have wf: "session_wf D A (inner s)" by (simp add: system_wf_def)
  from open_stream_send_keeps [OF wf app_opened(2)] app_opened show ?case
    by (intro balance_okI) auto
next
  case (app_open_refused k s i e)
  then have wf: "session_wf D A (inner s)" by (simp add: system_wf_def)
  from open_stream_send_keeps [OF wf app_open_refused(2)] app_open_refused show ?case
    by (intro balance_okI) auto
next
  case (app_accepted k s g first i st)
  with accept_select_fields [OF app_accepted(3)] show ?case by (intro balance_okI) auto
next
  case (app_accept_ends k s g first i e)
  with accept_select_fields [OF app_accept_ends(3)] show ?case by (intro balance_okI) auto
next
  case (app_close s i r)
  then show ?case by (intro balance_okI) (auto simp: session_close_def)
qed (auto intro: balance_okI)

lemma step_balance:
  assumes "step B F D A s e s'" "system_wf F D A s" "\<not> waits_for_tokens (recv_at s)"
    and "0 < balance s" "balance s + int (event_bytes e) < 2 ^ 63"
  shows "balance_ok s e s'"
  using assms recv_step_balance send_step_balance keep_step_balance app_step_balance
  unfolding step_def by blast

lemma run_balance:
  "\<lbrakk>run B F D A s es s'; system_wf F D A s; \<not> waits_for_tokens (recv_at s); 0 < balance s;
    balance s + int (traffic es) < 2 ^ 63\<rbrakk>
   \<Longrightarrow> balance s \<le> balance s' \<and> balance s' \<le> balance s + int (traffic es) \<and>
       \<not> waits_for_tokens (recv_at s')"
proof (induction rule: run.induct)
  case (run_snoc s es s' e s'')
  have tr: "int (traffic (es @ [e])) = int (traffic es) + int (event_bytes e)"
    by (simp add: traffic_def)
  have IH: "balance s \<le> balance s' \<and> balance s' \<le> balance s + int (traffic es) \<and>
       \<not> waits_for_tokens (recv_at s')"
    using run_snoc.IH run_snoc.prems tr by simp
  moreover have "system_wf F D A s'"
    using run_wf [OF run_snoc(1)] run_snoc.prems(1) by (simp add: advances_def)
  ultimately have "balance_ok s' e s''"
    using run_snoc.prems(3,4) tr by (intro step_balance [OF run_snoc(2)]) auto
  with IH tr show ?case by (auto simp: balance_ok_def)
qed (simp add: traffic_def)

end

text \<open>A new session with a receive buffer, and traffic below the overflow of the counter.\<close>

lemma system_new_balance:
  fixes s0 :: "('fc, 'dc, 'ac) system"
  assumes s0: "s0 = system_new F A cfg client"
    and "0 < max_receive_buffer cfg" "max_receive_buffer cfg + traffic es < 2 ^ 63"
  shows "balance s0 = int (max_receive_buffer cfg)" "0 < balance s0"
    "balance s0 + int (traffic es) < 2 ^ 63" "\<not> waits_for_tokens (recv_at s0)"
proof -
  show b: "balance s0 = int (max_receive_buffer cfg)"
    using assms(3) token_balance_new [of "max_receive_buffer cfg"]
    by (simp add: s0 balance_def system_new_def session_new_def)
  show "0 < balance s0" using assms(2) b by simp
  show "balance s0 + int (traffic es) < 2 ^ 63"
    unfolding b using of_nat_less_iff [where 'a = int, THEN iffD2, OF assms(3)] by simp
  show "\<not> waits_for_tokens (recv_at s0)" by (simp add: s0 system_new_def)
qed

context session_env
begin

lemma run_balance_new:
  fixes s :: "('fc, 'dc, 'ac) system"
  assumes "0 < max_receive_channel_buffer_size cfg"
    and "0 < max_receive_buffer cfg" "max_receive_buffer cfg + traffic es < 2 ^ 63"
    and "run B F D A (system_new F A cfg client) es s"
  shows "int (max_receive_buffer cfg) \<le> balance s \<and> \<not> waits_for_tokens (recv_at s)"
proof -
  note new = system_new_balance [of "system_new F A cfg client :: ('fc, 'dc, 'ac) system",
      OF refl assms(2,3)]
  from run_balance [OF assms(4) system_wf_new [OF assms(1)] new(4,2,3)] new(1) show ?thesis
    by simp
qed

end

section \<open>Keep-alive\<close>

text \<open>
  Whether a frame arrived since the last tick of the timeout; before the first tick the answer is yes,
  which is how the session starts.
\<close>

fun is_arrival :: "event \<Rightarrow> bool" where
  "is_arrival (Arrives f) = True"
| "is_arrival _ = False"

definition heard :: "event list \<Rightarrow> bool" where
  "heard es \<longleftrightarrow>
     Timeout_tick \<notin> set es \<or>
     (\<exists>e \<in> set (takeWhile (\<lambda>e. e \<noteq> Timeout_tick) (rev es)). is_arrival e)"

lemma heard_snoc:
  "heard (es @ [e]) = (if e = Timeout_tick then False else is_arrival e \<or> heard es)"
  by (auto simp: heard_def)

definition heard_step :: "('fc, 'dc, 'ac) system \<Rightarrow> event \<Rightarrow> ('fc, 'dc, 'ac) system \<Rightarrow> bool" where
  "heard_step s e s' \<longleftrightarrow>
     data_received (shared (inner s')) =
       (if e = Timeout_tick then False else is_arrival e \<or> data_received (shared (inner s)))"

lemma heard_stepI:
  "\<lbrakk>data_received (shared (inner s')) = data_received (shared (inner s)); e \<noteq> Timeout_tick;
    \<not> is_arrival e\<rbrakk> \<Longrightarrow> heard_step s e s'"
  by (simp add: heard_step_def)

context session_env
begin

lemma psh_loop_keeps:
  fixes s s' :: "('fc, 'dc, 'ac) session_inner"
  assumes "session_wf D A s" "frame_cmd f = Psh" "frame_data f \<noteq> []" "psh_loop D f s = (s', out)"
  shows "data_received (shared s') = data_received (shared s)" "accept_ch s' = accept_ch s"
    "frame_ch s' = frame_ch s"
proof -
  have "handle_frame F D A f s = (s', out)" using assms by (simp add: handle_frame_psh)
  from handle_frame_keeps [OF assms(1) this]
  show "data_received (shared s') = data_received (shared s)" "frame_ch s' = frame_ch s" by simp_all
  show "accept_ch s' = accept_ch s"
    using psh_deliver_shared [OF assms(1), of f s' out] assms(4)
    by (auto simp: psh_loop_def Let_def split: if_splits prod.splits)
qed

lemma recv_step_heard:
  assumes "recv_step F D A s e s'" "system_wf F D A s"
  shows "heard_step s e s'"
  using assms
proof (induction rule: recv_step.induct)
  case (recv_arrives s g f i out)
  let ?i = "(inner s)\<lparr>shared := mark_data_received (shared (inner s))\<rparr>"
  have run: "handle_frame F D A f ?i = (i, out)"
    using recv_arrives(2) by (simp add: recv_frame_def)
  have wf: "session_wf D A ?i"
    using recv_arrives(3) by (auto simp: system_wf_def intro: session_wf_fields)
  from handle_frame_keeps(7) [OF wf run] show ?case by (simp add: heard_step_def)
next
  case (recv_accept s st i out)
  have wf: "session_wf D A (inner s)" using recv_accept(3) by (simp add: system_wf_def)
  have "shared i = shared (inner s)"
    using syn_send_cases [OF wf recv_accept(2)]
    by (metis session_inner.ext_inject session_inner.surjective session_inner.update_convs(3))
  then show ?case by (intro heard_stepI) auto
next
  case (recv_tokens s f g h i out)
  then have "session_wf D A (inner s)" "frame_cmd f = Psh" "frame_data f \<noteq> []"
    by (simp_all add: system_wf_def recv_ok_def)
  from psh_loop_keeps(1) [OF this recv_tokens(3)] show ?case by (simp add: heard_step_def)
next
  case (recv_data s f i out)
  then show ?case by (simp add: system_wf_def recv_ok_def)
qed (auto simp: recv_end_def psh_abandon_def intro: heard_stepI)

lemma app_step_heard:
  assumes "app_step B F D A s e s'" "system_wf F D A s"
  shows "heard_step s e s'"
  using assms
proof (induction rule: app_step.induct)
  case (app_open s i st)
  then have wf: "session_wf D A (inner s)" by (simp add: system_wf_def)
  show ?case
    by (rule open_stream_prepare_cases [OF wf]; rule heard_stepI) (use app_open in auto)
next
  case (app_open_fails s i e)
  then have wf: "session_wf D A (inner s)" by (simp add: system_wf_def)
  show ?case
    by (rule open_stream_prepare_cases [OF wf]; rule heard_stepI)
      (use app_open_fails in \<open>auto simp: next_stream_id_def Let_def split: if_splits\<close>)
next
  case (app_opened k s i st)
  then have wf: "session_wf D A (inner s)" by (simp add: system_wf_def)
  from open_stream_send_keeps [OF wf app_opened(2)] show ?case by (intro heard_stepI) auto
next
  case (app_open_refused k s i e)
  then have wf: "session_wf D A (inner s)" by (simp add: system_wf_def)
  from open_stream_send_keeps [OF wf app_open_refused(2)] show ?case by (intro heard_stepI) auto
next
  case (app_accepted k s g first i st)
  from accept_select_fields [OF app_accepted(3)] show ?case by (intro heard_stepI) auto
next
  case (app_accept_ends k s g first i e)
  from accept_select_fields [OF app_accept_ends(3)] show ?case by (intro heard_stepI) auto
next
  case (app_close s i r)
  then show ?case by (intro heard_stepI) (auto simp: session_close_def)
next
  case (app_read k s st closing n st' ch ss r)
  from poll_read_channel [OF app_read(3)] show ?case by (intro heard_stepI) auto
qed (auto intro: heard_stepI)

lemma step_heard:
  assumes "step B F D A s e s'" "system_wf F D A s"
  shows "heard_step s e s'"
proof -
  have "heard_step s e s'" if "send_step B F s e s'"
    using that
    by (induction rule: send_step.induct)
      (auto simp: send_end_def send_return_def intro: heard_stepI)
  moreover have "heard_step s e s'" if "keep_step F s e s'"
    using that
    by (induction rule: keep_step.induct)
      (auto simp: heard_step_def keep_timeout_def check_and_reset_data_received_def Let_def
        close_def split: if_splits)
  ultimately show ?thesis
    using assms recv_step_heard app_step_heard unfolding step_def by blast
qed

lemma run_heard:
  "\<lbrakk>run B F D A s es s'; system_wf F D A s; data_received (shared (inner s))\<rbrakk>
   \<Longrightarrow> data_received (shared (inner s')) = heard es"
proof (induction rule: run.induct)
  case (run_nil s)
  then show ?case by (simp add: heard_def)
next
  case (run_snoc s es s' e s'')
  have "system_wf F D A s'"
    using run_wf [OF run_snoc(1)] run_snoc.prems by (simp add: advances_def)
  from step_heard [OF run_snoc(2) this] run_snoc show ?case
    by (simp add: heard_step_def heard_snoc)
qed

lemma data_received_new: "data_received (shared (inner (system_new F A cfg client)))"
  by (simp add: system_new_def session_new_def session_state_new_def)

lemma timeout_exact:
  fixes s s' :: "('fc, 'dc, 'ac) system"
  assumes "run B F D A (system_new F A cfg client) es s" "0 < max_receive_channel_buffer_size cfg"
    and "step B F D A s Timeout_tick s'"
  shows "closed (shared (inner s')) \<longleftrightarrow>
         closed (shared (inner s)) \<or> \<not> heard es \<and> 0 < balance s"
proof -
  have "shared (inner s') = fst (keep_timeout (shared (inner s)))"
    using timeout_step [OF assms(3)] by (auto elim: keep_tickE)
  with run_heard [OF assms(1) system_wf_new [OF assms(2)] data_received_new] show ?thesis
    by (simp add: keep_timeout_def check_and_reset_data_received_def Let_def balance_def
        token_balance_def get_tokens_def)
qed

end

section \<open>Closing and the tasks\<close>

text \<open>Only the receive task moves its own control point, and only when it is not finished.\<close>

lemma other_steps_recv_at:
  "send_step B F s e s' \<Longrightarrow> recv_at s' = recv_at s"
  "keep_step F s e s' \<Longrightarrow> recv_at s' = recv_at s"
  "app_step B F D A s e s' \<Longrightarrow> recv_at s' = recv_at s"
  by (auto elim: send_step.cases keep_step.cases app_step.cases)

text \<open>Events that the receive task sees from the transport.\<close>

fun from_transport :: "event \<Rightarrow> bool" where
  "from_transport (Arrives f) = True"
| "from_transport Transport_fails = True"
| "from_transport _ = False"

context session_env
begin

lemma closed_notified: "\<lbrakk>system_wf F D A s; closed (shared (inner s))\<rbrakk> \<Longrightarrow> die_notified (shared (inner s)) = 1"
  by (simp add: system_wf_def notified_ok_def)

lemma missed_wakeup_step:
  assumes "step B F D A s e s'" "system_wf F D A s" "closed (shared (inner s))"
    and "recv_at s = R_select (die_notified (shared (inner s)))" "\<not> from_transport e"
  shows "recv_at s' = recv_at s"
proof -
  have "\<not> recv_step F D A s e s'"
    using assms(4,5) by (auto elim: recv_step.cases)
  with assms(1) show ?thesis unfolding step_def using other_steps_recv_at by blast
qed

lemma missed_wakeup_run:
  "\<lbrakk>run B F D A s es s'; system_wf F D A s; closed (shared (inner s));
    recv_at s = R_select (die_notified (shared (inner s))); \<not> list_ex from_transport es\<rbrakk>
   \<Longrightarrow> recv_at s' = recv_at s \<and> closed (shared (inner s'))"
proof (induction rule: run.induct)
  case (run_snoc s es s' e s'')
  then have IH: "recv_at s' = recv_at s" "closed (shared (inner s'))" by simp_all
  have adv: "system_wf F D A s'"
    using run_wf [OF run_snoc(1)] run_snoc.prems by (simp add: advances_def)
  have die: "die_notified (shared (inner s')) = die_notified (shared (inner s))"
    using closed_notified [OF adv IH(2)] closed_notified run_snoc.prems by simp
  have "recv_at s'' = recv_at s'"
    by (rule missed_wakeup_step [OF run_snoc(2) adv IH(2)]) (use IH die run_snoc.prems in simp_all)
  moreover have "closed (shared (inner s''))"
    using step_wf [OF run_snoc(2) adv] IH by (simp add: advances_def shared_later_def)
  ultimately show ?case using IH by simp
qed simp

text \<open>A receive task that waits to hand over a stream, on a closed session with a full accept queue.\<close>

lemma app_step_accept_ch:
  assumes "app_step B F D A s e s'" "session_wf D A (inner s)" "closed (shared (inner s))"
    and "accepting s = []"
  shows "accept_ch (inner s') = accept_ch (inner s) \<and> accepting s' = []"
  using assms
proof (induction rule: app_step.induct)
  case (app_open s i st)
  show ?case
    by (rule open_stream_prepare_cases [OF app_open(2)]) (use app_open in auto)
next
  case (app_open_fails s i e)
  show ?case
    by (rule open_stream_prepare_cases [OF app_open_fails(2)])
      (use app_open_fails in \<open>auto simp: is_closed_def\<close>)
next
  case (app_opened k s i st)
  then show ?case
    by (auto simp: open_stream_send_def split: prod.splits poll.splits bool.splits)
next
  case (app_open_refused k s i e)
  then show ?case
    by (auto simp: open_stream_send_def split: prod.splits poll.splits bool.splits)
next
  case (app_accept_call s)
  then show ?case by (simp add: is_closed_def)
next
  case (app_close s i r)
  then show ?case by (auto simp: session_close_def)
qed auto

lemma blocked_accept_step:
  assumes "step B F D A s e s'" "system_wf F D A s" "closed (shared (inner s))"
    and "recv_at s = R_accept st" "\<not> has_room A (accept_ch (inner s))" "accepting s = []"
  shows "recv_at s' = R_accept st \<and> accept_ch (inner s') = accept_ch (inner s) \<and> accepting s' = []"
proof -
  have wf: "session_wf D A (inner s)" using assms(2) by (simp add: system_wf_def)
  have "?thesis" if "recv_step F D A s e s'"
    using that assms(4)
  proof (cases rule: recv_step.cases)
    case (recv_accept st' i out)
    with syn_send_cases [OF wf recv_accept(4)] assms(4-6) show ?thesis by simp
  qed simp_all
  moreover have "accept_ch (inner s') = accept_ch (inner s) \<and> accepting s' = accepting s"
    if "send_step B F s e s'"
    using that by (induction rule: send_step.induct) (auto simp: send_end_def send_return_def)
  moreover have "accept_ch (inner s') = accept_ch (inner s) \<and> accepting s' = accepting s"
    if "keep_step F s e s'"
    using that by (induction rule: keep_step.induct) auto
  moreover have "accept_ch (inner s') = accept_ch (inner s) \<and> accepting s' = []"
    if "app_step B F D A s e s'"
    by (rule app_step_accept_ch [OF that wf assms(3,6)])
  ultimately show ?thesis
    using assms other_steps_recv_at unfolding step_def by metis
qed

lemma blocked_accept_run:
  "\<lbrakk>run B F D A s es s'; system_wf F D A s; closed (shared (inner s));
    recv_at s = R_accept st; \<not> has_room A (accept_ch (inner s)); accepting s = []\<rbrakk>
   \<Longrightarrow> recv_at s' = R_accept st \<and> accept_ch (inner s') = accept_ch (inner s) \<and> accepting s' = [] \<and>
       (\<forall>f. Arrives f \<notin> set es)"
proof (induction rule: run.induct)
  case (run_snoc s es s' e s'')
  then have IH: "recv_at s' = R_accept st" "accept_ch (inner s') = accept_ch (inner s)"
    "accepting s' = []" "\<forall>f. Arrives f \<notin> set es" by simp_all
  have "system_wf F D A s'" "closed (shared (inner s'))"
    using run_wf [OF run_snoc(1)] run_snoc.prems by (simp_all add: advances_def shared_later_def)
  moreover have "\<forall>f. e \<noteq> Arrives f"
    using run_snoc(2) IH(1) by (auto dest!: arrival_step elim: recv_step.cases)
  ultimately show ?case using blocked_accept_step [OF run_snoc(2) _ _ IH(1)] IH run_snoc.prems by (auto 0 0)
qed simp

end

section \<open>The wire\<close>

text \<open>
  What the send task has written, is writing and will write: the bytes on the wire, the frame it
  holds, and the frames in the channel.
\<close>

definition outgoing :: "('fc, frame) flume_api \<Rightarrow> ('fc, 'dc, 'ac) system \<Rightarrow> bytes" where
  "outgoing F s =
     wire s @ (case send_at s of S_sending f \<Rightarrow> wire_bytes f | _ \<Rightarrow> []) @
     concat (map wire_bytes (contents F (frame_ch (inner s))))"

definition appends :: "('fc, frame) flume_api \<Rightarrow> 'fc \<Rightarrow> 'fc \<Rightarrow> bool" where
  "appends F fc fc' \<longleftrightarrow> (\<exists>fs. contents F fc' = contents F fc @ fs)"

definition only_appends ::
    "('fc, frame) flume_api \<Rightarrow> ('fc, 'dc, 'ac) system \<Rightarrow> ('fc, 'dc, 'ac) system \<Rightarrow> bool" where
  "only_appends F s s' \<longleftrightarrow> (\<exists>fs. outgoing F s' = outgoing F s @ concat (map wire_bytes fs))"

lemma appends_refl [simp]: "appends F fc fc"
  by (simp add: appends_def)

lemma only_appendsI:
  "\<lbrakk>wire s' = wire s; send_at s' = send_at s; appends F (frame_ch (inner s)) (frame_ch (inner s'))\<rbrakk>
   \<Longrightarrow> only_appends F s s'"
  by (fastforce simp: only_appends_def outgoing_def appends_def)

lemma only_appends_trans:
  "\<lbrakk>only_appends F a b; only_appends F b c\<rbrakk> \<Longrightarrow> only_appends F a c"
  unfolding only_appends_def by (metis append_assoc concat_append map_append)

context session_env
begin

lemma try_send_appends: "capacity F fc \<noteq> Some 0 \<Longrightarrow> appends F fc (fst (try_send F fc f))"
  by (cases rule: frames.send_cases [of fc f]) (auto simp: appends_def)

lemma send_async_appends:
  "\<lbrakk>send_async F fc f = (fc', r); capacity F fc \<noteq> Some 0\<rbrakk> \<Longrightarrow> appends F fc fc'"
  using try_send_appends [of fc f]
  by (auto simp: send_async_def split: prod.splits send_result.splits)

lemma drop_stream_appends:
  "capacity F (frame_ch s) \<noteq> Some 0 \<Longrightarrow> appends F (frame_ch s) (frame_ch (drop_stream F D st s))"
  using try_send_appends [of "frame_ch s" "new_fin 1 (stream_id st)"]
  by (auto simp: drop_stream_def stream_drop_def drop_body_def split: prod.splits)

lemma apply_op_appends:
  assumes "apply_op F cfg (st, closing) (op, fc, ss) = (s', fc')" "capacity F fc \<noteq> Some 0"
  shows "appends F fc fc'"
proof (cases op)
  case (Op_write buf)
  with assms(1) try_send_appends [OF assms(2), of "new_psh 1 (stream_id st)
      (take (min (length buf) (max_frame_size cfg - HEADER_SIZE)) buf)"]
  show ?thesis
    by (auto simp: poll_write_def Let_def split: if_splits prod.splits send_result.splits)
next
  case Op_shutdown
  with assms(1) try_send_appends [OF assms(2), of "new_fin 1 (stream_id st)"] show ?thesis
    by (auto simp: poll_shutdown_def split: if_splits prod.splits send_result.splits)
next
  case Op_drop
  with assms(1) try_send_appends [OF assms(2), of "new_fin 1 (stream_id st)"] show ?thesis
    by (auto simp: drop_body_def split: if_splits)
qed (use assms in \<open>auto simp: stream_close_def stream_close_resume_def Let_def
    split: if_splits prod.splits poll.splits bool.splits dest: send_async_appends\<close>)

lemma poll_write_appends:
  "\<lbrakk>poll_write F cfg st fc ss buf = (fc', r); capacity F fc \<noteq> Some 0\<rbrakk> \<Longrightarrow> appends F fc fc'"
  using apply_op_appends [of cfg st False "Op_write buf" fc ss "(st, False)" fc'] by simp

lemma open_stream_send_appends:
  assumes "open_stream_send F D st s = (s', r)" "capacity F (frame_ch s) \<noteq> Some 0"
  shows "appends F (frame_ch s) (frame_ch s')"
proof -
  let ?f = "new_syn (config_version (session_config s)) (stream_id st)"
  obtain fc a where a: "send_async F (frame_ch s) ?f = (fc, a)" by fastforce
  have cap: "capacity F fc \<noteq> Some 0"
    using send_async_later [OF a] assms(2) by (simp add: channel_later_def)
  from a assms(1) have "s' = s\<lparr>frame_ch := fc\<rparr> \<or> s' = drop_stream F D st (s\<lparr>frame_ch := fc\<rparr>)"
    by (auto simp: open_stream_send_def split: poll.splits bool.splits)
  with send_async_appends [OF a assms(2)] drop_stream_appends [of "s\<lparr>frame_ch := fc\<rparr>" st] cap
  show ?thesis by (fastforce simp: appends_def)
qed

lemma recv_step_frame_ch:
  assumes "recv_step F D A s e s'" "system_wf F D A s"
  shows "frame_ch (inner s') = frame_ch (inner s)"
  using assms
proof (induction rule: recv_step.induct)
  case (recv_arrives s g f i out)
  let ?i = "(inner s)\<lparr>shared := mark_data_received (shared (inner s))\<rparr>"
  have run: "handle_frame F D A f ?i = (i, out)"
    using recv_arrives(2) by (simp add: recv_frame_def)
  have wf: "session_wf D A ?i"
    using recv_arrives(3) by (auto simp: system_wf_def intro: session_wf_fields)
  from handle_frame_keeps(3) [OF wf run] show ?case by simp
next
  case (recv_accept s st i out)
  have wf: "session_wf D A (inner s)" using recv_accept(3) by (simp add: system_wf_def)
  have "frame_ch i = frame_ch (inner s)"
    using syn_send_cases [OF wf recv_accept(2)]
    by (metis session_inner.ext_inject session_inner.surjective session_inner.update_convs(3))
  then show ?case by simp
next
  case (recv_tokens s f g h i out)
  then have "session_wf D A (inner s)" "frame_cmd f = Psh" "frame_data f \<noteq> []"
    by (simp_all add: system_wf_def recv_ok_def)
  from psh_loop_keeps(3) [OF this recv_tokens(3)] show ?case by simp
next
  case (recv_data s f i out)
  then show ?case by (simp add: system_wf_def recv_ok_def)
qed (auto simp: recv_end_def psh_abandon_def)

lemma send_step_appends:
  assumes "send_step B F s e s'" "send_at s' \<notin> {S_exit, S_done}"
  shows "only_appends F s s'"
  using assms
proof (induction rule: send_step.induct)
  case (send_frame s g fc f)
  then show ?case
    by (cases rule: frames.recv_cases [of "frame_ch (inner s)"])
      (auto simp: only_appends_def outgoing_def intro: exI [of _ "[]"])
next
  case (send_write s f bs)
  then have "bs = wire_bytes f" by (auto simp: bytes.encode_eq frame_validate_Inr_iff split: if_splits)
  with send_write show ?case
    by (auto simp: only_appends_def outgoing_def intro: exI [of _ "[]"])
qed (auto simp: only_appends_def outgoing_def intro: exI [of _ "[]"])

lemma app_step_appends:
  assumes "app_step B F D A s e s'" "session_wf D A (inner s)"
    and "capacity F (frame_ch (inner s)) \<noteq> Some 0"
  shows "appends F (frame_ch (inner s)) (frame_ch (inner s'))"
  using assms
proof (induction rule: app_step.induct)
  case (app_open s i st)
  show ?case
    by (rule open_stream_prepare_cases [OF app_open(2)]) (use app_open in auto)
next
  case (app_open_fails s i e)
  show ?case
    by (rule open_stream_prepare_cases [OF app_open_fails(2)])
      (use app_open_fails in \<open>auto simp: next_stream_id_def Let_def split: if_splits\<close>)
next
  case (app_opened k s i st)
  from open_stream_send_appends [OF app_opened(2,4)] show ?case by simp
next
  case (app_open_refused k s i e)
  from open_stream_send_appends [OF app_open_refused(2,4)] show ?case by simp
next
  case (app_open_cancel k s)
  with drop_stream_appends show ?case by simp
next
  case (app_accepted k s g first i st)
  from accept_select_fields [OF app_accepted(3)] show ?case by simp
next
  case (app_accept_ends k s g first i e)
  from accept_select_fields [OF app_accept_ends(3)] show ?case by simp
next
  case (app_close s i r)
  then show ?case by (auto simp: session_close_def)
next
  case (app_write k s st closing buf fc r)
  from poll_write_appends [OF app_write(3,5)] show ?case by simp
next
  case (app_stream k s op h fc)
  have "appends F (frame_ch (inner s)) fc"
    using app_stream(3,5) by (cases "handles s ! k") (auto dest: apply_op_appends)
  then show ?case by simp
next
  case (app_drop k s)
  with drop_stream_appends show ?case by simp
qed auto

text \<open>Every step but one of the send task only adds to the frame channel.\<close>

lemma other_steps_appends:
  assumes "recv_step F D A s e s' \<or> keep_step F s e s' \<or> app_step B F D A s e s'" "system_wf F D A s"
    and "0 < max_receive_channel_buffer_size (session_config (inner s))"
  shows "appends F (frame_ch (inner s)) (frame_ch (inner s'))" "send_at s' = send_at s" "wire s' = wire s"
proof -
  have wf: "session_wf D A (inner s)" and cap: "capacity F (frame_ch (inner s)) \<noteq> Some 0"
    using assms(2,3) by (simp_all add: system_wf_def)
  have "appends F (frame_ch (inner s)) (frame_ch (inner s'))" if "keep_step F s e s'"
    using that cap by (induction rule: keep_step.induct) (auto dest: send_async_appends)
  with assms(1) recv_step_frame_ch [OF _ assms(2)] app_step_appends [OF _ wf cap]
  show "appends F (frame_ch (inner s)) (frame_ch (inner s'))" by fastforce
  show "send_at s' = send_at s" "wire s' = wire s"
    using assms(1) by (auto elim: recv_step.cases keep_step.cases app_step.cases)
qed

lemma step_appends:
  assumes "step B F D A s e s'" "system_wf F D A s"
    and "0 < max_receive_channel_buffer_size (session_config (inner s))"
    and "send_at s' \<notin> {S_exit, S_done}"
  shows "only_appends F s s'"
  using assms(1) send_step_appends [OF _ assms(4)] other_steps_appends [OF _ assms(2,3)] only_appendsI
  unfolding step_def by blast

text \<open>A send task that has ended does not start again.\<close>

lemma send_at_ended:
  assumes "step B F D A s e s'" "send_at s \<in> {S_exit, S_done}"
  shows "send_at s' \<in> {S_exit, S_done}"
proof -
  have "send_at s' = send_at s" if "recv_step F D A s e s' \<or> keep_step F s e s' \<or> app_step B F D A s e s'"
    using that by (auto elim: recv_step.cases keep_step.cases app_step.cases)
  moreover have "send_at s' \<in> {S_exit, S_done}" if "send_step B F s e s'"
    using that assms(2) by (auto elim: send_step.cases)
  ultimately show ?thesis using assms unfolding step_def by metis
qed

lemma run_appends:
  "\<lbrakk>run B F D A s es s'; system_wf F D A s;
    0 < max_receive_channel_buffer_size (session_config (inner s)); send_at s' \<notin> {S_exit, S_done}\<rbrakk>
   \<Longrightarrow> only_appends F s s'"
proof (induction rule: run.induct)
  case (run_nil s)
  then show ?case by (auto simp: only_appends_def intro: exI [of _ "[]"])
next
  case (run_snoc s es s' e s'')
  have "send_at s' \<notin> {S_exit, S_done}"
    using send_at_ended [OF run_snoc(2)] run_snoc.prems(3) by blast
  then have IH: "only_appends F s s'" using run_snoc by blast
  have "system_wf F D A s'"
    "max_receive_channel_buffer_size (session_config (inner s')) =
     max_receive_channel_buffer_size (session_config (inner s))"
    using run_wf [OF run_snoc(1)] run_snoc.prems by (simp_all add: advances_def)
  then have "only_appends F s' s''"
    using run_snoc.prems by (intro step_appends [OF run_snoc(2)]) simp_all
  with IH show ?case by (rule only_appends_trans)
qed

end

section \<open>Concrete runs\<close>

type_synonym list_system = "(frame lchan, bytes lchan, stream lchan) system"

definition demo :: "config \<Rightarrow> list_system" where
  "demo cfg = system_new list_chan list_chan cfg True"

definition demo_closed :: "config \<Rightarrow> list_system" where
  "demo_closed cfg = (demo cfg)\<lparr>inner := fst (session_close (inner (demo cfg)))\<rparr>"

abbreviation demo_run :: "list_system \<Rightarrow> event list \<Rightarrow> list_system \<Rightarrow> bool" where
  "demo_run \<equiv> run list_bytes list_chan list_chan list_chan"

abbreviation demo_step :: "list_system \<Rightarrow> event \<Rightarrow> list_system \<Rightarrow> bool" where
  "demo_step \<equiv> step list_bytes list_chan list_chan list_chan"

lemma run_one: "step B F D A s e s' \<Longrightarrow> run B F D A s [e] s'"
  using run_snoc [OF run_nil, of B F D A s e s'] by simp

lemma run_more: "\<lbrakk>run B F D A s es s'; step B F D A s' e s''; es @ [e] = es'\<rbrakk> \<Longrightarrow> run B F D A s es' s''"
  using run_snoc by fastforce

lemmas demo_defs =
  demo_def demo_closed_def system_new_def session_new_def session_state_new_def keep_start_def
  session_close_def close_def config_default_def duration_from_secs_def list_chan_simps is_closed_def

lemma demo_step_close: "demo_step (demo cfg) Closes (demo_closed cfg)"
  unfolding step_def demo_closed_def by (auto simp: session_close_def intro: app_close)

lemma demo_step_recv_top:
  "recv_at s = R_top \<Longrightarrow>
   demo_step s Internal (s\<lparr>recv_at := R_select (die_notified (shared (inner s)))\<rparr>)"
  unfolding step_def by (auto intro: recv_top)

lemma demo_step_send_top:
  "send_at s = S_top \<Longrightarrow>
   demo_step s Internal (s\<lparr>send_at := S_select (die_notified (shared (inner s)))\<rparr>)"
  unfolding step_def by (auto intro: send_top)

lemma demo_step_keep_top:
  "keep_at s = K_top \<Longrightarrow>
   demo_step s Internal (s\<lparr>keep_at := K_select (die_notified (shared (inner s)))\<rparr>)"
  unfolding step_def by (auto intro: keep_top)

section \<open>Properties\<close>

text \<open>
  C15. The invariant of every reachable state of the running session, under every interleaving of the three
  tasks, the transport, the clock and the application: the table is well formed (each entry has its own
  live unbounded channel, no stream is handed an empty chunk, the accept queue is alive), the close
  notification has gone out exactly when the session is closed, a finished receive or send task has
  closed the session, and the frame channel is disconnected exactly when the send task has returned.
\<close>

lemma system_invariant:
  assumes "session_env B F D A" "0 < max_receive_channel_buffer_size cfg"
    and "run B F D A (system_new F A cfg client) es s"
  shows "session_wf D A (inner s) \<and>
         die_notified (shared (inner s)) = (if session_is_closed (inner s) then 1 else 0) \<and>
         (recv_at s = R_done \<or> send_at s = S_exit \<or> send_at s = S_done
            \<longrightarrow> session_is_closed (inner s)) \<and>
         (receivers_gone F (frame_ch (inner s)) \<longleftrightarrow> send_at s = S_done) \<and>
         (\<forall>f. recv_at s \<noteq> R_data f)"
  using session_env.run_wf [OF assms(1,3) session_env.system_wf_new [OF assms(1,2)]]
  by (auto simp: advances_def system_wf_def notified_ok_def recv_ok_def send_ok_def
      session_is_closed_def is_closed_def)

lemma system_invariant_witness:
  "die_notified (shared (inner (demo_closed config_default))) = 1"
  using system_invariant [OF lse.session_env_axioms, of config_default True "[Closes]"
      "demo_closed config_default"] run_one [OF demo_step_close [of config_default]]
  by (simp add: demo_defs session_is_closed_def)

text \<open>
  C23. Flow control never holds anything back: in every run with a receive buffer that is not empty, and
  with less than \<open>2 ^ 63\<close> bytes of traffic, the token counter never falls below its initial value,
  however much data arrives and is not read, and the receive task never waits for tokens.
\<close>

lemma tokens_never_run_out:
  fixes s :: "('fc, 'dc, 'ac) system"
  assumes "session_env B F D A" "0 < max_receive_channel_buffer_size cfg"
    and "0 < max_receive_buffer cfg" "max_receive_buffer cfg + traffic es < 2 ^ 63"
    and "run B F D A (system_new F A cfg client) es s"
  shows "int (max_receive_buffer cfg) \<le> sint (get_tokens (shared (inner s))) \<and>
         \<not> waits_for_tokens (recv_at s)"
  using session_env.run_balance_new [OF assms]
  by (simp add: balance_def token_balance_def get_tokens_def)

lemma tokens_never_run_out_witness:
  "\<not> waits_for_tokens (recv_at (demo_closed config_default)) \<and>
   int (max_receive_buffer config_default) \<le>
     sint (get_tokens (shared (inner (demo_closed config_default))))"
proof -
  have "demo_run (system_new list_chan list_chan config_default True) [Closes] (demo_closed config_default)"
    using run_one [OF demo_step_close [of config_default]] by (simp add: demo_def)
  from tokens_never_run_out [OF lse.session_env_axioms _ _ _ this]
  show ?thesis by (simp add: config_default_def traffic_def)
qed

text \<open>
  Keep-alive closes exactly the silent sessions: at a tick of the timeout, on a session with a receive
  buffer and less than \<open>2 ^ 63\<close> bytes of traffic, the session is closed afterwards exactly when it was
  closed before or when no frame arrived since the previous tick; the first tick never closes it.
\<close>

lemma keepalive_closes_silent_sessions:
  fixes s :: "('fc, 'dc, 'ac) system"
  assumes "session_env B F D A" "0 < max_receive_channel_buffer_size cfg"
    and "0 < max_receive_buffer cfg" "max_receive_buffer cfg + traffic es < 2 ^ 63"
    and "run B F D A (system_new F A cfg client) es s" "step B F D A s Timeout_tick s'"
  shows "session_is_closed (inner s') \<longleftrightarrow> session_is_closed (inner s) \<or> \<not> heard es"
  using session_env.run_balance_new [OF assms(1-5)] session_env.timeout_exact [OF assms(1,5,2,6)]
    assms(3)
  by (simp add: session_is_closed_def is_closed_def)

lemma demo_step_tick:
  assumes "keep_at s = K_select g" "keep_timeout (shared (inner s)) = (ss, stop)"
  shows "demo_step s Timeout_tick
    (s\<lparr>inner := (inner s)\<lparr>shared := ss\<rparr>, keep_at := (if stop then K_done else K_top)\<rparr>)"
  unfolding step_def using keep_ticks [OF assms] by blast

lemma keepalive_closes_silent_sessions_witness:
  "\<exists>s s'. demo_run (demo config_default) [Internal, Timeout_tick, Internal] s \<and>
     demo_step s Timeout_tick s' \<and> session_is_closed (inner s')"
proof -
  let ?s = "demo config_default"
  let ?s1 = "?s\<lparr>keep_at := K_select 0\<rparr>"
  let ?s2 = "?s1\<lparr>inner := (inner ?s1)\<lparr>shared := (shared (inner ?s1))\<lparr>data_received := False\<rparr>\<rparr>,
               keep_at := K_top\<rparr>"
  let ?s3 = "?s2\<lparr>keep_at := K_select 0\<rparr>"
  have r1: "demo_run ?s [Internal] ?s1"
    using run_one [OF demo_step_keep_top [of ?s]] by (simp add: demo_defs)
  have "demo_step ?s1 Timeout_tick ?s2"
    using demo_step_tick [of ?s1 0 "(shared (inner ?s1))\<lparr>data_received := False\<rparr>" False]
    by (simp add: demo_defs keep_timeout_def check_and_reset_data_received_def)
  with r1 have r2: "demo_run ?s [Internal, Timeout_tick] ?s2" by (rule run_more) simp
  have "demo_step ?s2 Internal ?s3"
    using demo_step_keep_top [of ?s2] by (simp add: demo_defs)
  with r2 have r3: "demo_run ?s [Internal, Timeout_tick, Internal] ?s3" by (rule run_more) simp
  obtain ss stop where "keep_timeout (shared (inner ?s3)) = (ss, stop)" by fastforce
  then have tick: "demo_step ?s3 Timeout_tick (?s3\<lparr>inner := (inner ?s3)\<lparr>shared := ss\<rparr>,
      keep_at := (if stop then K_done else K_top)\<rparr>)"
    by (intro demo_step_tick) auto
  from keepalive_closes_silent_sessions [OF lse.session_env_axioms _ _ _ r3 [unfolded demo_def]]
    tick r3
  show ?thesis
    by (force simp: demo_def config_default_def traffic_def heard_def)
qed

text \<open>
  Closing reaches a task that waits: if a step closes the session while the receive task is in its
  \<open>select!\<close>, the task can then end, and likewise the send task.
\<close>

lemma closing_wakes_waiting_tasks:
  assumes "session_env B F D A" "0 < max_receive_channel_buffer_size cfg"
    and "run B F D A (system_new F A cfg client) es s" "\<not> session_is_closed (inner s)"
    and "step B F D A s e s'" "session_is_closed (inner s')"
  shows "(recv_at s' = R_select g \<and> recv_at s = R_select g \<longrightarrow>
            (\<exists>s''. step B F D A s' Internal s'' \<and> recv_at s'' = R_done)) \<and>
         (send_at s' = S_select g \<and> send_at s = S_select g \<longrightarrow>
            (\<exists>s''. step B F D A s' Internal s'' \<and> send_at s'' = S_exit))"
proof -
  have wf: "system_wf F D A s"
    using session_env.run_wf [OF assms(1,3) session_env.system_wf_new [OF assms(1,2)]]
    by (simp add: advances_def)
  from session_env.step_wf [OF assms(1,5) wf] have wf': "system_wf F D A s'"
    by (simp add: advances_def)
  have die: "die_notified (shared (inner s)) = 0" "die_notified (shared (inner s')) = 1"
    using wf wf' assms(4,6)
    by (simp_all add: system_wf_def notified_ok_def session_is_closed_def is_closed_def)
  have "recv_at s = R_select g \<Longrightarrow> g = 0" "send_at s = S_select g \<Longrightarrow> g = 0"
    using wf die by (simp_all add: system_wf_def recv_ok_def send_ok_def)
  then show ?thesis
    unfolding step_def using die recv_closed [of s' g F D A] send_closed [of s' g B F] by fastforce
qed

lemma closing_wakes_waiting_tasks_witness:
  "\<exists>s''. demo_step ((demo_closed config_default)\<lparr>recv_at := R_select 0\<rparr>) Internal s'' \<and> recv_at s'' = R_done"
proof -
  let ?s = "(demo config_default)\<lparr>recv_at := R_select 0\<rparr>"
  have r: "demo_run (system_new list_chan list_chan config_default True) [Internal] ?s"
    using run_one [OF demo_step_recv_top [of "demo config_default"]] by (simp add: demo_defs)
  have "(demo_closed config_default)\<lparr>recv_at := R_select 0\<rparr> = ?s\<lparr>inner := fst (session_close (inner ?s))\<rparr>"
    by (simp add: demo_defs)
  then have "demo_step ?s Closes ((demo_closed config_default)\<lparr>recv_at := R_select 0\<rparr>)"
    unfolding step_def using app_close [of ?s "fst (session_close (inner ?s))" "Inr ()"]
    by (simp add: session_close_def)
  from closing_wakes_waiting_tasks [OF lse.session_env_axioms _ r _ this, of 0]
  show ?thesis by (simp add: demo_defs session_is_closed_def)
qed

text \<open>
  C31. A close can be missed: the notification wakes only the futures that exist when it is sent. If the
  receive task enters its \<open>select!\<close> after the session was closed, then in no continuation of the run,
  as long as the transport stays silent, does it ever leave.
\<close>

lemma close_missed_by_receive_task:
  assumes "session_env B F D A" "0 < max_receive_channel_buffer_size cfg"
    and "run B F D A (system_new F A cfg client) es s" "session_is_closed (inner s)"
    and "recv_at s = R_top" "recv_step F D A s Internal s'"
    and "run B F D A s' es' s''" "\<not> list_ex from_transport es'"
  shows "recv_at s'' = R_select 1"
proof -
  have wf: "system_wf F D A s"
    using session_env.run_wf [OF assms(1,3) session_env.system_wf_new [OF assms(1,2)]]
    by (simp add: advances_def)
  have s': "s' = s\<lparr>recv_at := R_select (die_notified (shared (inner s)))\<rparr>"
    using assms(5,6) by (auto elim: recv_step.cases)
  have closed: "closed (shared (inner s))" using assms(4) by (simp add: session_is_closed_def is_closed_def)
  have die: "die_notified (shared (inner s)) = 1"
    by (rule session_env.closed_notified [OF assms(1) wf closed])
  have "system_wf F D A s'"
    using session_env.recv_step_wf [OF assms(1,6) wf] by (simp add: advances_def)
  from session_env.missed_wakeup_run [OF assms(1,7) this _ _ assms(8)] closed die
  show ?thesis by (simp add: s')
qed

lemma close_missed_by_receive_task_witness:
  "recv_at ((demo_closed config_default)\<lparr>recv_at := R_select 1, send_at := S_select 1\<rparr>) = R_select 1 \<and>
   demo_run (demo_closed config_default) [Internal, Internal]
     ((demo_closed config_default)\<lparr>recv_at := R_select 1, send_at := S_select 1\<rparr>)"
proof -
  let ?s = "demo_closed config_default"
  let ?s1 = "?s\<lparr>recv_at := R_select 1\<rparr>" and ?s2 = "?s\<lparr>recv_at := R_select 1, send_at := S_select 1\<rparr>"
  have r: "demo_run (system_new list_chan list_chan config_default True) [Closes] ?s"
    using run_one [OF demo_step_close [of config_default]] by (simp add: demo_def)
  have st: "recv_step list_chan list_chan list_chan ?s Internal ?s1"
    using recv_top [of ?s list_chan list_chan list_chan] by (simp add: demo_defs)
  have st2: "demo_step ?s1 Internal ?s2"
    using demo_step_send_top [of ?s1] by (simp add: demo_defs)
  have "demo_run ?s [Internal] ?s1" using st by (intro run_one) (simp add: step_def)
  then have "demo_run ?s [Internal, Internal] ?s2" by (rule run_more [OF _ st2]) simp
  moreover have "recv_at ?s2 = R_select 1"
    by (rule close_missed_by_receive_task [OF lse.session_env_axioms _ r _ _ st run_one [OF st2]])
      (simp_all add: demo_defs session_is_closed_def)
  ultimately show ?thesis by blast
qed

text \<open>
  From the frame channel to the wire: as long as the send task has not ended, the bytes written, the
  frame being written and the encoded frames in the channel together only grow at their end. No frame
  that was put into the channel is lost, repeated, reordered or changed on its way to the transport.
\<close>

lemma frames_reach_wire_in_order:
  assumes "session_env B F D A" "0 < max_receive_channel_buffer_size cfg"
    and "run B F D A (system_new F A cfg client) es s"
    and "run B F D A s es' s'" "send_at s' \<noteq> S_exit" "send_at s' \<noteq> S_done"
  shows "\<exists>fs. outgoing F s' = outgoing F s @ concat (map wire_bytes fs)"
proof -
  have adv: "advances F D A (system_new F A cfg client) s"
    by (rule session_env.run_wf [OF assms(1,3) session_env.system_wf_new [OF assms(1,2)]])
  then have "system_wf F D A s"
    "0 < max_receive_channel_buffer_size (session_config (inner s))"
    using assms(2) by (simp_all add: advances_def system_new_def session_new_def)
  from session_env.run_appends [OF assms(1,4) this] assms(5,6) show ?thesis
    by (simp add: only_appends_def)
qed

lemma frames_reach_wire_in_order_witness:
  "\<exists>fs. outgoing list_chan ((demo config_default)\<lparr>send_at := S_select 0\<rparr>) =
      outgoing list_chan (demo config_default) @ concat (map wire_bytes fs)"
proof -
  let ?s = "demo config_default"
  have r0: "demo_run (system_new list_chan list_chan config_default True) [] ?s"
    unfolding demo_def by (rule run_nil)
  have r1: "demo_run ?s [Internal] (?s\<lparr>send_at := S_select 0\<rparr>)"
    using run_one [OF demo_step_send_top [of ?s]] by (simp add: demo_defs)
  show ?thesis
    by (rule frames_reach_wire_in_order [OF lse.session_env_axioms _ r0 r1])
      (simp_all add: config_default_def)
qed

end
