(* ===== verification/Delivery.thy ===== *)
theory Delivery
  imports Tasks
begin

text \<open>
  What arrives: the receive task working through a sequence of frames, and the way of one stream's
  frames among those of others, from the accept queue to the reader.
\<close>

section \<open>A sequence of frames\<close>

text \<open>
  The receive task handles one frame after the other; \<open>None\<close> if a handler is suspended.
\<close>

fun recv_all ::
    "('fc, frame) flume_api \<Rightarrow> ('dc, bytes) flume_api \<Rightarrow> ('ac, stream) flume_api \<Rightarrow> frame list
     \<Rightarrow> ('fc, 'dc, 'ac) session_inner \<Rightarrow> ('fc, 'dc, 'ac) session_inner option" where
  "recv_all F D A [] s = Some s"
| "recv_all F D A (f # fs) s =
     (case recv_frame F D A f s of
        (s', Done r) \<Rightarrow> recv_all F D A fs s'
      | _ \<Rightarrow> None)"

definition syns :: "frame list \<Rightarrow> nat" where
  "syns fs = length (filter (\<lambda>f. frame_cmd f = Syn) fs)"

definition payload_bytes :: "frame list \<Rightarrow> nat" where
  "payload_bytes fs = sum_list (map (length \<circ> frame_data) fs)"

definition of_stream :: "u32 \<Rightarrow> frame list \<Rightarrow> frame list" where
  "of_stream sid fs = filter (\<lambda>f. frame_stream_id f = sid) fs"

lemma syns_Cons: "syns (f # fs) = (if frame_cmd f = Syn then 1 else 0) + syns fs"
  by (simp add: syns_def)

lemma payload_bytes_Cons: "payload_bytes (f # fs) = length (frame_data f) + payload_bytes fs"
  by (simp add: payload_bytes_def)

lemma of_stream_simps [simp]:
  "of_stream sid [] = []"
  "of_stream sid (f # fs) = (if frame_stream_id f = sid then f # of_stream sid fs else of_stream sid fs)"
  by (simp_all add: of_stream_def)

text \<open>
  When a sequence of frames is received without a suspension: the accept queue has a place for each
  SYN, the token balance is positive and below overflow.
\<close>

definition can_receive ::
    "('dc, bytes) flume_api \<Rightarrow> ('ac, stream) flume_api \<Rightarrow> frame list
     \<Rightarrow> ('fc, 'dc, 'ac) session_inner \<Rightarrow> bool" where
  "can_receive D A fs s \<longleftrightarrow>
     session_wf D A s \<and> length (contents A (accept_ch s)) + syns fs \<le> 16 \<and>
     0 < token_balance (shared s) \<and>
     token_balance (shared s) + int (payload_bytes fs) < 2 ^ 63"

text \<open>Whether a channel of the store belongs to no entry: it is then left alone for ever.\<close>

definition orphan :: "('fc, 'dc, 'ac) session_inner \<Rightarrow> nat \<Rightarrow> bool" where
  "orphan s a \<longleftrightarrow> a < length (data_chs s) \<and> (\<forall>sid sst. streams s sid = Some sst \<longrightarrow> data_tx sst \<noteq> a)"

context session_env
begin

lemma handle_syn_queue:
  assumes "session_wf D A s" "handle_syn_frame F D A f s = (s', out)"
    and "length (contents A (accept_ch s)) < 16"
  shows "(\<exists>r. out = Done r) \<and>
         (contents A (accept_ch s') = contents A (accept_ch s) \<or>
          contents A (accept_ch s') =
            contents A (accept_ch s) @ [stream_new (frame_stream_id f) (length (data_chs s))])"
proof -
  have "has_room A (accept_ch s)"
    using assms(1,3) by (simp add: session_wf_def accept_wf_def has_room_def)
  with assms(1) show ?thesis
    by (cases rule: handle_syn_cases [where f = f]) (use assms(2) in auto)
qed

lemma handle_other_accept:
  assumes "session_wf D A s" "handle_frame F D A f s = (s', out)" "frame_cmd f \<noteq> Syn"
  shows "accept_ch s' = accept_ch s"
proof (cases "frame_cmd f")
  case Psh
  then show ?thesis
    using assms(2) psh_deliver_shared [OF assms(1), of f s' out]
    by (auto simp: handle_frame_def handle_psh_frame_def psh_loop_def Let_def
        split: if_splits prod.splits)
qed (use assms in \<open>auto simp: handle_frame_def handle_fin_frame_def handle_upd_frame_def
    drop_data_tx_def Let_def split: option.splits\<close>)

text \<open>One frame of a sequence that can be received.\<close>

lemma recv_frame_step:
  assumes "can_receive D A (f # fs) s"
  obtains s' r where "recv_frame F D A f s = (s', Done r)"
    "handle_frame F D A f (s\<lparr>shared := mark_data_received (shared s)\<rparr>) = (s', Done r)"
    "session_wf D A (s\<lparr>shared := mark_data_received (shared s)\<rparr>)"
    "0 < token_balance (shared (s\<lparr>shared := mark_data_received (shared s)\<rparr>))"
    "can_receive D A fs s'" "is_client s' = is_client s"
    "closed (shared s') = closed (shared s)"
    "set (contents A (accept_ch s)) \<subseteq> set (contents A (accept_ch s'))"
proof -
  let ?s = "s\<lparr>shared := mark_data_received (shared s)\<rparr>"
  obtain s' out where run: "handle_frame F D A f ?s = (s', out)" by fastforce
  have wf: "session_wf D A ?s"
    using assms by (auto simp: can_receive_def intro: session_wf_fields)
  have b: "token_balance (shared ?s) = token_balance (shared s)" by (simp add: token_balance_def)
  have pos: "0 < token_balance (shared ?s)" using assms b by (simp add: can_receive_def)
  have small: "token_balance (shared ?s) + int (length (frame_data f)) < 2 ^ 63"
    using assms b by (simp add: can_receive_def payload_bytes_Cons)
  have queue: "(\<exists>r. out = Done r) \<and> set (contents A (accept_ch s)) \<subseteq> set (contents A (accept_ch s')) \<and>
     length (contents A (accept_ch s')) \<le> length (contents A (accept_ch s)) + syns [f]"
  proof (cases "frame_cmd f = Syn")
    case True
    then have "handle_syn_frame F D A f ?s = (s', out)" using run by (simp add: handle_frame_def)
    with handle_syn_queue [OF wf this] assms True show ?thesis
      by (auto simp: can_receive_def syns_Cons syns_def)
  next
    case False
    have "out \<noteq> Await_accept st" for st
      using run False handle_psh_refines [OF wf _ pos, of f s' out]
      by (cases "frame_cmd f")
        (auto simp: handle_frame_def handle_fin_frame_def handle_upd_frame_def Let_def
          split: option.splits)
    with handle_frame_no_await [OF wf pos run] handle_other_accept [OF wf run False] False
    show ?thesis by (cases out) (auto simp: syns_def)
  qed
  then obtain r where out: "out = Done r" by blast
  have "can_receive D A fs s'"
    using assms queue handle_frame_token_balance [OF wf run pos small] handle_frame_wf(1) [OF wf run]
      pos b
    by (simp add: can_receive_def syns_Cons syns_def payload_bytes_Cons split: if_splits)
  with that [of s' r] run out wf pos queue handle_frame_keeps [OF wf run] show ?thesis
    by (simp add: recv_frame_def)
qed

lemma recv_all_ConsE:
  assumes "can_receive D A (f # fs) s"
  obtains s' r where "recv_all F D A (f # fs) s = recv_all F D A fs s'"
    "handle_frame F D A f (s\<lparr>shared := mark_data_received (shared s)\<rparr>) = (s', Done r)"
    "session_wf D A (s\<lparr>shared := mark_data_received (shared s)\<rparr>)"
    "0 < token_balance (shared (s\<lparr>shared := mark_data_received (shared s)\<rparr>))"
    "can_receive D A fs s'" "is_client s' = is_client s" "closed (shared s') = closed (shared s)"
    "set (contents A (accept_ch s)) \<subseteq> set (contents A (accept_ch s'))"
  by (rule recv_frame_step [OF assms]) auto

text \<open>The whole sequence: nothing suspends the task, and the table follows the abstract steps.\<close>

lemma recv_all_refines:
  "can_receive D A fs s \<Longrightarrow>
   \<exists>s'. recv_all F D A fs s = Some s' \<and> can_receive D A [] s' \<and> is_client s' = is_client s \<and>
        closed (shared s') = closed (shared s) \<and>
        set (contents A (accept_ch s)) \<subseteq> set (contents A (accept_ch s')) \<and>
        table_of D s' = fold (spec_frame (is_client s)) fs (table_of D s)"
proof (induction fs arbitrary: s)
  case (Cons f fs)
  let ?s = "s\<lparr>shared := mark_data_received (shared s)\<rparr>"
  from Cons.prems show ?case
  proof (rule recv_all_ConsE)
    fix s1 r
    assume step: "recv_all F D A (f # fs) s = recv_all F D A fs s1"
      "handle_frame F D A f ?s = (s1, Done r)" "session_wf D A ?s"
      "0 < token_balance (shared ?s)" "can_receive D A fs s1" "is_client s1 = is_client s"
      "closed (shared s1) = closed (shared s)"
      "set (contents A (accept_ch s)) \<subseteq> set (contents A (accept_ch s1))"
    have "table_of D s1 = spec_frame (is_client s) f (table_of D ?s)"
      using handle_frame_refines [OF step(3) _ step(2)] step(4) by simp
    moreover have "table_of D ?s = table_of D s" by (rule table_of_cong) simp_all
    ultimately show ?case using Cons.IH [OF step(5)] step by auto
  qed
qed simp

section \<open>Following one channel\<close>

lemma handle_frame_entries:
  assumes "session_wf D A s" "handle_frame F D A f s = (s', out)" "0 < token_balance (shared s)"
    and "streams s' sid = Some sst"
  shows "streams s sid = Some sst \<or> data_tx sst = length (data_chs s)"
proof (cases "frame_cmd f")
  case Syn
  with assms(2) have run: "handle_syn_frame F D A f s = (s', out)" by (simp add: handle_frame_def)
  show ?thesis
    using assms(1)
    by (cases rule: handle_syn_cases [where f = f])
      (use run assms(4) in \<open>auto simp: stream_state_new_def split: if_splits\<close>)
next
  case Fin
  with assms(2,4) show ?thesis
    by (auto simp: handle_frame_def handle_fin_frame_def drop_data_tx_def Let_def
        split: option.splits if_splits)
next
  case Psh
  with assms(2-4) show ?thesis
    by (auto simp: handle_frame_def handle_psh_frame_def psh_loop_def psh_deliver_def Let_def
        get_tokens_def token_balance_def
        split: option.splits if_splits prod.splits poll.splits bool.splits)
qed (use assms in \<open>auto simp: handle_frame_def handle_upd_frame_def\<close>)

lemma handle_frame_other_channel:
  assumes "session_wf D A s" "handle_frame F D A f s = (s', out)" "0 < token_balance (shared s)"
    and "a < length (data_chs s)"
    and "\<forall>sst. streams s (frame_stream_id f) = Some sst \<longrightarrow> data_tx sst \<noteq> a"
  shows "data_chs s' ! a = data_chs s ! a \<and> a < length (data_chs s')"
proof (cases "frame_cmd f")
  case Syn
  with assms(2) have run: "handle_syn_frame F D A f s = (s', out)" by (simp add: handle_frame_def)
  show ?thesis
    using assms(1)
    by (cases rule: handle_syn_cases [where f = f])
      (use run assms(4) in \<open>auto simp: nth_append\<close>)
next
  case Fin
  with assms(2,4,5) show ?thesis
    by (auto simp: handle_frame_def handle_fin_frame_def drop_data_tx_def Let_def
        split: option.splits)
next
  case Psh
  with assms(2-5) show ?thesis
    by (auto simp: handle_frame_def handle_psh_frame_def psh_loop_def psh_deliver_def Let_def
        get_tokens_def token_balance_def data_chs_remove_stream
        split: option.splits if_splits prod.splits poll.splits bool.splits)
qed (use assms in \<open>auto simp: handle_frame_def handle_upd_frame_def\<close>)

lemma handle_frame_other_entry:
  assumes "session_wf D A s" "handle_frame F D A f s = (s', out)" "frame_stream_id f \<noteq> sid"
  shows "streams s' sid = streams s sid"
proof (cases "frame_cmd f")
  case Syn
  with assms(2) have run: "handle_syn_frame F D A f s = (s', out)" by (simp add: handle_frame_def)
  show ?thesis
    using assms(1)
    by (cases rule: handle_syn_cases [where f = f]) (use run assms(3) in auto)
next
  case Fin
  with assms show ?thesis
    by (auto simp: handle_frame_def handle_fin_frame_def drop_data_tx_def Let_def
        split: option.splits)
next
  case Psh
  with assms show ?thesis
    by (auto simp: handle_frame_def handle_psh_frame_def psh_loop_def psh_deliver_def Let_def
        split: option.splits if_splits prod.splits poll.splits bool.splits)
qed (use assms in \<open>auto simp: handle_frame_def handle_upd_frame_def\<close>)

lemma orphan_untouched:
  "\<lbrakk>can_receive D A fs s; orphan s a; recv_all F D A fs s = Some s'\<rbrakk>
   \<Longrightarrow> data_chs s' ! a = data_chs s ! a"
proof (induction fs arbitrary: s)
  case (Cons f fs)
  let ?s = "s\<lparr>shared := mark_data_received (shared s)\<rparr>"
  from Cons.prems(1) show ?case
  proof (rule recv_all_ConsE)
    fix s1 r
    assume step: "recv_all F D A (f # fs) s = recv_all F D A fs s1"
      "handle_frame F D A f ?s = (s1, Done r)" "session_wf D A ?s"
      "0 < token_balance (shared ?s)" "can_receive D A fs s1"
    have "data_chs s1 ! a = data_chs s ! a \<and> a < length (data_chs s1)"
      using handle_frame_other_channel [OF step(3,2,4), of a] Cons.prems(2)
      by (simp add: orphan_def)
    moreover have "orphan s1 a"
      using handle_frame_entries [OF step(3,2,4)] Cons.prems(2) calculation
      by (fastforce simp: orphan_def)
    ultimately show ?case using Cons.IH [OF step(5)] Cons.prems(3) step(1) by simp
  qed
qed simp

lemma handle_psh_own:
  assumes "session_wf D A s" "handle_frame F D A f s = (s', out)" "0 < token_balance (shared s)"
    and "frame_cmd f = Psh" "frame_data f \<noteq> []" "streams s (frame_stream_id f) = Some sst"
    and "\<not> receivers_gone D (data_chs s ! data_tx sst)"
  shows "streams s' = streams s \<and>
         contents D (data_chs s' ! data_tx sst) = contents D (data_chs s ! data_tx sst) @ [frame_data f] \<and>
         \<not> receivers_gone D (data_chs s' ! data_tx sst)"
proof -
  have tw: "table_wf D (streams s) (data_chs s)" using assms(1) by (simp add: session_wf_def)
  note sst = table_wfD [OF tw assms(6)]
  have run: "psh_deliver D f s = (s', out)"
    using assms(2-5)
    by (simp add: handle_frame_def handle_psh_frame_def psh_loop_def get_tokens_def token_balance_def)
  have "capacity D (data_chs s ! data_tx sst) \<noteq> Some 0" using sst by simp
  then show ?thesis
    by (cases rule: data.send_cases [where x = "frame_data f"])
      (use run assms(6,7) sst in
        \<open>auto simp: psh_deliver_def Let_def send_async_def has_room_def\<close>)
qed

lemma handle_fin_own:
  assumes "session_wf D A s" "handle_frame F D A f s = (s', out)" "frame_cmd f = Fin"
    and "streams s (frame_stream_id f) = Some sst"
  shows "data_chs s' ! data_tx sst = drop_sender D (data_chs s ! data_tx sst) \<and>
         orphan s' (data_tx sst)"
proof -
  have tw: "table_wf D (streams s) (data_chs s)" using assms(1) by (simp add: session_wf_def)
  from assms(2-4) have "streams s' = (streams s)(frame_stream_id f := None)"
    "data_chs s' = (data_chs s)[data_tx sst := drop_sender D (data_chs s ! data_tx sst)]"
    by (auto simp: handle_frame_def handle_fin_frame_def drop_data_tx_def Let_def)
  with table_wfD(1,4) [OF tw assms(4)] show ?thesis
    by (fastforce simp: orphan_def split: if_splits)
qed

text \<open>
  The frames of an open stream, among others: its channel receives exactly its data, in order, and
  its sender is gone after the FIN.
\<close>

lemma deliver_open:
  "\<lbrakk>can_receive D A fs s; streams s sid = Some sst;
    \<not> receivers_gone D (data_chs s ! data_tx sst);
    of_stream sid fs = map (new_psh 1 sid) ps @ [new_fin 1 sid]; [] \<notin> set ps;
    recv_all F D A fs s = Some s'\<rbrakk>
   \<Longrightarrow> contents D (data_chs s' ! data_tx sst) = contents D (data_chs s ! data_tx sst) @ ps \<and>
       senders_gone D (data_chs s' ! data_tx sst) \<and> \<not> receivers_gone D (data_chs s' ! data_tx sst)"
proof (induction fs arbitrary: s ps)
  case (Cons f fs)
  let ?s = "s\<lparr>shared := mark_data_received (shared s)\<rparr>" and ?a = "data_tx sst"
  from Cons.prems(1) show ?case
  proof (rule recv_all_ConsE)
    fix s1 r
    assume step: "recv_all F D A (f # fs) s = recv_all F D A fs s1"
      "handle_frame F D A f ?s = (s1, Done r)" "session_wf D A ?s"
      "0 < token_balance (shared ?s)" "can_receive D A fs s1"
    have tw: "table_wf D (streams s) (data_chs s)"
      using step(3) by (simp add: session_wf_def)
    note sst = table_wfD [OF tw Cons.prems(2)]
    have rest: "recv_all F D A fs s1 = Some s'" using Cons.prems(6) step(1) by simp
    show ?case
    proof (cases "frame_stream_id f = sid")
      case False
      then have "streams s1 sid = Some sst"
        using handle_frame_other_entry [OF step(3,2)] Cons.prems(2) by simp
      moreover have "data_chs s1 ! ?a = data_chs s ! ?a"
        using handle_frame_other_channel [OF step(3,2,4), of ?a] sst(1,4) False by simp
      ultimately show ?thesis
        using Cons.IH [OF step(5) _ _ _ _ rest, of ps] Cons.prems(3-5) False by simp
    next
      case own: True
      show ?thesis
      proof (cases ps)
        case Nil
        with own Cons.prems(4) have "f = new_fin 1 sid" by simp
        then have "data_chs s1 ! ?a = drop_sender D (data_chs s ! ?a) \<and> orphan s1 ?a"
          using handle_fin_own [OF step(3,2), of sst] Cons.prems(2) by (simp add: frame_new_defs)
        with orphan_untouched [OF step(5) _ rest, of ?a] Nil Cons.prems(3) show ?thesis
          by (simp add: data.drop_sender_laws)
      next
        case (Cons p ps')
        with own Cons.prems(4,5) have f: "f = new_psh 1 sid p" "p \<noteq> []"
          "of_stream sid fs = map (new_psh 1 sid) ps' @ [new_fin 1 sid]" by auto
        then have "streams s1 = streams s \<and> contents D (data_chs s1 ! ?a) =
            contents D (data_chs s ! ?a) @ [p] \<and> \<not> receivers_gone D (data_chs s1 ! ?a)"
          using handle_psh_own [OF step(3,2,4), of sst] Cons.prems(2,3)
          by (simp add: frame_new_defs)
        with Cons.IH [OF step(5) _ _ f(3) _ rest] Cons.prems(2,5) Cons show ?thesis by simp
      qed
    qed
  qed
qed simp

text \<open>
  A stream that the peer opens, fills and finishes: it is in the accept queue, over a channel that
  holds its data.
\<close>

lemma deliver_new:
  "\<lbrakk>can_receive D A fs s; streams s sid = None; peer_id (is_client s) sid;
    of_stream sid fs = new_syn v sid # map (new_psh 1 sid) ps @ [new_fin 1 sid]; [] \<notin> set ps;
    recv_all F D A fs s = Some s'\<rbrakk>
   \<Longrightarrow> \<exists>a. stream_new sid a \<in> set (contents A (accept_ch s')) \<and>
         contents D (data_chs s' ! a) = ps \<and> senders_gone D (data_chs s' ! a)"
proof (induction fs arbitrary: s)
  case (Cons f fs)
  let ?s = "s\<lparr>shared := mark_data_received (shared s)\<rparr>"
  from Cons.prems(1) show ?case
  proof (rule recv_all_ConsE)
    fix s1 r
    assume step: "recv_all F D A (f # fs) s = recv_all F D A fs s1"
      "handle_frame F D A f ?s = (s1, Done r)" "session_wf D A ?s"
      "0 < token_balance (shared ?s)" "can_receive D A fs s1" "is_client s1 = is_client s"
    have rest: "recv_all F D A fs s1 = Some s'" using Cons.prems(6) step(1) by simp
    show ?case
    proof (cases "frame_stream_id f = sid")
      case False
      then have "streams s1 sid = None"
        using handle_frame_other_entry [OF step(3,2)] Cons.prems(2) by simp
      then show ?thesis
        using Cons.IH [OF step(5) _ _ _ _ rest] Cons.prems(3-5) step(6) False by simp
    next
      case own: True
      with Cons.prems(4) have f: "f = new_syn v sid"
        "of_stream sid fs = map (new_psh 1 sid) ps @ [new_fin 1 sid]" by auto
      then have run: "handle_syn_frame F D A f ?s = (s1, Done r)"
        using step(2) by (simp add: handle_frame_def frame_new_defs)
      have room: "length (contents A (accept_ch ?s)) < 16"
        using Cons.prems(1) f(1) by (simp add: can_receive_def syns_Cons frame_new_defs)
      have has: "has_room A (accept_ch ?s)"
        using step(3) room by (simp add: session_wf_def accept_wf_def has_room_def)
      have "stream_new sid (length (data_chs s)) \<in> set (contents A (accept_ch s1)) \<and>
        streams s1 sid = Some (stream_state_new (length (data_chs s))) \<and>
        data_chs s1 ! length (data_chs s) = unbounded D"
        using step(3)
        by (cases rule: handle_syn_cases [where f = f]) (use run Cons.prems(2,3) own has in auto)
      then have new: "stream_new sid (length (data_chs s)) \<in> set (contents A (accept_ch s1))"
        "streams s1 sid = Some (stream_state_new (length (data_chs s)))"
        "data_chs s1 ! length (data_chs s) = unbounded D" by simp_all
      have "\<not> receivers_gone D (data_chs s1 ! data_tx (stream_state_new (length (data_chs s))))"
        using new(3) by (simp add: stream_state_new_def data.unbounded_new)
      from deliver_open [OF step(5) new(2) this f(2) Cons.prems(5) rest] new(3)
      have "contents D (data_chs s' ! length (data_chs s)) = ps"
        "senders_gone D (data_chs s' ! length (data_chs s))"
        by (simp_all add: stream_state_new_def data.unbounded_new)
      moreover have "set (contents A (accept_ch s1)) \<subseteq> set (contents A (accept_ch s'))"
        using recv_all_refines [OF step(5)] rest by auto
      ultimately show ?thesis using new(1) by blast
    qed
  qed
qed simp

end

section \<open>What one stream sees\<close>

lemma spec_frame_other: "sid \<noteq> frame_stream_id f \<Longrightarrow> spec_frame c f q sid = q sid"
  by (auto simp: spec_frame_def Let_def split: command.splits option.splits)

lemma spec_frame_own:
  "q (frame_stream_id f) = q' (frame_stream_id f) \<Longrightarrow>
   spec_frame c f q (frame_stream_id f) = spec_frame c f q' (frame_stream_id f)"
  by (auto simp: spec_frame_def Let_def split: command.splits option.splits)

lemma fold_spec_frame_own:
  "q sid = q' sid \<Longrightarrow>
   fold (spec_frame c) fs q sid = fold (spec_frame c) (of_stream sid fs) q' sid"
proof (induction fs arbitrary: q q')
  case (Cons f fs)
  show ?case
  proof (cases "frame_stream_id f = sid")
    case True
    with Cons.prems have "spec_frame c f q sid = spec_frame c f q' sid"
      using spec_frame_own [of q f q' c] by simp
    with True Cons.IH show ?thesis by simp
  next
    case False
    with Cons.prems have "spec_frame c f q sid = q' sid" by (simp add: spec_frame_other)
    with False Cons.IH show ?thesis by simp
  qed
qed simp

lemma can_receive_of_stream: "can_receive D A fs s \<Longrightarrow> can_receive D A (of_stream sid fs) s"
proof -
  have "syns (of_stream sid fs) \<le> syns fs"
    by (induction fs) (auto simp: syns_Cons)
  moreover have "payload_bytes (of_stream sid fs) \<le> payload_bytes fs"
    by (induction fs) (auto simp: payload_bytes_Cons)
  ultimately show "can_receive D A fs s \<Longrightarrow> can_receive D A (of_stream sid fs) s"
    by (auto simp: can_receive_def)
qed

section \<open>Properties\<close>

text \<open>
  Receiving a sequence of frames: with a place in the accept queue for each SYN and a positive token
  balance, no handler is ever suspended, the session stays well formed and open if it was, and the
  table is the abstract table stepped through the whole sequence.
\<close>

lemma receive_sequence_refines:
  assumes "session_env B F D A" "can_receive D A fs s"
  shows "\<exists>s'. recv_all F D A fs s = Some s' \<and> session_wf D A s' \<and>
           (session_is_closed s' \<longleftrightarrow> session_is_closed s) \<and>
           table_of D s' = fold (spec_frame (is_client s)) fs (table_of D s)"
  using session_env.recv_all_refines [OF assms]
  by (auto simp: can_receive_def session_is_closed_def is_closed_def)

lemma can_receive_demo:
  "\<lbrakk>syns fs \<le> 16; payload_bytes fs < 1000\<rbrakk> \<Longrightarrow>
   can_receive list_chan list_chan fs
     (session_new list_chan list_chan config_default c
        :: (frame lchan, bytes lchan, stream lchan) session_inner)"
  using session_wf_demo [of c] token_balance_new [of "max_receive_buffer config_default"]
  by (simp add: can_receive_def session_new_def config_default_def list_chan_simps)

lemma receive_sequence_refines_witness:
  "\<exists>s'. recv_all list_chan list_chan list_chan
       [new_syn 1 3, new_psh 1 3 [7], new_syn 1 5, new_psh 1 3 [8, 9], new_psh 1 9 [1]]
       (session_new list_chan list_chan config_default False
          :: (frame lchan, bytes lchan, stream lchan) session_inner) = Some s' \<and>
     table_of list_chan s' 3 = Some (Some [[7], [8, 9]])"
proof -
  let ?fs = "[new_syn 1 3, new_psh 1 3 [7], new_syn 1 5, new_psh 1 3 [8, 9], new_psh 1 9 [1]]"
  let ?s = "session_new list_chan list_chan config_default False
     :: (frame lchan, bytes lchan, stream lchan) session_inner"
  have "can_receive list_chan list_chan ?fs ?s"
    by (rule can_receive_demo)
      (simp_all add: syns_def payload_bytes_def frame_new_defs)
  moreover have "table_of list_chan ?s = Map.empty" "is_client ?s = False"
    by (simp_all add: table_of_def session_new_def)
  ultimately obtain s' where s': "recv_all list_chan list_chan list_chan ?fs ?s = Some s'"
    "table_of list_chan s' = fold (spec_frame False) ?fs Map.empty"
    using receive_sequence_refines [OF lse.session_env_axioms, of ?fs ?s] by metis
  have "fold (spec_frame False) ?fs Map.empty 3 = Some (Some [[7], [8, 9]])"
    by (simp add: spec_frame_def frame_new_defs peer_id_def)
  with s' show ?thesis by auto
qed

text \<open>
  Streams do not disturb each other: what a stream has in the table after a sequence of frames is what
  it has after its own frames alone, whatever the frames of other streams between them.
\<close>

lemma streams_do_not_interfere:
  assumes "session_env B F D A" "can_receive D A fs s"
    and "recv_all F D A fs s = Some s1" "recv_all F D A (of_stream sid fs) s = Some s2"
  shows "table_of D s1 sid = table_of D s2 sid"
proof -
  note own = can_receive_of_stream [OF assms(2)]
  have "table_of D s1 = fold (spec_frame (is_client s)) fs (table_of D s)"
    using session_env.recv_all_refines [OF assms(1,2)] assms(3) by auto
  moreover have "table_of D s2 = fold (spec_frame (is_client s)) (of_stream sid fs) (table_of D s)"
    using session_env.recv_all_refines [OF assms(1) own [of sid]] assms(4) by auto
  ultimately show ?thesis using fold_spec_frame_own [of "table_of D s" sid] by metis
qed

lemma streams_do_not_interfere_witness:
  "\<exists>s1 s2 :: (frame lchan, bytes lchan, stream lchan) session_inner.
     recv_all list_chan list_chan list_chan [new_syn 1 3, new_syn 1 5, new_psh 1 5 [1], new_psh 1 3 [7]]
       (session_new list_chan list_chan config_default False) = Some s1 \<and>
     recv_all list_chan list_chan list_chan [new_syn 1 3, new_psh 1 3 [7]]
       (session_new list_chan list_chan config_default False) = Some s2 \<and>
     table_of list_chan s1 3 = table_of list_chan s2 3"
proof -
  let ?fs = "[new_syn 1 3, new_syn 1 5, new_psh 1 5 [1], new_psh 1 3 [7]]"
  let ?s = "session_new list_chan list_chan config_default False
     :: (frame lchan, bytes lchan, stream lchan) session_inner"
  have c: "can_receive list_chan list_chan ?fs ?s"
    by (rule can_receive_demo) (simp_all add: syns_def payload_bytes_def frame_new_defs)
  have own: "of_stream 3 ?fs = [new_syn 1 3, new_psh 1 3 [7]]"
    by (simp add: of_stream_def frame_new_defs)
  obtain s1 s2 where r: "recv_all list_chan list_chan list_chan ?fs ?s = Some s1"
    "recv_all list_chan list_chan list_chan (of_stream 3 ?fs) ?s = Some s2"
    using lse.recv_all_refines [OF c] lse.recv_all_refines [OF can_receive_of_stream [OF c, of 3]]
    by blast
  from streams_do_not_interfere [OF lse.session_env_axioms c r] r own show ?thesis by metis
qed

end
