(* ===== verification/Executions.thy ===== *)
theory Executions
  imports Runs
begin

text \<open>
  Running the system: \<open>perform\<close> computes what a chosen action of a task, of the transport, of the clock or
  of the application does, and \<open>execute\<close> a list of such actions. Every execution is a run, so concrete
  runs are found by evaluation.
\<close>

datatype action =
    Do_recv | Do_arrive frame | Do_read_fails | Do_send | Do_keep | Do_ping | Do_timeout
  | Do_open | Do_open_send nat | Do_accept | Do_accept_select nat | Do_accept_poll nat
  | Do_read nat nat | Do_write nat bytes | Do_op nat stream_op | Do_cancel_close nat | Do_drop nat | Do_close

definition do_recv ::
    "('fc, frame) flume_api \<Rightarrow> ('dc, bytes) flume_api \<Rightarrow> ('ac, stream) flume_api
     \<Rightarrow> ('fc, 'dc, 'ac) system \<Rightarrow> (event \<times> ('fc, 'dc, 'ac) system) option" where
  "do_recv F D A s =
     (case recv_at s of
        R_top \<Rightarrow> Some (Internal, s\<lparr>recv_at := R_select (die_notified (shared (inner s)))\<rparr>)
      | R_select g \<Rightarrow>
          (if g < die_notified (shared (inner s))
           then Some (Internal, s\<lparr>inner := recv_end (inner s), recv_at := R_done\<rparr>) else None)
      | R_accept st \<Rightarrow>
          (let (i, out) = syn_send F D A st (inner s)
           in Some (Internal, s\<lparr>inner := i, recv_at := recv_after out\<rparr>))
      | _ \<Rightarrow> None)"

definition do_send ::
    "bytes_api \<Rightarrow> ('fc, frame) flume_api
     \<Rightarrow> ('fc, 'dc, 'ac) system \<Rightarrow> (event \<times> ('fc, 'dc, 'ac) system) option" where
  "do_send B F s =
     (case send_at s of
        S_top \<Rightarrow> Some (Internal, s\<lparr>send_at := S_select (die_notified (shared (inner s)))\<rparr>)
      | S_select g \<Rightarrow>
          (case try_recv F (frame_ch (inner s)) of
             (fc, Received f) \<Rightarrow>
               Some (Internal, s\<lparr>inner := (inner s)\<lparr>frame_ch := fc\<rparr>, send_at := S_sending f\<rparr>)
           | _ \<Rightarrow>
               (if g < die_notified (shared (inner s))
                then Some (Internal, s\<lparr>inner := send_end (inner s), send_at := S_exit\<rparr>) else None))
      | S_sending f \<Rightarrow>
          (case encode B (codec_new (session_config (inner s))) f [] of
             (bs, Inr u) \<Rightarrow> Some (Departs f, s\<lparr>wire := wire s @ bs, send_at := S_top\<rparr>)
           | (bs, Inl e) \<Rightarrow> Some (Internal, s\<lparr>inner := send_end (inner s), send_at := S_exit\<rparr>))
      | S_exit \<Rightarrow> Some (Internal, s\<lparr>inner := send_return F (inner s), send_at := S_done\<rparr>)
      | S_done \<Rightarrow> None)"

definition do_keep ::
    "('fc, frame) flume_api \<Rightarrow> ('fc, 'dc, 'ac) system \<Rightarrow> (event \<times> ('fc, 'dc, 'ac) system) option" where
  "do_keep F s =
     (case keep_at s of
        K_top \<Rightarrow> Some (Internal, s\<lparr>keep_at := K_select (die_notified (shared (inner s)))\<rparr>)
      | K_select g \<Rightarrow>
          (if g < die_notified (shared (inner s))
           then Some (Internal, s\<lparr>keep_at := K_done\<rparr>) else None)
      | K_ping f \<Rightarrow>
          (case send_async F (frame_ch (inner s)) f of
             (fc, Ready sent) \<Rightarrow>
               Some (Internal, s\<lparr>inner := (inner s)\<lparr>frame_ch := fc\<rparr>,
                                 keep_at := (if sent then K_top else K_done)\<rparr>)
           | _ \<Rightarrow> None)
      | K_done \<Rightarrow> None)"

fun perform ::
    "bytes_api \<Rightarrow> ('fc, frame) flume_api \<Rightarrow> ('dc, bytes) flume_api \<Rightarrow> ('ac, stream) flume_api
     \<Rightarrow> action \<Rightarrow> ('fc, 'dc, 'ac) system \<Rightarrow> (event \<times> ('fc, 'dc, 'ac) system) option" where
  "perform B F D A Do_recv s = do_recv F D A s"
| "perform B F D A (Do_arrive f) s =
     (case recv_at s of
        R_select g \<Rightarrow>
          (let (i, out) = recv_frame F D A f (inner s)
           in Some (Arrives f, s\<lparr>inner := i, recv_at := recv_after out\<rparr>))
      | _ \<Rightarrow> None)"
| "perform B F D A Do_read_fails s =
     (case recv_at s of
        R_select g \<Rightarrow> Some (Transport_fails, s\<lparr>inner := recv_end (inner s), recv_at := R_done\<rparr>)
      | _ \<Rightarrow> None)"
| "perform B F D A Do_send s = do_send B F s"
| "perform B F D A Do_keep s = do_keep F s"
| "perform B F D A Do_ping s =
     (case keep_at s of
        K_select g \<Rightarrow>
          Some (Ping_tick, s\<lparr>keep_at := K_ping (new_nop (config_version (session_config (inner s))))\<rparr>)
      | _ \<Rightarrow> None)"
| "perform B F D A Do_timeout s =
     (case keep_at s of
        K_select g \<Rightarrow>
          (let (ss, stop) = keep_timeout (shared (inner s))
           in Some (Timeout_tick, s\<lparr>inner := (inner s)\<lparr>shared := ss\<rparr>,
                                    keep_at := (if stop then K_done else K_top)\<rparr>))
      | _ \<Rightarrow> None)"
| "perform B F D A Do_open s =
     (case open_stream_prepare D (inner s) of
        (i, Inr st) \<Rightarrow>
          Some (Opens (stream_id st), s\<lparr>inner := i, pending_opens := pending_opens s @ [st]\<rparr>)
      | (i, Inl e) \<Rightarrow> Some (App, s\<lparr>inner := i\<rparr>))"
| "perform B F D A (Do_open_send k) s =
     (if k < length (pending_opens s)
      then case open_stream_send F D (pending_opens s ! k) (inner s) of
             (i, Ready (Inr st)) \<Rightarrow>
               Some (App, s\<lparr>inner := i, pending_opens := remove_nth k (pending_opens s),
                            handles := handles s @ [(st, False)]\<rparr>)
           | _ \<Rightarrow> None
      else None)"
| "perform B F D A Do_accept s =
     (if is_closed (shared (inner s)) then None
      else Some (App, s\<lparr>accepting := accepting s @ [A_top]\<rparr>))"
| "perform B F D A (Do_accept_select k) s =
     (if k < length (accepting s) \<and> accepting s ! k = A_top
      then Some (App, s\<lparr>accepting := (accepting s)[k := A_select (die_notified (shared (inner s)))]\<rparr>)
      else None)"
| "perform B F D A (Do_accept_poll k) s =
     (if k < length (accepting s)
      then case accepting s ! k of
             A_select g \<Rightarrow>
               (case accept_select A (g < die_notified (shared (inner s))) False (inner s) of
                  (i, Ready (Inr st)) \<Rightarrow>
                    Some (Accepts (stream_id st), s\<lparr>inner := i, accepting := remove_nth k (accepting s),
                                 handles := handles s @ [(st, False)]\<rparr>)
                | _ \<Rightarrow> None)
           | _ \<Rightarrow> None
      else None)"
| "perform B F D A (Do_read k n) s =
     (if k < length (handles s)
      then let st = fst (handles s ! k);
               ((st', ch, ss), r) =
                 poll_read B D st (data_chs (inner s) ! data_rx st) (shared (inner s)) n
           in Some (Reads (stream_id st) n r,
                s\<lparr>inner := (inner s)\<lparr>data_chs := (data_chs (inner s))[data_rx st := ch], shared := ss\<rparr>,
                  handles := (handles s)[k := (st', False)]\<rparr>)
      else None)"
| "perform B F D A (Do_write k buf) s =
     (if k < length (handles s)
      then let st = fst (handles s ! k);
               (fc, r) = poll_write F (session_config (inner s)) st (frame_ch (inner s))
                           (shared (inner s)) buf
           in Some (Writes (stream_id st) (accepted_bytes buf r),
                s\<lparr>inner := (inner s)\<lparr>frame_ch := fc\<rparr>, handles := (handles s)[k := (st, False)]\<rparr>)
      else None)"
| "perform B F D A (Do_op k op) s =
     (if k < length (handles s) \<and> op \<in> {Op_shutdown, Op_close, Op_close_again}
      then let (h, fc) = apply_op F (session_config (inner s)) (handles s ! k)
                           (op, frame_ch (inner s), shared (inner s))
           in Some (App, s\<lparr>inner := (inner s)\<lparr>frame_ch := fc\<rparr>, handles := (handles s)[k := h]\<rparr>)
      else None)"
| "perform B F D A (Do_cancel_close k) s =
     (if k < length (handles s) \<and> snd (handles s ! k)
      then Some (App, s\<lparr>handles := (handles s)[k := (fst (handles s ! k), False)]\<rparr>)
      else None)"
| "perform B F D A (Do_drop k) s =
     (if k < length (handles s)
      then Some (Drops (stream_id (fst (handles s ! k))),
                 s\<lparr>inner := drop_stream F D (fst (handles s ! k)) (inner s),
                   handles := remove_nth k (handles s)\<rparr>)
      else None)"
| "perform B F D A Do_close s = Some (Closes, s\<lparr>inner := fst (session_close (inner s))\<rparr>)"

fun execute ::
    "bytes_api \<Rightarrow> ('fc, frame) flume_api \<Rightarrow> ('dc, bytes) flume_api \<Rightarrow> ('ac, stream) flume_api
     \<Rightarrow> action list \<Rightarrow> ('fc, 'dc, 'ac) system \<Rightarrow> (event list \<times> ('fc, 'dc, 'ac) system) option" where
  "execute B F D A [] s = Some ([], s)"
| "execute B F D A (a # as) s =
     (case perform B F D A a s of
        None \<Rightarrow> None
      | Some (e, s') \<Rightarrow> map_option (apfst ((#) e)) (execute B F D A as s'))"

section \<open>Executions are runs\<close>

lemma do_recv_step: "do_recv F D A s = Some (e, s') \<Longrightarrow> recv_step F D A s e s'"
  by (auto simp: do_recv_def split: recv_pc.splits prod.splits if_splits
      intro: recv_top recv_closed recv_accept)

lemma do_send_step: "do_send B F s = Some (e, s') \<Longrightarrow> send_step B F s e s'"
  by (auto simp: do_send_def split: send_pc.splits prod.splits if_splits recv_result.splits sum.splits
      intro: send_top send_frame send_closed send_write send_refused send_returns)

lemma do_keep_step: "do_keep F s = Some (e, s') \<Longrightarrow> keep_step F s e s'"
  using keep_sends [of s _ F _ True] keep_sends [of s _ F _ False]
  by (auto simp: do_keep_def split: keep_pc.splits prod.splits if_splits poll.splits
      intro: keep_top keep_closed)

lemma perform_app:
  assumes "perform B F D A a s = Some (e, s')"
    and "a \<notin> {Do_recv, Do_read_fails, Do_send, Do_keep, Do_ping, Do_timeout} \<union> range Do_arrive"
  shows "app_step B F D A s e s'"
proof (cases a)
  case (Do_read k n)
  obtain st closing where h: "handles s ! k = (st, closing)" by fastforce
  obtain st' ch ss r where
    "poll_read B D st (data_chs (inner s) ! data_rx st) (shared (inner s)) n = ((st', ch, ss), r)"
    by (metis surj_pair)
  with assms(1) h Do_read show ?thesis by (auto split: if_splits intro: app_read [OF _ h])
next
  case (Do_write k buf)
  obtain st closing where h: "handles s ! k = (st, closing)" by fastforce
  with assms(1) Do_write show ?thesis by (auto split: if_splits prod.splits intro: app_write [OF _ h])
next
  case (Do_cancel_close k)
  with assms(1) show ?thesis by (cases "handles s ! k") (auto split: if_splits intro: app_close_cancel)
next
  case Do_close
  with assms(1) show ?thesis by (auto intro: app_close [OF prod.collapse [symmetric]])
qed (use assms in \<open>auto split: prod.splits if_splits sum.splits poll.splits accept_pc.splits
    intro: app_open app_open_fails app_opened app_accept_call app_accept_select app_accepted app_stream
      app_drop\<close>)

lemma perform_step: "perform B F D A a s = Some (e, s') \<Longrightarrow> step B F D A s e s'"
proof -
  assume run: "perform B F D A a s = Some (e, s')"
  show "step B F D A s e s'"
  proof (cases "a \<in> {Do_recv, Do_read_fails, Do_send, Do_keep, Do_ping, Do_timeout} \<union> range Do_arrive")
    case True
    then show ?thesis
      using run keep_ticks [of s _ _ True F] keep_ticks [of s _ _ False F]
      by (auto simp: step_def split: recv_pc.splits keep_pc.splits prod.splits
          intro: recv_arrives recv_fails keep_ping dest: do_recv_step do_send_step do_keep_step)
  next
    case False
    with perform_app [OF run] show ?thesis by (simp add: step_def)
  qed
qed

lemma run_append: "\<lbrakk>run B F D A s es s'; run B F D A s' es' s''\<rbrakk> \<Longrightarrow> run B F D A s (es @ es') s''"
proof (rotate_tac, induction rule: run.induct)
  case (run_snoc s' es' s1 e s'')
  then show ?case using run.run_snoc by (metis append_assoc)
qed simp

lemma execute_run: "execute B F D A as s = Some (es, s') \<Longrightarrow> run B F D A s es s'"
proof (induction as arbitrary: s es)
  case (Cons a as)
  then obtain e s1 es1 where "perform B F D A a s = Some (e, s1)" "es = e # es1"
    "execute B F D A as s1 = Some (es1, s')"
    by (auto split: option.splits)
  with run_append [OF run_one [OF perform_step]] Cons.IH show ?case by fastforce
qed (simp add: run_nil)

text \<open>Executions on the instances of lists.\<close>

lemmas exec_simps =
  do_recv_def do_send_def do_keep_def demo_defs session_run_simps
  open_stream_prepare_def next_stream_id_def open_stream_send_def send_async_def
  encode_def frame_validate_def validate_stream_id_def encode_header_def list_bytes_def
  codec_new_def poll_write_def poll_shutdown_def total_size_def u16_to_le_bytes_def u32_to_le_bytes_def
  recv_frame_def handle_frame_def handle_syn_frame_def validate_peer_stream_id_def syn_send_def
  handle_psh_frame_def psh_loop_def psh_deliver_def get_tokens_def handle_fin_frame_def drop_data_tx_def
  accept_select_def remove_nth_def poll_read_def poll_read_recv_def return_tokens_def stream_close_def
  mark_data_received_def

abbreviation demo_execute :: "action list \<Rightarrow> list_system \<Rightarrow> (event list \<times> list_system) option" where
  "demo_execute \<equiv> execute list_bytes list_chan list_chan list_chan"

end
