(* ===== verification/Stores.thy ===== *)
theory Stores
  imports Runs Delivery Executions "HOL-Library.Multiset"
begin

text \<open>
  The data channels of a running system and their owners. A stream that somebody holds (the receive task
  that hands it over, the accept queue, a call of \<open>open_stream\<close>, or the application) is the one reader
  of its data channel; the table's entry for its identifier is the one writer. The store of a system is
  this part of it, \<open>store_step\<close> is what the steps of the system do to it, and every run keeps it so
  that no channel has two readers or two writers.
\<close>

section \<open>The store\<close>

definition recv_holds :: "recv_pc \<Rightarrow> stream list" where
  "recv_holds pc = (case pc of R_accept st \<Rightarrow> [st] | _ \<Rightarrow> [])"

definition held_streams ::
    "('ac, stream) flume_api \<Rightarrow> ('fc, 'dc, 'ac) system \<Rightarrow> stream multiset" where
  "held_streams A s =
     mset (recv_holds (recv_at s)) + mset (contents A (accept_ch (inner s))) +
     mset (pending_opens s) + mset (map fst (handles s))"

record 'dc store =
  entries :: "u32 \<rightharpoonup> stream_state"
  chans :: "'dc list"
  held :: "stream multiset"

definition store_of :: "('ac, stream) flume_api \<Rightarrow> ('fc, 'dc, 'ac) system \<Rightarrow> 'dc store" where
  "store_of A s =
     \<lparr>entries = streams (inner s), chans = data_chs (inner s), held = held_streams A s\<rparr>"

text \<open>Dropping the sender of an identifier's channel with its entry, and a new stream with its channel.\<close>

definition unlink :: "('dc, bytes) flume_api \<Rightarrow> u32 \<Rightarrow> 'dc store \<Rightarrow> 'dc store" where
  "unlink D sid w =
     (case entries w sid of
        None \<Rightarrow> w
      | Some sst \<Rightarrow>
          w\<lparr>entries := (entries w)(sid := None),
            chans := (chans w)[data_tx sst := drop_sender D (chans w ! data_tx sst)]\<rparr>)"

definition born :: "('dc, bytes) flume_api \<Rightarrow> u32 \<Rightarrow> 'dc store \<Rightarrow> 'dc store" where
  "born D sid w =
     (let a = length (chans w); w = unlink D sid w in
      w\<lparr>entries := (entries w)(sid \<mapsto> stream_state_new a),
        chans := chans w @ [unbounded D],
        held := add_mset (stream_new sid a) (held w)\<rparr>)"

text \<open>Events that say nothing about a data channel, and frames that change none.\<close>

fun quiet :: "event \<Rightarrow> bool" where
  "quiet (Arrives f) = False"
| "quiet (Opens sid) = False"
| "quiet (Reads sid n r) = False"
| "quiet _ = True"

definition no_effect :: "bool \<Rightarrow> 'dc store \<Rightarrow> frame \<Rightarrow> bool" where
  "no_effect client w f \<longleftrightarrow>
     (let sid = frame_stream_id f in
      case frame_cmd f of
        Syn \<Rightarrow> \<not> peer_id client sid \<or> entries w sid \<noteq> None
      | Fin \<Rightarrow> entries w sid = None
      | Psh \<Rightarrow> frame_data f = [] \<or> entries w sid = None
      | _ \<Rightarrow> True)"

inductive store_step ::
    "bytes_api \<Rightarrow> ('dc, bytes) flume_api \<Rightarrow> bool \<Rightarrow> 'dc store \<Rightarrow> event \<Rightarrow> 'dc store \<Rightarrow> bool"
  for B :: bytes_api and D :: "('dc, bytes) flume_api" and client :: bool where
  store_quiet: "quiet e \<Longrightarrow> store_step B D client w e w"
| store_no_effect: "no_effect client w f \<Longrightarrow> store_step B D client w (Arrives f) w"
| store_syn:
    "\<lbrakk>frame_cmd f = Syn; peer_id client (frame_stream_id f); entries w (frame_stream_id f) = None\<rbrakk>
     \<Longrightarrow> store_step B D client w (Arrives f) (born D (frame_stream_id f) w)"
| store_unlink:
    "\<lbrakk>frame_cmd f = Fin \<or>
      frame_cmd f = Psh \<and> frame_data f \<noteq> [] \<and> receivers_gone D (chans w ! data_tx sst);
      entries w (frame_stream_id f) = Some sst\<rbrakk>
     \<Longrightarrow> store_step B D client w (Arrives f) (unlink D (frame_stream_id f) w)"
| store_psh:
    "\<lbrakk>frame_cmd f = Psh; frame_data f \<noteq> []; entries w (frame_stream_id f) = Some sst;
      contents D ch = contents D (chans w ! data_tx sst) @ [frame_data f];
      capacity D ch = capacity D (chans w ! data_tx sst);
      senders_gone D ch = senders_gone D (chans w ! data_tx sst);
      \<not> receivers_gone D (chans w ! data_tx sst); \<not> receivers_gone D ch\<rbrakk>
     \<Longrightarrow> store_step B D client w (Arrives f) (w\<lparr>chans := (chans w)[data_tx sst := ch]\<rparr>)"
| store_open: "store_step B D client w (Opens sid) (born D sid w)"
| store_read:
    "\<lbrakk>st \<in># held w; poll_read B D st (chans w ! data_rx st) ss n = ((st', ch, ss'), r)\<rbrakk>
     \<Longrightarrow> store_step B D client w (Reads (stream_id st) n r)
           (w\<lparr>chans := (chans w)[data_rx st := ch], held := add_mset st' (held w - {#st#})\<rparr>)"
| store_touch:
    "\<lbrakk>quiet e; st \<in># held w;
      st' = st\<lparr>write_closed_flag := x\<rparr>\<rbrakk>
     \<Longrightarrow> store_step B D client w e (w\<lparr>held := add_mset st' (held w - {#st#})\<rparr>)"
| store_drop:
    "\<lbrakk>quiet e; st \<in># held w\<rbrakk>
     \<Longrightarrow> store_step B D client w e
           (w\<lparr>chans := (chans w)[data_rx st := drop_receiver D (chans w ! data_rx st)],
              held := held w - {#st#}\<rparr>)"

section \<open>What the steps of the system do to the store\<close>

lemma mset_remove_nth: "k < length xs \<Longrightarrow> mset (remove_nth k xs) = mset xs - {#xs ! k#}"
  by (metis (no_types, lifting) add_mset_remove_trivial id_take_nth_drop mset.simps(2) mset_append
      remove_nth_def union_mset_add_mset_right)

lemma store_quiet': "\<lbrakk>quiet e; store_of A s' = store_of A s\<rbrakk> \<Longrightarrow> store_step B D c (store_of A s) e (store_of A s')"
  by (simp add: store_quiet)

lemma store_of_eqI:
  "\<lbrakk>streams (inner s') = streams (inner s); data_chs (inner s') = data_chs (inner s);
    held_streams A s' = held_streams A s\<rbrakk> \<Longrightarrow> store_of A s' = store_of A s"
  by (simp add: store_of_def)

lemma data_chs_drop_stream:
  "data_chs (drop_stream F D st s) = (data_chs s)[data_rx st := drop_receiver D (data_chs s ! data_rx st)]"
  by (auto simp: drop_stream_def stream_drop_def split: prod.splits)

context session_env
begin

lemma open_prepare_born:
  assumes "session_wf D A s" "open_stream_prepare D s = (s', Inr st)"
  shows "\<lparr>entries = streams s', chans = data_chs s', held = add_mset st M\<rparr> =
         born D (stream_id st) \<lparr>entries = streams s, chans = data_chs s, held = M\<rparr>"
proof -
  have tw: "table_wf D (streams s) (data_chs s)" using assms(1) by (simp add: session_wf_def)
  from assms(2) obtain s1 sid where n: "next_stream_id s = (s1, Inr sid)"
    and s': "s' = insert_stream D sid (stream_state_new (length (data_chs s1))) (fst (alloc_channel D s1))"
      "st = stream_new sid (length (data_chs s1))"
    by (auto simp: open_stream_prepare_def alloc_channel_def Let_def split: if_splits prod.splits sum.splits)
  note s1 = next_stream_id_fields(1,2) [OF n]
  show ?thesis
  proof (cases "streams s sid")
    case None
    with s' s1 show ?thesis
      by (simp add: born_def unlink_def alloc_channel_def insert_stream_def stream_new_def Let_def)
  next
    case (Some old)
    with table_wfD(1) [OF tw Some] s' s1 show ?thesis
      by (simp add: born_def unlink_def alloc_channel_def insert_stream_def stream_new_def Let_def
          drop_data_tx_def list_update_append nth_append)
  qed
qed

lemma app_step_store:
  assumes "app_step B F D A s e s'" "session_wf D A (inner s)"
  shows "store_step B D c (store_of A s) e (store_of A s')"
  using assms
proof (induction rule: app_step.induct)
  case (app_open s i st)
  have "store_of A (s\<lparr>inner := i, pending_opens := pending_opens s @ [st]\<rparr>) =
        \<lparr>entries = streams i, chans = data_chs i, held = add_mset st (held_streams A s)\<rparr>"
    by (rule open_stream_prepare_cases [OF app_open(2)])
      (use app_open(1) in \<open>auto simp: store_of_def held_streams_def\<close>)
  with open_prepare_born [OF app_open(2,1), of "held_streams A s"] show ?case
    by (simp add: store_of_def store_open)
next
  case (app_open_fails s i e)
  show ?case
    by (rule open_stream_prepare_cases [OF app_open_fails(2)]; rule store_quiet')
      (use app_open_fails(1) in
        \<open>auto simp: next_stream_id_def Let_def held_streams_def store_of_def split: if_splits\<close>)
next
  case (app_opened k s i st)
  let ?st = "pending_opens s ! k"
  from app_opened(2) have "streams i = streams (inner s)" "data_chs i = data_chs (inner s)"
    "accept_ch i = accept_ch (inner s)" "st = ?st"
    by (auto simp: open_stream_send_def split: prod.splits poll.splits bool.splits)
  with app_opened(1) show ?case
    by (intro store_quiet' store_of_eqI)
      (auto simp: held_streams_def mset_remove_nth ac_simps)
next
  case (app_open_refused k s i e)
  let ?st = "pending_opens s ! k"
  from app_open_refused(2) have i: "streams i = streams (inner s)" "accept_ch i = accept_ch (inner s)"
    "data_chs i = (data_chs (inner s))[data_rx ?st := drop_receiver D (data_chs (inner s) ! data_rx ?st)]"
    by (auto simp: open_stream_send_def data_chs_drop_stream split: prod.splits poll.splits bool.splits)
  have "?st \<in> set (pending_opens s)" using app_open_refused(1) by simp
  then have "?st \<in># held (store_of A s)" by (simp add: store_of_def held_streams_def)
  with store_drop [of "Drops (stream_id ?st)" ?st "store_of A s" B D c] i app_open_refused(1) show ?case
    by (simp add: store_of_def held_streams_def mset_remove_nth)
next
  case (app_open_cancel k s)
  let ?st = "pending_opens s ! k"
  have "?st \<in> set (pending_opens s)" using app_open_cancel(1) by simp
  then have "?st \<in># held (store_of A s)" by (simp add: store_of_def held_streams_def)
  with store_drop [of "Drops (stream_id ?st)" ?st "store_of A s" B D c] app_open_cancel(1) show ?case
    by (simp add: store_of_def held_streams_def mset_remove_nth data_chs_drop_stream)
next
  case (app_accepted k s g first i st)
  note acc = accept_select_cases [OF app_accepted(4,3)]
  then have i: "i = (inner s)\<lparr>accept_ch := accept_ch i\<rparr>"
    "contents A (accept_ch (inner s)) = st # contents A (accept_ch i)" by blast+
  have "streams i = streams (inner s)" "data_chs i = data_chs (inner s)"
    using arg_cong [OF i(1), of streams] arg_cong [OF i(1), of data_chs] by simp_all
  with i(2) show ?case
    by (intro store_quiet' store_of_eqI) (simp_all add: held_streams_def)
next
  case (app_accept_ends k s g first i e)
  then have "i = inner s" using accept_select_cases [OF app_accept_ends(4,3)] by simp
  then show ?case by (intro store_quiet' store_of_eqI) (simp_all add: held_streams_def)
next
  case (app_read k s st closing n st' ch ss r)
  have mem: "st \<in> set (map fst (handles s))" using app_read(1,2) by (force simp: in_set_conv_nth)
  then have "st \<in># held (store_of A s)" by (simp add: store_of_def held_streams_def)
  moreover have "poll_read B D st (chans (store_of A s) ! data_rx st) (shared (inner s)) n = ((st', ch, ss), r)"
    using app_read(3) by (simp add: store_of_def)
  moreover have "mset (map fst ((handles s)[k := (st', False)])) =
      add_mset st' (mset (map fst (handles s)) - {#st#})"
    using app_read(1,2) by (simp add: map_update mset_update)
  ultimately show ?case
    using store_read [of st "store_of A s" B D] mem
    by (simp add: store_of_def held_streams_def)
next
  case (app_write k s st closing buf fc r)
  have "map fst ((handles s)[k := (st, False)]) = map fst (handles s)"
    using app_write(1,2) by (metis fst_conv list_update_id map_update nth_map)
  then show ?case by (intro store_quiet' store_of_eqI) (simp_all add: held_streams_def)
next
  case (app_close_cancel k s st)
  have "map fst ((handles s)[k := (st, False)]) = map fst (handles s)"
    using app_close_cancel(1,2) by (metis fst_conv list_update_id map_update nth_map)
  then show ?case by (intro store_quiet' store_of_eqI) (simp_all add: held_streams_def)
next
  case (app_stream k s op h fc)
  obtain st closing where st: "handles s ! k = (st, closing)" by fastforce
  obtain st' closing' where h: "h = (st', closing')" by fastforce
  have mem: "st \<in> set (map fst (handles s))" using app_stream(1) st by (force simp: in_set_conv_nth)
  obtain x where x: "st' = st\<lparr>write_closed_flag := x\<rparr>"
    using app_stream(2,3) st h that [of "write_closed_flag st"] that [of True]
    by (auto simp: poll_shutdown_def stream_close_def Let_def
        split: if_splits prod.splits send_result.splits)
  have "mset (map fst ((handles s)[k := h])) = add_mset st' (mset (map fst (handles s)) - {#st#})"
    using app_stream(1) st h by (simp add: map_update mset_update)
  moreover have "st \<in># held (store_of A s)" using mem by (simp add: store_of_def held_streams_def)
  ultimately show ?case
    using store_touch [of App st "store_of A s" st' x B D] mem x
    by (simp add: store_of_def held_streams_def)
next
  case (app_drop k s)
  let ?st = "fst (handles s ! k)"
  have mem: "?st \<in> set (map fst (handles s))" using app_drop(1) by (force simp: in_set_conv_nth)
  then have "?st \<in># held (store_of A s)" by (simp add: store_of_def held_streams_def)
  moreover have "mset (map fst (remove_nth k (handles s))) = mset (map fst (handles s)) - {#?st#}"
    using app_drop(1) mset_remove_nth [of k "map fst (handles s)"]
    by (simp add: remove_nth_def take_map drop_map)
  ultimately show ?case
    using store_drop [of "Drops (stream_id ?st)" ?st "store_of A s" B D c] mem
    by (simp add: store_of_def held_streams_def data_chs_drop_stream)
qed (auto simp: session_close_def held_streams_def intro!: store_quiet' store_of_eqI)


text \<open>A frame, when the balance is positive.\<close>

definition session_store :: "('fc, 'dc, 'ac) session_inner \<Rightarrow> stream multiset \<Rightarrow> 'dc store" where
  "session_store s M = \<lparr>entries = streams s, chans = data_chs s, held = M\<rparr>"

lemma session_store_simps [simp]:
  "entries (session_store s M) = streams s" "chans (session_store s M) = data_chs s"
  "held (session_store s M) = M"
  by (simp_all add: session_store_def)

lemma psh_deliver_store:
  assumes "session_wf D A s" "psh_deliver D f s = (s', out)" "frame_cmd f = Psh" "frame_data f \<noteq> []"
  shows "store_step B D c (session_store s M) (Arrives f) (session_store s' M)"
proof (cases "streams s (frame_stream_id f)")
  case None
  with assms(2-4) have "streams s' = streams s" "data_chs s' = data_chs s"
    by (auto simp: psh_deliver_def Let_def)
  with None assms(3) store_no_effect [of c "session_store s M" f] show ?thesis
    by (simp add: no_effect_def session_store_def)
next
  case (Some sst)
  let ?ch = "data_chs s ! data_tx sst"
  have tw: "table_wf D (streams s) (data_chs s)" using assms(1) by (simp add: session_wf_def)
  note sst = table_wfD [OF tw Some]
  have "capacity D ?ch \<noteq> Some 0" using sst(2) by simp
  then show ?thesis
  proof (cases rule: data.send_cases [where x = "frame_data f"])
    case disconnected
    with assms(2) Some have "s' = remove_stream D (frame_stream_id f)
        (s\<lparr>data_chs := (data_chs s)[data_tx sst := ?ch],
           shared := return_tokens (length (frame_data f)) (shared s)\<rparr>)"
      by (simp add: psh_deliver_def Let_def send_async_def)
    then have "session_store s' M = unlink D (frame_stream_id f) (session_store s M)"
      using Some by (simp add: session_store_def unlink_def data_chs_remove_stream)
    with disconnected Some assms(3,4) store_unlink [of f D "session_store s M" sst] show ?thesis
      by simp
  next
    case full
    with sst(2) show ?thesis by (simp add: has_room_def)
  next
    case (sent ch)
    with assms(2) Some have "s' = s\<lparr>data_chs := (data_chs s)[data_tx sst := ch]\<rparr>"
      by (simp add: psh_deliver_def Let_def send_async_def)
    then have "session_store s' M = (session_store s M)\<lparr>chans := (data_chs s)[data_tx sst := ch]\<rparr>"
      by (simp add: session_store_def)
    with sent Some assms(3,4) store_psh [of f "session_store s M" sst D ch] show ?thesis by simp
  qed
qed

text \<open>The stream that a handler leaves with its control point, and the new ones in the accept queue.\<close>

lemma handle_frame_store:
  assumes "session_wf D A s" "handle_frame F D A f s = (s', out)" "0 < token_balance (shared s)"
    and "M' = mset (recv_holds (recv_after out)) + mset (contents A (accept_ch s')) + M"
  shows "store_step B D (is_client s) (session_store s (mset (contents A (accept_ch s)) + M))
           (Arrives f) (session_store s' M')"
proof -
  have same: ?thesis if "no_effect (is_client s) (session_store s (mset (contents A (accept_ch s)) + M)) f"
      "s' = s" "out = Done r" for r
    using store_no_effect [OF that(1)] assms(4) that(2,3) by (simp add: recv_holds_def)
  show ?thesis
  proof (cases "frame_cmd f")
    case Syn
    then have run: "handle_syn_frame F D A f s = (s', out)" using assms(2) by (simp add: handle_frame_def)
    from assms(1) show ?thesis
    proof (cases rule: handle_syn_cases [where f = f])
      case (new s1 ac out1)
      let ?st = "stream_new (frame_stream_id f) (length (data_chs s))"
      have s1: "s' = s1" "out = out1" using new(3) run by simp_all
      have "M' = add_mset ?st (mset (contents A (accept_ch s)) + M)"
        using new(4,6) assms(4) unfolding s1 by (auto simp: recv_holds_def split: if_splits)
      then have "session_store s' M' = born D (frame_stream_id f)
          (session_store s (mset (contents A (accept_ch s)) + M))"
        using new(2,4) by (simp add: s1 session_store_def born_def unlink_def Let_def)
      with new(1,2) Syn
        store_syn [of f "is_client s" "session_store s (mset (contents A (accept_ch s)) + M)" B D]
      show ?thesis by simp
    qed (intro same; use run Syn in \<open>simp add: no_effect_def\<close>)+
  next
    case Fin
    then have run: "handle_fin_frame D f s = (s', out)" using assms(2) by (simp add: handle_frame_def)
    show ?thesis
    proof (cases "streams s (frame_stream_id f)")
      case None
      with run Fin show ?thesis by (intro same) (auto simp: handle_fin_frame_def no_effect_def)
    next
      case (Some sst)
      with run have "session_store s' M' = unlink D (frame_stream_id f)
          (session_store s (mset (contents A (accept_ch s)) + M))"
        using assms(4) by (auto simp: handle_fin_frame_def Let_def session_store_def unlink_def
            drop_data_tx_def recv_holds_def)
      with Fin Some
        store_unlink [of f D "session_store s (mset (contents A (accept_ch s)) + M)" sst]
      show ?thesis by simp
    qed
  next
    case Psh
    show ?thesis
    proof (cases "frame_data f = []")
      case True
      with Psh assms(2) show ?thesis
        by (intro same) (auto simp: handle_frame_def handle_psh_frame_def no_effect_def)
    next
      case False
      then have run: "psh_deliver D f s = (s', out)" using Psh assms(2,3)
        by (simp add: handle_frame_def handle_psh_frame_def psh_loop_def get_tokens_def token_balance_def)
      have "accept_ch s' = accept_ch s"
        by (rule handle_other_accept [OF assms(1,2)]) (simp add: Psh)
      moreover have "out = Done (Inr ())"
        using psh_deliver_refines [OF assms(1) Psh False run] by simp
      ultimately show ?thesis
        using psh_deliver_store [OF assms(1) run Psh False] assms(4) by (simp add: recv_holds_def)
    qed
  qed (intro same; use assms(2) in \<open>auto simp: handle_frame_def handle_upd_frame_def no_effect_def\<close>)+
qed

lemma recv_step_store:
  assumes "recv_step F D A s e s'" "system_wf F D A s" "\<not> waits_for_tokens (recv_at s)" "0 < balance s"
  shows "store_step B D (is_client (inner s)) (store_of A s) e (store_of A s')"
  using assms
proof (induction rule: recv_step.induct)
  case (recv_arrives s g f i out)
  let ?i = "(inner s)\<lparr>shared := mark_data_received (shared (inner s))\<rparr>"
  let ?M = "mset (pending_opens s) + mset (map fst (handles s))"
  have run: "handle_frame F D A f ?i = (i, out)"
    using recv_arrives(2) by (simp add: recv_frame_def)
  have wf: "session_wf D A ?i"
    using recv_arrives(3) by (auto simp: system_wf_def intro: session_wf_fields)
  have "0 < token_balance (shared ?i)"
    using recv_arrives(5) by (simp add: balance_def token_balance_def)
  from handle_frame_store [OF wf run this refl, of ?M] recv_arrives(1) show ?case
    by (simp add: store_of_def held_streams_def session_store_def recv_holds_def ac_simps)
next
  case (recv_accept s st i out)
  have wf: "session_wf D A (inner s)" using recv_accept(3) by (simp add: system_wf_def)
  note i = syn_send_cases [OF wf recv_accept(2)]
  then have "i = (inner s)\<lparr>accept_ch := accept_ch i\<rparr>" by blast
  then have "streams i = streams (inner s)" "data_chs i = data_chs (inner s)"
    by (metis session_inner.select_convs(1) session_inner.surjective session_inner.update_convs(3),
        metis session_inner.select_convs(8) session_inner.surjective session_inner.update_convs(3))
  with i recv_accept(1) show ?case
    by (intro store_quiet' store_of_eqI)
      (auto simp: held_streams_def recv_holds_def split: if_splits)
next
  case (recv_data s f i out)
  then show ?case by (simp add: system_wf_def recv_ok_def)
qed (auto simp: recv_end_def held_streams_def recv_holds_def intro!: store_quiet' store_of_eqI)

lemma step_store:
  assumes "step B F D A s e s'" "system_wf F D A s" "\<not> waits_for_tokens (recv_at s)" "0 < balance s"
  shows "store_step B D (is_client (inner s)) (store_of A s) e (store_of A s')"
proof -
  have "store_step B D (is_client (inner s)) (store_of A s) e (store_of A s')"
    if "send_step B F s e s' \<or> keep_step F s e s'"
    using that
    by (auto simp: send_end_def send_return_def held_streams_def elim!: send_step.cases keep_step.cases
        intro!: store_quiet' store_of_eqI)
  with assms recv_step_store app_step_store show ?thesis
    unfolding step_def by (auto simp: system_wf_def)
qed

end
section \<open>Who reads and who writes a channel\<close>

text \<open>
  A held stream reads a live channel of the store, which no other held stream reads and which holds no
  empty chunk; as long as the channel has a writer, that is the entry of the stream's identifier, and an
  entry that writes to the channel of a held stream is under that stream's identifier.
\<close>

definition fed_by_entry :: "'dc store \<Rightarrow> stream \<Rightarrow> bool" where
  "fed_by_entry w st \<longleftrightarrow> (\<exists>sst. entries w (stream_id st) = Some sst \<and> data_tx sst = data_rx st)"

definition held_ok :: "('dc, bytes) flume_api \<Rightarrow> 'dc store \<Rightarrow> stream \<Rightarrow> bool" where
  "held_ok D w st \<longleftrightarrow>
     data_rx st < length (chans w) \<and> \<not> receivers_gone D (chans w ! data_rx st) \<and>
     \<not> read_closed_flag st \<and> chunks_ok D st (chans w ! data_rx st) \<and>
     (senders_gone D (chans w ! data_rx st) \<or> fed_by_entry w st)"

definition owners_wf :: "('dc, bytes) flume_api \<Rightarrow> 'dc store \<Rightarrow> bool" where
  "owners_wf D w \<longleftrightarrow>
     (\<forall>st \<in># held w. held_ok D w st) \<and>
     (\<forall>a. count (image_mset data_rx (held w)) a \<le> 1) \<and>
     (\<forall>st \<in># held w. \<forall>sid sst. entries w sid = Some sst \<and> data_tx sst = data_rx st
        \<longrightarrow> stream_id st = sid)"

lemma apart:
  assumes "count (image_mset f M) (f x) \<le> 1" "x \<in># M" "y \<in># M - {#x#}"
  shows "f y \<noteq> f x"
proof
  assume eq: "f y = f x"
  have "image_mset f M = add_mset (f x) (image_mset f (M - {#x#}))"
    using assms(2) by (metis image_mset_add_mset insert_DiffM)
  with assms(1) have "count (image_mset f (M - {#x#})) (f x) = 0" by simp
  with assms(3) eq show False
    by (metis image_eqI not_in_iff set_image_mset)
qed

lemma owners_wfD:
  assumes "owners_wf D w" "st \<in># held w"
  shows "held_ok D w st" "st' \<in># held w - {#st#} \<Longrightarrow> data_rx st' \<noteq> data_rx st"
    "entries w sid = Some sst \<Longrightarrow> data_tx sst = data_rx st \<Longrightarrow> stream_id st = sid"
  using assms apart [of data_rx "held w" st st'] unfolding owners_wf_def by blast+

lemma owners_wfI:
  assumes "\<And>st. st \<in># held w \<Longrightarrow> held_ok D w st"
    and "\<And>a. count (image_mset data_rx (held w)) a \<le> 1"
    and "\<And>st sid sst. \<lbrakk>st \<in># held w; entries w sid = Some sst; data_tx sst = data_rx st\<rbrakk>
         \<Longrightarrow> stream_id st = sid"
  shows "owners_wf D w"
  using assms by (simp add: owners_wf_def)

lemma image_mset_replace:
  assumes "x \<in># M" "f y = f x"
  shows "image_mset f (add_mset y (M - {#x#})) = image_mset f M"
  using assms by (metis image_mset_add_mset insert_DiffM)

text \<open>Replacing or removing one held stream, and writing its channel.\<close>

lemma held_ok_other:
  assumes "owners_wf D w" "st \<in># held w" "st' \<in># held w - {#st#}"
  shows "held_ok D (w\<lparr>chans := (chans w)[data_rx st := ch], held := M\<rparr>) st'"
proof -
  have "st' \<in># held w" using assms(3) by (rule in_diffD)
  from owners_wfD(1) [OF assms(1) this] owners_wfD(2) [OF assms] show ?thesis
    by (simp add: held_ok_def fed_by_entry_def)
qed

lemma owners_wf_replace:
  assumes "owners_wf D w" "st \<in># held w" "data_rx st' = data_rx st" "stream_id st' = stream_id st"
    and "held_ok D (w\<lparr>chans := (chans w)[data_rx st := ch]\<rparr>) st'"
  shows "owners_wf D (w\<lparr>chans := (chans w)[data_rx st := ch], held := add_mset st' (held w - {#st#})\<rparr>)"
    (is "owners_wf D ?w")
proof (rule owners_wfI)
  have "held_ok D ?w st'" using assms(5) by (simp add: held_ok_def fed_by_entry_def)
  with held_ok_other [OF assms(1,2)] show "held_ok D ?w x" if "x \<in># held ?w" for x
    using that by auto
  show "count (image_mset data_rx (held ?w)) a \<le> 1" for a
    using assms(1) image_mset_replace [OF assms(2,3)] by (simp add: owners_wf_def)
  show "stream_id x = sid"
    if "x \<in># held ?w" "entries ?w sid = Some sst" "data_tx sst = data_rx x" for x sid sst
    using that owners_wfD(3) [OF assms(1,2)] owners_wfD(3) [OF assms(1)] assms(3,4)
    by (cases "x = st'") (auto dest: in_diffD)
qed

lemma owners_wf_remove:
  assumes "owners_wf D w" "st \<in># held w"
  shows "owners_wf D (w\<lparr>chans := (chans w)[data_rx st := ch], held := held w - {#st#}\<rparr>)"
    (is "owners_wf D ?w")
proof (rule owners_wfI)
  show "held_ok D ?w x" if "x \<in># held ?w" for x
    using held_ok_other [OF assms] that by simp
  have "image_mset data_rx (held ?w) \<subseteq># image_mset data_rx (held w)"
    by (simp add: image_mset_subseteq_mono)
  then have "count (image_mset data_rx (held ?w)) a \<le> count (image_mset data_rx (held w)) a" for a
    by (rule mset_subset_eq_count)
  then show "count (image_mset data_rx (held ?w)) a \<le> 1" for a
    using assms(1) unfolding owners_wf_def by (meson order_trans)
  show "stream_id x = sid"
    if "x \<in># held ?w" "entries ?w sid = Some sst" "data_tx sst = data_rx x" for x sid sst
    using that owners_wfD(3) [OF assms(1)] by (auto dest: in_diffD)
qed

text \<open>Giving up the sender of an identifier, and adding a stream with a new channel.\<close>

context session_env
begin

lemma owners_wf_unlink:
  assumes "owners_wf D w" "table_wf D (entries w) (chans w)"
  shows "owners_wf D (unlink D sid w)"
proof (cases "entries w sid")
  case None
  with assms show ?thesis by (simp add: unlink_def)
next
  case (Some sst)
  note sst = table_wfD(1,4) [OF assms(2) Some]
  let ?w = "unlink D sid w"
  have "held_ok D ?w st" if "st \<in># held w" for st
  proof (cases "data_rx st = data_tx sst")
    case True
    with owners_wfD(1) [OF assms(1) that] Some sst(1) show ?thesis
      by (simp add: held_ok_def unlink_def data.drop_sender_laws chunks_ok_def)
  next
    case False
    then have "fed_by_entry w st \<Longrightarrow> fed_by_entry ?w st"
      using Some by (auto simp: fed_by_entry_def unlink_def)
    moreover have "chans ?w ! data_rx st = chans w ! data_rx st" "length (chans ?w) = length (chans w)"
      using False Some by (simp_all add: unlink_def)
    ultimately show ?thesis using owners_wfD(1) [OF assms(1) that] by (auto simp: held_ok_def)
  qed
  with assms(1) Some show ?thesis
    by (intro owners_wfI) (auto simp: owners_wf_def unlink_def split: if_splits)
qed

lemma owners_wf_born:
  assumes "owners_wf D w" "table_wf D (entries w) (chans w)"
  shows "owners_wf D (born D sid w)"
proof -
  let ?u = "unlink D sid w"
  let ?w = "born D sid w"
  have len: "length (chans ?u) = length (chans w)" and held: "held ?u = held w"
    by (simp_all add: unlink_def split: option.splits)
  note u = owners_wf_unlink [OF assms, of sid]
  have w: "entries ?w = (entries ?u)(sid \<mapsto> stream_state_new (length (chans w)))"
    "chans ?w = chans ?u @ [unbounded D]"
    "held ?w = add_mset (stream_new sid (length (chans w))) (held ?u)"
    by (simp_all add: born_def Let_def)
  have gone: "entries ?u sid = None" by (simp add: unlink_def split: option.splits)
  have old: "held_ok D ?w st" "data_rx st < length (chans w)" if "st \<in># held w" for st
  proof -
    have ok: "held_ok D ?u st" by (rule owners_wfD(1) [OF u]) (simp add: held that)
    then show "data_rx st < length (chans w)" by (simp add: held_ok_def len)
    with ok gone show "held_ok D ?w st"
      by (auto simp: held_ok_def fed_by_entry_def w nth_append len)
  qed
  have new: "held_ok D ?w (stream_new sid (length (chans w)))"
    by (simp add: held_ok_def fed_by_entry_def w nth_append len stream_new_def stream_state_new_def
        data.unbounded_new chunks_ok_def)
  have count: "count (image_mset data_rx (held ?w)) a \<le> 1" for a
  proof (cases "a = length (chans w)")
    case True
    then have "a \<notin># image_mset data_rx (held w)" using old(2) by fastforce
    then have "count (image_mset data_rx (held w)) a = 0" by (simp only: not_in_iff)
    then show ?thesis using True by (simp add: w held stream_new_def)
  next
    case False
    then show ?thesis using assms(1) by (simp add: w held stream_new_def owners_wf_def)
  qed
  have below: "data_tx sst < length (chans w)" if "entries ?u sid' = Some sst" for sid' sst
    using that table_wfD(1) [OF assms(2)] by (auto simp: unlink_def split: option.splits if_splits)
  have "stream_id st = sid'" if "st \<in># held ?w" "entries ?w sid' = Some sst" "data_tx sst = data_rx st"
    for st sid' sst
    using that old(2) owners_wfD(3) [OF u, unfolded held] below
    by (fastforce simp: w held stream_new_def stream_state_new_def split: if_splits)
  moreover have "held_ok D ?w st" if "st \<in># held ?w" for st
    using that old(1) new by (auto simp: w held)
  ultimately show ?thesis using count by (intro owners_wfI)
qed


text \<open>A read of any size, also one without room, keeps the stream readable and hands out no empty rest.\<close>

lemma poll_read_recv_held:
  assumes "poll_read_recv B D st ch ss n = ((st', ch', ss'), r)" "\<not> read_closed_flag st"
    and "[] \<notin> set (contents D ch)" "current_chunk st \<noteq> Some []"
  shows "\<not> read_closed_flag st' \<and> chunks_ok D st' ch'"
  by (cases rule: data.recv_cases [of ch])
    (use assms in \<open>auto simp: poll_read_recv_def Let_def bytes.split_to_law chunks_ok_def
      split: if_splits\<close>)

lemma poll_read_held:
  assumes "poll_read B D st ch ss n = ((st', ch', ss'), r)" "\<not> read_closed_flag st" "chunks_ok D st ch"
  shows "\<not> read_closed_flag st'" "chunks_ok D st' ch'"
proof -
  have "\<not> read_closed_flag st' \<and> chunks_ok D st' ch'"
    using assms poll_read_recv_held [of st ch ss n st' ch' ss' r]
    by (auto simp: poll_read_def Let_def bytes.split_to_law chunks_ok_def
        split: if_splits option.splits)
  then show "\<not> read_closed_flag st'" "chunks_ok D st' ch'" by simp_all
qed

lemma store_step_owners:
  assumes "store_step B D c w e w'" "owners_wf D w" "table_wf D (entries w) (chans w)"
  shows "owners_wf D w'"
  using assms
proof (induction rule: store_step.induct)
  case (store_psh f w sst ch)
  have tx: "data_tx sst < length (chans w)" using table_wfD(1) [OF store_psh(10,3)] .
  show ?case
  proof (rule owners_wfI)
    fix st assume "st \<in># held (w\<lparr>chans := (chans w)[data_tx sst := ch]\<rparr>)"
    then have st: "held_ok D w st" using owners_wfD(1) [OF store_psh(9)] by simp
    show "held_ok D (w\<lparr>chans := (chans w)[data_tx sst := ch]\<rparr>) st"
      using st store_psh(2,4,6,8) tx
      by (cases "data_rx st = data_tx sst") (auto simp: held_ok_def fed_by_entry_def chunks_ok_def)
  qed (use store_psh(9) in \<open>auto simp: owners_wf_def\<close>)
next
  case (store_read st w ss n st' ch ss' r)
  from owners_wfD(1) [OF store_read(3,1)] have ok: "held_ok D w st" .
  then have "\<not> read_closed_flag st" "chunks_ok D st (chans w ! data_rx st)" by (simp_all add: held_ok_def)
  note read = poll_read_channel [OF store_read(2)] poll_read_held(1,2) [OF store_read(2) this]
  have "held_ok D (w\<lparr>chans := (chans w)[data_rx st := ch]\<rparr>) st'"
    using read ok by (auto simp: held_ok_def fed_by_entry_def)
  then show ?case using owners_wf_replace [OF store_read(3,1)] read by simp
next
  case (store_touch e st w st' x)
  from owners_wfD(1) [OF store_touch(4,2)] have "held_ok D w st" .
  then have "held_ok D (w\<lparr>chans := (chans w)[data_rx st := chans w ! data_rx st]\<rparr>) st'"
    unfolding store_touch(3) by (auto simp: held_ok_def fed_by_entry_def chunks_ok_def)
  from owners_wf_replace [OF store_touch(4,2) _ _ this] show ?case
    unfolding store_touch(3) by simp
qed (simp_all add: owners_wf_born owners_wf_unlink owners_wf_remove)

end
section \<open>Runs\<close>

text \<open>
  Configurations and traffic for which the receive task never waits for tokens: there is a frame channel
  and a receive buffer, and the token counter does not overflow.
\<close>

definition limits_ok :: "config \<Rightarrow> event list \<Rightarrow> bool" where
  "limits_ok cfg es \<longleftrightarrow>
     0 < max_receive_channel_buffer_size cfg \<and> 0 < max_receive_buffer cfg \<and>
     max_receive_buffer cfg + traffic es < 2 ^ 63"

lemma traffic_append [simp]: "traffic (es @ es') = traffic es + traffic es'"
  by (simp add: traffic_def)

lemma limits_ok_prefix: "limits_ok cfg (es @ es') \<Longrightarrow> limits_ok cfg es"
  by (simp add: limits_ok_def)

text \<open>What every state of such a run satisfies, and induction over such runs.\<close>

definition run_state ::
    "('fc, frame) flume_api \<Rightarrow> ('dc, bytes) flume_api \<Rightarrow> ('ac, stream) flume_api \<Rightarrow> config \<Rightarrow> bool
     \<Rightarrow> ('fc, 'dc, 'ac) system \<Rightarrow> bool" where
  "run_state F D A cfg client s \<longleftrightarrow>
     system_wf F D A s \<and> \<not> waits_for_tokens (recv_at s) \<and> 0 < balance s \<and>
     is_client (inner s) = client \<and> session_config (inner s) = cfg"

context session_env
begin

lemma run_state:
  fixes s :: "('fc, 'dc, 'ac) system"
  assumes "limits_ok cfg es" "run B F D A (system_new F A cfg client) es s"
  shows "run_state F D A cfg client s"
proof -
  have lim: "0 < max_receive_channel_buffer_size cfg" "0 < max_receive_buffer cfg"
    "max_receive_buffer cfg + traffic es < 2 ^ 63"
    using assms(1) by (simp_all add: limits_ok_def)
  from run_balance_new [OF lim assms(2)] lim(2) run_wf [OF assms(2) system_wf_new [OF lim(1)]]
  show ?thesis by (simp add: run_state_def advances_def system_new_def session_new_def)
qed

lemma run_new_induct [consumes 2, case_names start step]:
  fixes s :: "('fc, 'dc, 'ac) system"
  assumes "limits_ok cfg es" "run B F D A (system_new F A cfg client) es s"
    and "P [] (system_new F A cfg client)"
    and "\<And>es s e s'. \<lbrakk>run B F D A (system_new F A cfg client) es s; limits_ok cfg (es @ [e]);
           step B F D A s e s'; run_state F D A cfg client s; run_state F D A cfg client s'; P es s\<rbrakk>
         \<Longrightarrow> P (es @ [e]) s'"
  shows "P es s"
  using assms(2,1)
proof (induction "system_new F A cfg client :: ('fc, 'dc, 'ac) system" es s rule: run.induct)
  case run_nil
  then show ?case using assms(3) by simp
next
  case (run_snoc es s e s')
  have "limits_ok cfg es" using run_snoc.prems by (rule limits_ok_prefix)
  with run_state [OF this run_snoc(1)] run_state [OF run_snoc.prems run.run_snoc [OF run_snoc(1,3)]]
  show ?case using assms(4) [OF run_snoc(1) run_snoc.prems run_snoc(3)] run_snoc(2) by blast
qed

lemma store_new:
  "store_of A (system_new F A cfg client) = \<lparr>entries = Map.empty, chans = [], held = {#}\<rparr>"
  by (simp add: store_of_def held_streams_def system_new_def session_new_def recv_holds_def
      accept.bounded_new)

lemma run_owners:
  fixes s :: "('fc, 'dc, 'ac) system"
  assumes "limits_ok cfg es" "run B F D A (system_new F A cfg client) es s"
  shows "owners_wf D (store_of A s)"
  using assms
proof (induction rule: run_new_induct)
  case start
  show ?case by (simp add: store_new owners_wf_def)
next
  case (step es s e s')
  from step(3,4) have "store_step B D client (store_of A s) e (store_of A s')"
    using step_store by (auto simp: run_state_def)
  moreover have "table_wf D (entries (store_of A s)) (chans (store_of A s))"
    using step(4) by (simp add: run_state_def system_wf_def session_wf_def store_of_def)
  ultimately show ?case using store_step_owners step(6) by blast
qed

end

section \<open>Properties\<close>

text \<open>
  C17. One reader and one writer: in every run, each stream that the receive task, the accept queue, a
  call of \<open>open_stream\<close> or the application holds reads from a live channel of its own, which holds no
  empty chunk; the only entry of the table that can write to it is the one under the stream's own
  identifier, and as long as the channel has a sender that entry is there.
\<close>

lemma channels_have_one_reader:
  fixes s :: "('fc, 'dc, 'ac) system"
  assumes "session_env B F D A" "limits_ok cfg es"
    and "run B F D A (system_new F A cfg client) es s"
  shows "(\<forall>a. count (image_mset data_rx (held_streams A s)) a \<le> 1) \<and>
         (\<forall>st \<in># held_streams A s.
            \<not> receivers_gone D (data_chs (inner s) ! data_rx st) \<and>
            [] \<notin> set (contents D (data_chs (inner s) ! data_rx st)) \<and>
            (\<forall>sid sst. streams (inner s) sid = Some sst \<and> data_tx sst = data_rx st
               \<longrightarrow> sid = stream_id st) \<and>
            (senders_gone D (data_chs (inner s) ! data_rx st) \<or>
             (\<exists>sst. streams (inner s) (stream_id st) = Some sst \<and> data_tx sst = data_rx st)))"
  using session_env.run_owners [OF assms]
  by (auto simp: owners_wf_def store_of_def held_ok_def fed_by_entry_def chunks_ok_def)


lemma channels_have_one_reader_witness:
  "\<exists>es s. demo_run (demo config_default) es s \<and> handles s = [(stream_new 1 0, False)] \<and>
     \<not> receivers_gone list_chan (data_chs (inner s) ! 0)"
proof -
  obtain es s where x: "demo_execute [Do_open, Do_open_send 0] (demo config_default) = Some (es, s)"
    and s: "handles s = [(stream_new 1 0, False)]" "limits_ok config_default es"
    by (simp add: exec_simps limits_ok_def traffic_def)
  note r = execute_run [OF x]
  have "stream_new 1 0 \<in># held_streams list_chan s" by (simp add: held_streams_def s(1))
  with channels_have_one_reader [OF lse.session_env_axioms s(2) r [unfolded demo_def]] r s(1)
  show ?thesis by (fastforce simp: stream_new_def)
qed

end
