(* ===== verification/Histories.thy ===== *)
theory Histories
  imports Stores "HOL-Library.Sublist"
begin

text \<open>
  The history of one stream through a run of the system: what the frames that arrived fed into it, and
  what its reader got. The reader gets what was fed, in order and without loss, whatever the
  interleaving of its reads with the arrivals and with everything else.
\<close>

section \<open>The history of a stream\<close>

text \<open>
  What the events of a run feed into the stream of an identifier: it is born when the identifier is
  opened here or a SYN of the peer opens it, it is fed with the data frames that arrive, and it ends
  with the FIN.
\<close>

datatype feed = Unborn | Live bytes | Ended bytes

fun feed_bytes :: "feed \<Rightarrow> bytes" where
  "feed_bytes Unborn = []"
| "feed_bytes (Live bs) = bs"
| "feed_bytes (Ended bs) = bs"

fun feed_frame :: "bool \<Rightarrow> frame \<Rightarrow> feed \<Rightarrow> feed" where
  "feed_frame client f Unborn =
     (if frame_cmd f = Syn \<and> peer_id client (frame_stream_id f) then Live [] else Unborn)"
| "feed_frame client f (Live bs) =
     (if frame_cmd f = Psh then Live (bs @ frame_data f)
      else if frame_cmd f = Fin then Ended bs else Live bs)"
| "feed_frame client f (Ended bs) = Ended bs"

fun feed_event :: "bool \<Rightarrow> u32 \<Rightarrow> event \<Rightarrow> feed \<Rightarrow> feed" where
  "feed_event client sid (Arrives f) fd = (if frame_stream_id f = sid then feed_frame client f fd else fd)"
| "feed_event client sid (Opens sid') fd = (if sid' = sid then Live [] else fd)"
| "feed_event client sid _ fd = fd"

definition fed :: "bool \<Rightarrow> u32 \<Rightarrow> event list \<Rightarrow> feed" where
  "fed client sid es = fold (feed_event client sid) es Unborn"

text \<open>What the reader of the stream got, and whether it was told of the end of the stream.\<close>

fun read_event :: "u32 \<Rightarrow> event \<Rightarrow> bytes" where
  "read_event sid (Reads sid' n r) = (if sid' = sid then poll_data r else [])"
| "read_event sid _ = []"

definition bytes_read :: "u32 \<Rightarrow> event list \<Rightarrow> bytes" where
  "bytes_read sid es = concat (map (read_event sid) es)"

fun end_event :: "u32 \<Rightarrow> event \<Rightarrow> bool" where
  "end_event sid (Reads sid' n r) \<longleftrightarrow> sid' = sid \<and> 0 < n \<and> r = Ready (Inr [])"
| "end_event sid _ \<longleftrightarrow> False"

definition end_seen :: "u32 \<Rightarrow> event list \<Rightarrow> bool" where
  "end_seen sid es \<longleftrightarrow> list_ex (end_event sid) es"

text \<open>Reads without room, and the events with which a stream of the identifier begins.\<close>

fun empty_read :: "u32 \<Rightarrow> event \<Rightarrow> bool" where
  "empty_read sid (Reads sid' n r) \<longleftrightarrow> sid' = sid \<and> n = 0"
| "empty_read sid _ \<longleftrightarrow> False"

fun begins :: "bool \<Rightarrow> u32 \<Rightarrow> event \<Rightarrow> bool" where
  "begins client sid (Arrives f) \<longleftrightarrow>
     frame_stream_id f = sid \<and> frame_cmd f = Syn \<and> peer_id client sid"
| "begins client sid (Opens sid') \<longleftrightarrow> sid' = sid"
| "begins client sid _ \<longleftrightarrow> False"

definition begun :: "bool \<Rightarrow> u32 \<Rightarrow> event list \<Rightarrow> nat" where
  "begun client sid es = length (filter (begins client sid) es)"

lemma history_snoc [simp]:
  "fed c sid (es @ [e]) = feed_event c sid e (fed c sid es)"
  "bytes_read sid (es @ [e]) = bytes_read sid es @ read_event sid e"
  "end_seen sid (es @ [e]) \<longleftrightarrow> end_seen sid es \<or> end_event sid e"
  "begun c sid (es @ [e]) = begun c sid es + (if begins c sid e then 1 else 0)"
  by (auto simp: fed_def bytes_read_def end_seen_def begun_def)

lemma history_Nil [simp]:
  "fed c sid [] = Unborn" "bytes_read sid [] = []" "\<not> end_seen sid []" "begun c sid [] = 0"
  by (simp_all add: fed_def bytes_read_def end_seen_def begun_def)

lemma quiet_history [simp]:
  "quiet e \<Longrightarrow> feed_event c sid e fd = fd" "quiet e \<Longrightarrow> read_event sid e = []"
  "quiet e \<Longrightarrow> \<not> end_event sid e"
  by (cases e; simp)+

lemma fed_Unborn_iff: "fed c sid es = Unborn \<longleftrightarrow> begun c sid es = 0"
proof (induction es rule: rev_induct)
  case (snoc e es)
  have "feed_event c sid e fd = Unborn \<longleftrightarrow> fd = Unborn \<and> \<not> begins c sid e" for fd
    by (cases e; cases fd) auto
  with snoc show ?case by simp
qed simp

text \<open>
  The history tells the store: before the stream begins there is nothing of it; while it is held, what
  was read and what is unread is what was fed, and its sender is gone exactly after the end.
\<close>

abbreviation held_of :: "u32 \<Rightarrow> 'dc store \<Rightarrow> stream multiset" where
  "held_of sid w \<equiv> filter_mset (\<lambda>st. stream_id st = sid) (held w)"

definition told ::
    "('dc, bytes) flume_api \<Rightarrow> u32 \<Rightarrow> feed \<Rightarrow> bytes \<Rightarrow> bool \<Rightarrow> 'dc store \<Rightarrow> bool" where
  "told D sid fd got eof w \<longleftrightarrow>
     (fd = Unborn \<longrightarrow> entries w sid = None \<and> held_of sid w = {#} \<and> got = []) \<and>
     (\<forall>bs. fd = Ended bs \<longrightarrow> entries w sid = None) \<and>
     prefix got (feed_bytes fd) \<and> (eof \<longrightarrow> fd = Ended got) \<and>
     (held_of sid w = {#} \<or>
      (\<exists>st. held_of sid w = {#st#} \<and>
            got @ unread D st (chans w ! data_rx st) = feed_bytes fd \<and>
            (senders_gone D (chans w ! data_rx st) \<longleftrightarrow> (\<exists>bs. fd = Ended bs))))"

lemma told_same:
  assumes "told D sid fd got eof w" "entries w' sid = entries w sid" "held_of sid w' = held_of sid w"
    and "\<And>st. st \<in># held_of sid w \<Longrightarrow> chans w' ! data_rx st = chans w ! data_rx st"
  shows "told D sid fd got eof w'"
proof -
  from assms(4) have "held_of sid w = {#st#} \<Longrightarrow> chans w' ! data_rx st = chans w ! data_rx st" for st
    by (metis multi_member_last)
  with assms(1-3) show ?thesis unfolding told_def by metis
qed


lemma told_heldI:
  assumes "held_of sid w = {#st#}" "fd \<noteq> Unborn" "\<And>bs. fd = Ended bs \<Longrightarrow> entries w sid = None"
    and "eof \<Longrightarrow> fd = Ended got" "got @ unread D st (chans w ! data_rx st) = feed_bytes fd"
    and "senders_gone D (chans w ! data_rx st) \<longleftrightarrow> (\<exists>bs. fd = Ended bs)"
  shows "told D sid fd got eof w"
  using assms unfolding told_def by (metis prefixI)

lemma told_freeI:
  assumes "held_of sid w = {#}" "fd \<noteq> Unborn" "\<And>bs. fd = Ended bs \<Longrightarrow> entries w sid = None"
    and "eof \<Longrightarrow> fd = Ended got" "prefix got (feed_bytes fd)"
  shows "told D sid fd got eof w"
  using assms unfolding told_def by metis

lemma told_cases:
  assumes "told D sid fd got eof w"
  obtains (free) "held_of sid w = {#}" "prefix got (feed_bytes fd)"
  | (held) st where "held_of sid w = {#st#}" "fd \<noteq> Unborn" "prefix got (feed_bytes fd)"
      "got @ unread D st (chans w ! data_rx st) = feed_bytes fd"
      "senders_gone D (chans w ! data_rx st) \<longleftrightarrow> (\<exists>bs. fd = Ended bs)"
  using assms unfolding told_def by force

lemma told_end: "\<lbrakk>told D sid fd got eof w; eof\<rbrakk> \<Longrightarrow> fd = Ended got"
  by (simp add: told_def)

lemma told_LiveD: "told D sid (Live bs) got eof w \<Longrightarrow> \<not> eof"
  by (auto simp: told_def)

lemma told_entryE:
  assumes "told D sid fd got eof w" "entries w sid = Some sst"
  obtains bs where "fd = Live bs"
  using assms by (cases fd) (auto simp: told_def)

lemma held_ofD:
  assumes "owners_wf D w" "held_of sid w = {#st#}"
  shows "st \<in># held w" "stream_id st = sid" "held_ok D w st"
proof -
  have "st \<in># held_of sid w" by (simp add: assms(2))
  then show st: "st \<in># held w" "stream_id st = sid" by simp_all
  show "held_ok D w st" using owners_wfD(1) [OF assms(1) st(1)] .
qed

text \<open>While it is held and not ended, the entry of the identifier writes to the stream's channel.\<close>

lemma told_fed_by_entry:
  assumes "owners_wf D w" "told D sid fd got eof w" "held_of sid w = {#st#}" "\<forall>bs. fd \<noteq> Ended bs"
  shows "\<exists>sst. entries w sid = Some sst \<and> data_tx sst = data_rx st"
  using assms held_ofD [OF assms(1,3)] by (auto simp: told_def held_ok_def fed_by_entry_def)

context session_env
begin

text \<open>Steps of other identifiers.\<close>

lemma told_unlink_other:
  assumes "told D sid fd got eof w" "owners_wf D w" "sid' \<noteq> sid"
  shows "told D sid fd got eof (unlink D sid' w)"
proof (rule told_same [OF assms(1)])
  fix st assume "st \<in># held_of sid w"
  then have st: "st \<in># held w" "stream_id st = sid" by simp_all
  have "data_tx sst \<noteq> data_rx st" if "entries w sid' = Some sst" for sst
    using owners_wfD(3) [OF assms(2) st(1) that] assms(3) st(2) by blast
  then show "chans (unlink D sid' w) ! data_rx st = chans w ! data_rx st"
    by (simp add: unlink_def split: option.splits)
qed (use assms(3) in \<open>simp_all add: unlink_def split: option.splits\<close>)

lemma told_born_other:
  assumes "told D sid fd got eof w" "owners_wf D w" "sid' \<noteq> sid"
  shows "told D sid fd got eof (born D sid' w)"
proof (rule told_same [OF told_unlink_other [OF assms]])
  have held: "held (unlink D sid' w) = held w" and len: "length (chans (unlink D sid' w)) = length (chans w)"
    by (simp_all add: unlink_def split: option.splits)
  fix st assume "st \<in># held_of sid (unlink D sid' w)"
  then have "st \<in># held w" by (simp add: held)
  from owners_wfD(1) [OF assms(2) this]
  show "chans (born D sid' w) ! data_rx st = chans (unlink D sid' w) ! data_rx st"
    by (simp add: born_def Let_def nth_append len held_ok_def)
qed (use assms(3) in \<open>simp_all add: born_def Let_def stream_new_def\<close>)

lemma told_born_own:
  assumes "told D sid Unborn got eof w"
  shows "told D sid (Live []) got eof (born D sid w)"
proof -
  have w: "entries w sid = None" "held_of sid w = {#}" "got = []" "\<not> eof"
    using assms by (auto simp: told_def)
  then have "born D sid w = w\<lparr>entries := (entries w)(sid \<mapsto> stream_state_new (length (chans w))),
      chans := chans w @ [unbounded D], held := add_mset (stream_new sid (length (chans w))) (held w)\<rparr>"
    by (simp add: born_def unlink_def Let_def)
  with w show ?thesis
    by (simp add: told_def stream_new_def unread_def data.unbounded_new)
qed

text \<open>Frames of the identifier.\<close>

lemma told_no_effect:
  assumes "told D sid fd got eof w" "owners_wf D w" "no_effect c w f" "frame_stream_id f = sid"
  shows "told D sid (feed_frame c f fd) got eof w"
proof (cases fd)
  case Unborn
  then have "entries w sid = None" using assms(1) by (simp add: told_def)
  with assms(3,4) have "\<not> (frame_cmd f = Syn \<and> peer_id c sid)" by (auto simp: no_effect_def)
  with Unborn assms(4) have "feed_frame c f fd = fd" by simp
  with assms(1) show ?thesis by simp
next
  case (Live bs)
  show ?thesis
  proof (cases "frame_cmd f = Fin \<or> frame_cmd f = Psh \<and> frame_data f \<noteq> []")
    case True
    with assms(3,4) have gone: "entries w sid = None" by (auto simp: no_effect_def)
    have "held_of sid w \<noteq> {#st#}" for st
      using told_fed_by_entry [OF assms(2,1), of st] gone Live by auto
    then have "held_of sid w = {#}" "prefix got bs" "\<not> eof" using assms(1) Live by (auto simp: told_def)
    with True gone Live show ?thesis
      by (auto simp: told_def intro: prefix_order.trans)
  next
    case False
    then have "feed_frame c f fd = fd" using Live by auto
    with assms(1) show ?thesis by simp
  qed
qed (use assms(1) in simp)

lemma told_unlink_own:
  assumes "told D sid fd got eof w" "owners_wf D w" "table_wf D (entries w) (chans w)"
    and "frame_stream_id f = sid" "entries w sid = Some sst"
    and "frame_cmd f = Fin \<or>
         frame_cmd f = Psh \<and> frame_data f \<noteq> [] \<and> receivers_gone D (chans w ! data_tx sst)"
  shows "told D sid (feed_frame c f fd) got eof (unlink D sid w)"
proof -
  obtain bs where fd: "fd = Live bs" using told_entryE [OF assms(1,5)] .
  have tx: "data_tx sst < length (chans w)" using table_wfD(1) [OF assms(3,5)] .
  have w: "entries (unlink D sid w) sid = None" "held (unlink D sid w) = held w"
    "chans (unlink D sid w) ! data_tx sst = drop_sender D (chans w ! data_tx sst)"
    using assms(5) tx by (simp_all add: unlink_def)
  have "\<not> eof" using told_LiveD assms(1) fd by blast
  from assms(1) show ?thesis
  proof (cases rule: told_cases)
    case free
    with fd w \<open>\<not> eof\<close> show ?thesis
      using assms(6) by (intro told_freeI) (auto simp: w)
  next
    case (held st)
    have rx: "data_rx st = data_tx sst"
      using told_fed_by_entry [OF assms(2,1) held(1)] assms(5) fd by auto
    from held_ofD(3) [OF assms(2) held(1)] rx assms(6) have "frame_cmd f = Fin"
      by (auto simp: held_ok_def)
    with held fd rx \<open>\<not> eof\<close> show ?thesis
      by (intro told_heldI [of _ _ st]) (simp_all add: w rx unread_def data.drop_sender_laws)
  qed
qed

lemma told_psh_own:
  assumes "told D sid fd got eof w" "owners_wf D w" "table_wf D (entries w) (chans w)"
    and "frame_stream_id f = sid" "entries w sid = Some sst" "frame_cmd f = Psh"
    and "contents D ch = contents D (chans w ! data_tx sst) @ [frame_data f]"
    and "senders_gone D ch = senders_gone D (chans w ! data_tx sst)"
  shows "told D sid (feed_frame c f fd) got eof (w\<lparr>chans := (chans w)[data_tx sst := ch]\<rparr>)"
proof -
  obtain bs where fd: "fd = Live bs" using told_entryE [OF assms(1,5)] .
  have tx: "data_tx sst < length (chans w)" using table_wfD(1) [OF assms(3,5)] .
  have "\<not> eof" using told_LiveD assms(1) fd by blast
  from assms(1) show ?thesis
  proof (cases rule: told_cases)
    case free
    with fd \<open>\<not> eof\<close> assms(6) show ?thesis by (intro told_freeI) auto
  next
    case (held st)
    have rx: "data_rx st = data_tx sst"
      using told_fed_by_entry [OF assms(2,1) held(1)] assms(5) fd by auto
    with held fd tx assms(6-8) \<open>\<not> eof\<close> show ?thesis
      by (intro told_heldI [of _ _ st]) (auto simp: unread_def)
  qed
qed

text \<open>Reading, and what else the owner does.\<close>

lemma held_of_remove:
  assumes "st \<in># held w"
  shows "filter_mset (\<lambda>x. stream_id x = sid) (held w - {#st#}) =
         (if stream_id st = sid then held_of sid w - {#st#} else held_of sid w)"
  using assms by (auto simp: filter_diff_mset)

lemma held_of_single:
  assumes "told D sid fd got eof w" "st \<in># held w" "stream_id st = sid"
  shows "held_of sid w = {#st#}"
proof -
  have st: "st \<in># held_of sid w" using assms(2,3) by simp
  from assms(1) show ?thesis
  proof (cases rule: told_cases)
    case free
    with st show ?thesis by (simp only: free(1) set_mset_empty empty_iff)
  next
    case (held x)
    from st have "st = x" by (simp only: held(1) set_mset_single singleton_iff)
    with held(1) show ?thesis by simp
  qed
qed

lemma told_read_own:
  assumes "told D sid fd got eof w" "owners_wf D w" "st \<in># held w" "stream_id st = sid" "0 < n"
    and "poll_read B D st (chans w ! data_rx st) ss n = ((st', ch, ss'), r)"
  shows "told D sid fd (got @ poll_data r) (eof \<or> r = Ready (Inr []))
           (w\<lparr>chans := (chans w)[data_rx st := ch], held := add_mset st' (held w - {#st#})\<rparr>)"
    (is "told D sid fd ?got ?eof ?w")
proof -
  note one = held_of_single [OF assms(1,3,4)]
  note ok = held_ofD(3) [OF assms(2) one]
  note ch = poll_read_channel [OF assms(6)]
  note conserves = poll_read_conserves [OF assms(6,5)]
  from assms(1) show ?thesis
  proof (cases rule: told_cases)
    case free
    with one show ?thesis by simp
  next
    case (held st0)
    have st0: "st0 = st" using held(1) one by simp
    have got: "?got @ unread D st' ch = feed_bytes fd" using held(4) conserves by (simp add: st0)
    have fin: "fd = Ended ?got" if ?eof
    proof (cases eof)
      case True
      then have fd: "fd = Ended got" using told_end [OF assms(1)] by simp
      with got show ?thesis by simp
    next
      case False
      with that have r: "r = Ready (Inr [])" by simp
      then have "\<not> closed ss" using assms(6) ok by (auto simp: poll_read_def is_closed_def held_ok_def)
      with poll_read_open [OF assms(6,5)] ok r
      have "unread D st (chans w ! data_rx st) = []" "senders_gone D (chans w ! data_rx st)"
        by (auto simp: held_ok_def split: if_splits)
      with held(4,5) r st0 show ?thesis by auto
    qed
    have "held_of sid ?w = {#st'#}"
      using one ch assms(3,4) by (simp add: held_of_remove)
    with held got fin ch ok assms(1) show ?thesis
      by (intro told_heldI [of _ _ st']) (auto simp: told_def st0 held_ok_def)
  qed
qed


lemma told_touch:
  assumes "told D sid fd got eof w" "st \<in># held w" "st' = st\<lparr>write_closed_flag := x\<rparr>"
  shows "told D sid fd got eof (w\<lparr>held := add_mset st' (held w - {#st#})\<rparr>)"
    (is "told D sid fd got eof ?w")
proof (cases "stream_id st = sid")
  case False
  have "held_of sid ?w = held_of sid w" using False assms(2,3) by (simp add: held_of_remove)
  then show ?thesis by (intro told_same [OF assms(1)]) simp_all
next
  case True
  note one = held_of_single [OF assms(1,2) True]
  have w': "held_of sid ?w = {#st'#}" using one assms(2,3) True by (simp add: held_of_remove)
  from assms(1) show ?thesis
  proof (cases rule: told_cases)
    case (held st0)
    then have st0: "st0 = st" using one by simp
    with held assms w' show ?thesis
      by (intro told_heldI [of _ _ st']) (auto simp: told_def unread_def)
  qed (simp add: one)
qed

lemma told_drop:
  assumes "told D sid fd got eof w" "owners_wf D w" "st \<in># held w"
  shows "told D sid fd got eof (w\<lparr>chans := (chans w)[data_rx st := ch], held := held w - {#st#}\<rparr>)"
    (is "told D sid fd got eof ?w")
proof (cases "stream_id st = sid")
  case False
  show ?thesis
  proof (rule told_same [OF assms(1)])
    fix x assume "x \<in># held_of sid w"
    with False assms(3) have "x \<in># held w - {#st#}"
      by (metis (mono_tags, lifting) filter_mset_eq_conv in_diff_count insert_noteq_member mem_Collect_eq
          insert_DiffM set_mset_filter)
    then have "data_rx st \<noteq> data_rx x" using owners_wfD(2) [OF assms(2,3)] by metis
    then show "chans ?w ! data_rx x = chans w ! data_rx x" by simp
  qed (use False assms(3) in \<open>simp_all add: held_of_remove\<close>)
next
  case True
  note one = held_of_single [OF assms(1,3) True]
  have "held_of sid ?w = {#}" using one assms(3) True by (simp add: held_of_remove)
  moreover have "fd \<noteq> Unborn" using assms(1) one by (auto simp: told_def)
  ultimately show ?thesis
    using assms(1) by (intro told_freeI) (auto simp: told_def)
qed

lemma told_read_other:
  assumes "told D sid fd got eof w" "owners_wf D w" "st \<in># held w" "stream_id st \<noteq> sid"
    and "data_rx st' = data_rx st" "stream_id st' = stream_id st"
  shows "told D sid fd got eof
           (w\<lparr>chans := (chans w)[data_rx st := ch], held := add_mset st' (held w - {#st#})\<rparr>)"
  using told_drop [OF assms(1-3), of ch] assms(4,6) by (simp add: told_def)

text \<open>One step, for a stream that begins once and is not read without room.\<close>

lemma told_step:
  assumes "store_step B D c w e w'" "owners_wf D w" "table_wf D (entries w) (chans w)"
    and "told D sid fd got eof w" "\<not> empty_read sid e" "begins c sid e \<Longrightarrow> fd = Unborn"
  shows "told D sid (feed_event c sid e fd) (got @ read_event sid e) (eof \<or> end_event sid e) w'"
  using assms
proof (induction rule: store_step.induct)
  case (store_quiet e w)
  then show ?case by simp
next
  case (store_no_effect w f)
  then show ?case by (simp add: told_no_effect)
next
  case (store_syn f w)
  then show ?case using told_born_own told_born_other by (cases "frame_stream_id f = sid") auto
next
  case (store_unlink f w sst)
  then show ?case
    using told_unlink_own [OF store_unlink(5,3,4) _ _ store_unlink(1)] told_unlink_other
    by (cases "frame_stream_id f = sid") auto
next
  case (store_psh f w sst ch)
  show ?case
  proof (cases "frame_stream_id f = sid")
    case True
    with told_psh_own [OF store_psh(11,9,10) True _ store_psh(1,4,6)] store_psh(3) show ?thesis by simp
  next
    case False
    have "told D sid fd got eof (w\<lparr>chans := (chans w)[data_tx sst := ch]\<rparr>)"
    proof (rule told_same [OF store_psh(11)])
      fix st assume "st \<in># held_of sid w"
      then have "st \<in># held w" "stream_id st = sid" by simp_all
      with owners_wfD(3) [OF store_psh(9) _ store_psh(3)] False have "data_tx sst \<noteq> data_rx st"
        by metis
      then show "chans (w\<lparr>chans := (chans w)[data_tx sst := ch]\<rparr>) ! data_rx st = chans w ! data_rx st"
        by simp
    qed simp_all
    with False show ?thesis by simp
  qed
next
  case (store_open w sid')
  then show ?case using told_born_own told_born_other by (cases "sid' = sid") auto
next
  case (store_read st w ss n st' ch ss' r)
  note ch = poll_read_channel [OF store_read(2)]
  show ?case
  proof (cases "stream_id st = sid")
    case True
    with told_read_own [OF store_read(5,3,1) True _ store_read(2)] store_read(6) show ?thesis by simp
  next
    case False
    with told_read_other [OF store_read(5,3,1) False] ch show ?thesis by simp
  qed
next
  case (store_touch e st w st' x)
  then show ?case by (simp add: told_touch)
next
  case (store_drop e st w)
  then show ?case by (simp add: told_drop)
qed

end
section \<open>Runs\<close>

context session_env
begin

lemma run_told:
  fixes s :: "('fc, 'dc, 'ac) system"
  assumes "limits_ok cfg es" "run B F D A (system_new F A cfg client) es s"
    and "begun client sid es \<le> 1" "\<not> list_ex (empty_read sid) es"
  shows "told D sid (fed client sid es) (bytes_read sid es) (end_seen sid es) (store_of A s)"
  using assms
proof (induction rule: run_new_induct)
  case start
  show ?case by (simp add: store_new told_def)
next
  case (step es s e s')
  have pre: "begun client sid es \<le> 1" "\<not> list_ex (empty_read sid) es" "\<not> empty_read sid e"
    using step(7,8) by (simp_all split: if_splits)
  from step(3,4) have "store_step B D client (store_of A s) e (store_of A s')"
    using step_store by (auto simp: run_state_def)
  moreover have "table_wf D (entries (store_of A s)) (chans (store_of A s))"
    using step(4) by (simp add: run_state_def system_wf_def session_wf_def store_of_def)
  moreover have "begins client sid e \<Longrightarrow> fed client sid es = Unborn"
    using step(7) by (simp add: fed_Unborn_iff)
  moreover have "owners_wf D (store_of A s)"
    using run_owners [OF limits_ok_prefix [OF step(2)] step(1)] .
  ultimately show ?case using told_step step(6) [OF pre(1,2)] pre(3) by simp
qed

text \<open>What the owner of a stream has read and what is unread are together what arrived.\<close>

lemma run_handle:
  fixes s :: "('fc, 'dc, 'ac) system"
  assumes "limits_ok cfg es" "run B F D A (system_new F A cfg client) es s"
    and "begun client (stream_id st) es \<le> 1" "\<not> list_ex (empty_read (stream_id st)) es"
    and "(st, closing) \<in> set (handles s)"
  shows "bytes_read (stream_id st) es @ unread D st (data_chs (inner s) ! data_rx st) =
         feed_bytes (fed client (stream_id st) es) \<and> fed client (stream_id st) es \<noteq> Unborn"
proof -
  note told = run_told [OF assms(1-4)]
  have "st \<in> set (map fst (handles s))" using assms(5) by force
  then have "st \<in># held (store_of A s)" by (simp add: store_of_def held_streams_def)
  from held_of_single [OF told this refl] told show ?thesis
    by (auto simp: store_of_def told_def elim!: told_cases)
qed

end

section \<open>Properties\<close>

text \<open>
  C12. The reader gets what arrived: in every run in which the stream of an identifier begins once and is
  read with room in the buffer, however the reads interleave with the arrivals of frames and everything
  else, what was read is a prefix of the data that arrived for the stream; while the application holds
  the stream, the bytes read and the unread bytes together are exactly that data; and a reader that was
  told of the end of the stream has got all of it, and the FIN did arrive.
\<close>

lemma reader_gets_what_arrived:
  fixes s :: "('fc, 'dc, 'ac) system"
  assumes "session_env B F D A" "limits_ok cfg es"
    and "run B F D A (system_new F A cfg client) es s"
    and "begun client sid es \<le> 1" "\<not> list_ex (empty_read sid) es"
  shows "prefix (bytes_read sid es) (feed_bytes (fed client sid es)) \<and>
         (end_seen sid es \<longrightarrow> fed client sid es = Ended (bytes_read sid es)) \<and>
         (\<forall>(st, closing) \<in> set (handles s). stream_id st = sid \<longrightarrow>
            bytes_read sid es @ unread D st (data_chs (inner s) ! data_rx st) =
            feed_bytes (fed client sid es))"
proof -
  let ?w = "store_of A s"
  note told = session_env.run_told [OF assms]
  have "bytes_read sid es @ unread D st (data_chs (inner s) ! data_rx st) =
      feed_bytes (fed client sid es)"
    if "(st, closing) \<in> set (handles s)" "stream_id st = sid" for st closing
    using session_env.run_handle [OF assms(1-3), of st closing] assms(4,5) that by blast
  moreover have "prefix (bytes_read sid es) (feed_bytes (fed client sid es))"
    using told by (simp add: told_def)
  moreover have "end_seen sid es \<longrightarrow> fed client sid es = Ended (bytes_read sid es)"
    using told_end [OF told] by blast
  ultimately show ?thesis by blast
qed

lemma reader_gets_what_arrived_witness:
  "\<exists>es s. demo_run (demo config_default) es s \<and> bytes_read 2 es = [5, 6, 7] \<and>
     fed True 2 es = Ended [5, 6, 7]"
proof -
  obtain es s where x: "demo_execute [Do_recv, Do_arrive (new_syn 1 2), Do_recv,
      Do_arrive (new_psh 1 2 [5, 6, 7]), Do_accept, Do_accept_select 0, Do_accept_poll 0, Do_read 0 2,
      Do_read 0 4, Do_recv, Do_arrive (new_fin 1 2), Do_read 0 4] (demo config_default) = Some (es, s)"
    and s: "limits_ok config_default es" "begun True 2 es \<le> 1" "\<not> list_ex (empty_read 2) es"
      "end_seen 2 es" "bytes_read 2 es = [5, 6, 7]"
    by (simp add: exec_simps limits_ok_def traffic_def begun_def end_seen_def bytes_read_def peer_id_def)
  note r = execute_run [OF x]
  from reader_gets_what_arrived [OF lse.session_env_axioms s(1) r [unfolded demo_def] s(2,3)] r s(4,5)
  show ?thesis by auto
qed

end
