(* ===== verification/Identifiers.thy ===== *)
theory Identifiers
  imports Stores
begin

text \<open>
  The identifiers of the streams that a session opens in the course of a run: as long as there are
  fewer than \<open>id_limit\<close> of them they are the first identifiers of the session's parity, in order,
  whatever happens in between.
\<close>

fun opened_event :: "event \<Rightarrow> u32 list" where
  "opened_event (Opens sid) = [sid]"
| "opened_event _ = []"

definition opened_ids :: "event list \<Rightarrow> u32 list" where
  "opened_ids es = concat (map opened_event es)"

definition id_limit :: nat where
  "id_limit = 2147483646"

definition nth_id :: "bool \<Rightarrow> nat \<Rightarrow> u32" where
  "nth_id client k = word_of_nat (first_id client + 2 * k)"

lemma opened_ids_simps [simp]:
  "opened_ids [] = []" "opened_ids (es @ es') = opened_ids es @ opened_ids es'"
  "opened_ids (e # es) = opened_event e @ opened_ids es"
  by (simp_all add: opened_ids_def)

lemma set_opened_ids: "sid \<in> set (opened_ids es) \<longleftrightarrow> Opens sid \<in> set es"
proof -
  have "sid \<in> set (opened_event e) \<longleftrightarrow> e = Opens sid" for e by (cases e) auto
  then show ?thesis by (auto simp: opened_ids_def)
qed

lemma count_opens: "length (filter (\<lambda>e. e = Opens sid) es) = count_list (opened_ids es) sid"
proof (induction es)
  case (Cons e es)
  then show ?case by (cases e) auto
qed simp

text \<open>The first identifiers of a parity are different, not zero and of that parity.\<close>

lemma unat_nth_id: "k < id_limit \<Longrightarrow> unat (nth_id client k) = first_id client + 2 * k"
  unfolding nth_id_def
  by (rule unat_u32_of_nat) (simp add: first_id_def id_limit_def)

lemma peer_id_nth_id: "k < id_limit \<Longrightarrow> peer_id client (nth_id c k) \<longleftrightarrow> client \<noteq> c"
  using unat_nth_id [of k c]
  by (auto simp: peer_id_def nth_id_def even_word_iff even_of_nat_iff first_id_def)

lemma nth_id_nonzero: "k < id_limit \<Longrightarrow> nth_id c k \<noteq> 0"
  using unat_nth_id [of k c] by (auto simp: first_id_def split: if_splits)

lemma distinct_nth_ids: "n \<le> id_limit \<Longrightarrow> distinct (map (nth_id client) [0..<n])"
  by (auto simp: distinct_map inj_on_def dest!: arg_cong [of _ _ unat] simp: unat_nth_id)

context session_env
begin

lemma open_prepare_next_id:
  assumes "open_stream_prepare D s = (s', r)" "session_wf D A s"
  shows "(\<exists>st. r = Inr st \<and> stream_id st = next_id s \<and> next_id s' = next_id s + 2) \<or>
         (\<exists>e. r = Inl e \<and> (next_id s' = next_id s \<or> (\<exists>e'. snd (next_stream_id s) = Inl e')))"
  by (cases rule: open_stream_prepare_cases [OF assms(2)])
    (use assms(1) in \<open>auto simp: next_stream_id_def stream_new_def Let_def split: if_splits\<close>)

lemma open_send_next_id: "open_stream_send F D st s = (s', r) \<Longrightarrow> next_id s' = next_id s"
  by (auto simp: open_stream_send_def split: prod.splits poll.splits bool.splits)

lemma recv_step_next_id:
  assumes "recv_step F D A s e s'" "system_wf F D A s" "\<not> waits_for_tokens (recv_at s)"
  shows "next_id (inner s') = next_id (inner s)"
  using assms
proof (induction rule: recv_step.induct)
  case (recv_arrives s g f i out)
  let ?i = "(inner s)\<lparr>shared := mark_data_received (shared (inner s))\<rparr>"
  have "handle_frame F D A f ?i = (i, out)" "session_wf D A ?i"
    using recv_arrives(2,3) by (auto simp: recv_frame_def system_wf_def intro: session_wf_fields)
  from handle_frame_keeps(2) [OF this(2,1)] show ?case by simp
next
  case (recv_accept s st i out)
  then have "session_wf D A (inner s)" by (simp add: system_wf_def)
  from syn_send_cases [OF this recv_accept(2)] have "i = (inner s)\<lparr>accept_ch := accept_ch i\<rparr>" by blast
  then have "next_id i = next_id (inner s)"
    by (metis session_inner.select_convs(4) session_inner.surjective session_inner.update_convs(3))
  then show ?case by simp
next
  case (recv_tokens s f g h i out)
  then show ?case by simp
next
  case (recv_data s f i out)
  then show ?case by (simp add: system_wf_def recv_ok_def)
qed (auto simp: recv_end_def psh_abandon_def)

lemma app_step_next_id:
  assumes "app_step B F D A s e s'" "session_wf D A (inner s)"
  shows "(e = Opens (next_id (inner s)) \<and> next_id (inner s') = next_id (inner s) + 2) \<or>
         opened_event e = [] \<and>
         (next_id (inner s') = next_id (inner s) \<or> (\<exists>e. snd (next_stream_id (inner s)) = Inl e))"
  using assms
proof (induction rule: app_step.induct)
  case (app_open s i st)
  with open_prepare_next_id [OF app_open(1,2)] show ?case by auto
next
  case (app_open_fails s i e)
  with open_prepare_next_id [OF app_open_fails(1,2)] show ?case by auto
next
  case (app_opened k s i st)
  then show ?case by (auto dest: open_send_next_id)
next
  case (app_open_refused k s i e)
  then show ?case by (auto dest: open_send_next_id)
next
  case (app_accepted k s g first i st)
  with accept_select_cases [OF app_accepted(4,3)] show ?case
    by (metis opened_event.simps(11) session_inner.ext_inject session_inner.surjective
        session_inner.update_convs(3) system.select_convs(1) system.surjective system.update_convs(1,7,8))
next
  case (app_accept_ends k s g first i e)
  with accept_select_cases [OF app_accept_ends(4,3)] show ?case by auto
next
  case (app_close s i r)
  then show ?case by (auto simp: session_close_def)
qed auto

lemma step_next_id:
  assumes "step B F D A s e s'" "system_wf F D A s" "\<not> waits_for_tokens (recv_at s)"
  shows "(e = Opens (next_id (inner s)) \<and> next_id (inner s') = next_id (inner s) + 2) \<or>
         opened_event e = [] \<and>
         (next_id (inner s') = next_id (inner s) \<or> (\<exists>e. snd (next_stream_id (inner s)) = Inl e))"
proof -
  have "opened_event e = [] \<and> next_id (inner s') = next_id (inner s)" if "recv_step F D A s e s'"
    using recv_step_next_id [OF that assms(2,3)] that by (auto elim: recv_step.cases)
  moreover have "opened_event e = [] \<and> next_id (inner s') = next_id (inner s)" if "send_step B F s e s'"
    using that by (auto elim!: send_step.cases simp: send_end_def send_return_def)
  moreover have "opened_event e = [] \<and> next_id (inner s') = next_id (inner s)" if "keep_step F s e s'"
    using that by (auto elim!: keep_step.cases)
  ultimately show ?thesis
    using assms app_step_next_id unfolding step_def system_wf_def by blast
qed

lemma run_ids:
  fixes s :: "('fc, 'dc, 'ac) system"
  assumes "limits_ok cfg es" "run B F D A (system_new F A cfg client) es s"
    and "length (opened_ids es) < id_limit"
  shows "opened_ids es = map (nth_id client) [0..<length (opened_ids es)] \<and>
         next_id (inner s) = nth_id client (length (opened_ids es))"
  using assms
proof (induction rule: run_new_induct)
  case start
  show ?case by (simp add: system_new_def session_new_def nth_id_def first_id_def)
next
  case (step es s e s')
  let ?n = "length (opened_ids es)"
  have n: "?n < id_limit" using step(7) by simp
  from step(6) n have IH: "opened_ids es = map (nth_id client) [0..<?n]"
    "next_id (inner s) = nth_id client ?n" by blast+
  have "first_id client + 2 * ?n \<le> 4294967293" using n step(7)
    by (simp add: id_limit_def first_id_def)
  with next_stream_id_snd [OF IH(2) [unfolded nth_id_def]]
  have "snd (next_stream_id (inner s)) \<noteq> Inl e" for e by simp
  moreover have "nth_id client ?n + 2 = nth_id client (Suc ?n)"
    by (simp add: nth_id_def algebra_simps)
  ultimately show ?case
    using step_next_id [OF step(3)] step(4) IH by (auto simp: run_state_def)
qed

lemma run_ids_distinct:
  fixes s :: "('fc, 'dc, 'ac) system"
  assumes "limits_ok cfg es" "run B F D A (system_new F A cfg client) es s"
    and "length (opened_ids es) < id_limit"
  shows "opened_ids es = map (nth_id client) [0..<length (opened_ids es)] \<and>
         distinct (opened_ids es) \<and>
         (\<forall>sid \<in> set (opened_ids es). sid \<noteq> 0 \<and> \<not> peer_id client sid \<and> peer_id (\<not> client) sid)"
proof -
  from run_ids [OF assms] have
    ids: "opened_ids es = map (nth_id client) [0..<length (opened_ids es)]" ..
  have "sid \<noteq> 0 \<and> \<not> peer_id client sid \<and> peer_id (\<not> client) sid" if "sid \<in> set (opened_ids es)" for sid
  proof -
    from that ids obtain k where "k < length (opened_ids es)" "sid = nth_id client k"
      by (metis atLeastLessThan_iff imageE list.set_map set_upt)
    with assms(3) show ?thesis by (simp add: peer_id_nth_id nth_id_nonzero)
  qed
  moreover have "distinct (opened_ids es)"
    using distinct_nth_ids assms(3) by (subst ids) simp
  ultimately show ?thesis using ids by blast
qed

end

section \<open>Properties\<close>

text \<open>
  C21. The identifiers of a run: in every run that opens fewer than 2147483646 streams, whatever the
  transport, the other tasks and the application do in between, the identifiers that \<open>open_stream\<close> takes
  are 1, 3, 5, ... on a client and 2, 4, 6, ... on a server, in this order; so no identifier is taken
  twice, none is zero, and none is one that the peer may open. (The specification lets a server start
  from 0, an identifier that frames with a stream may not have; the code starts from 2.)
\<close>

lemma opened_ids_in_order:
  fixes s :: "('fc, 'dc, 'ac) system"
  assumes "session_env B F D A" "limits_ok cfg es"
    and "run B F D A (system_new F A cfg client) es s"
    and "length (opened_ids es) < id_limit"
  shows "opened_ids es = map (nth_id client) [0..<length (opened_ids es)] \<and>
         distinct (opened_ids es) \<and>
         (\<forall>sid \<in> set (opened_ids es). sid \<noteq> 0 \<and> \<not> peer_id client sid \<and> peer_id (\<not> client) sid)"
  by (rule session_env.run_ids_distinct [OF assms])

lemma opened_ids_in_order_witness:
  "\<exists>es s. demo_run (demo config_default) es s \<and> opened_ids es = [1, 3, 5] \<and> distinct (opened_ids es)"
proof -
  obtain es s where x: "demo_execute [Do_open, Do_recv, Do_open, Do_open_send 1, Do_open]
      (demo config_default) = Some (es, s)"
    and s: "limits_ok config_default es" "opened_ids es = [1, 3, 5]"
    by (simp add: exec_simps limits_ok_def traffic_def)
  note r = execute_run [OF x]
  have "length (opened_ids es) < id_limit" by (simp add: s(2) id_limit_def)
  from opened_ids_in_order [OF lse.session_env_axioms s(1) r [unfolded demo_def] this] r s(2)
  show ?thesis by blast
qed

end
