(* ===== verification/Simulation.thy ===== *)
theory Simulation
  imports Histories Identifiers
begin

text \<open>
  Every run of the system, as a run of the abstract table: an arriving frame is the abstract step of
  that frame, opening a stream, reading from one and dropping one are steps of their own, which the event
  determines, and nothing else changes the table.
\<close>

section \<open>The abstract machine\<close>

text \<open>
  The owner of a stream. Opening adds an empty queue under an identifier that has none. A read takes the
  oldest chunk of its stream and returns the first bytes of it, as many as its buffer holds, or leaves the
  table alone; then it may wait only if the queue is empty, and report the end only if there is no queue.
  Dropping a stream gives up its queue. An identifier that has begun \<open>again\<close> may still have an older
  stream, whose queue is not in the table any more.
\<close>

inductive owner_step :: "(u32 \<Rightarrow> bool) \<Rightarrow> event \<Rightarrow> table \<Rightarrow> table \<Rightarrow> bool" for again :: "u32 \<Rightarrow> bool" where
  owner_other: "\<lbrakk>quiet e; \<forall>sid. e \<noteq> Drops sid\<rbrakk> \<Longrightarrow> owner_step again e q q"
| owner_opens: "q sid = None \<Longrightarrow> owner_step again (Opens sid) q (q(sid \<mapsto> Some []))"
| owner_takes:
    "q sid = Some (Some (c # cs))
     \<Longrightarrow> owner_step again (Reads sid n (Ready (Inr (take n c)))) q (q(sid \<mapsto> Some cs))"
| owner_reads:
    "\<lbrakk>r = Pending \<longrightarrow> q sid = Some (Some []); 0 < n \<and> r = Ready (Inr []) \<longrightarrow> again sid \<or> q sid = None\<rbrakk>
     \<Longrightarrow> owner_step again (Reads sid n r) q q"
| owner_drops: "q sid \<noteq> None \<Longrightarrow> owner_step again (Drops sid) q (q(sid \<mapsto> None))"
| owner_drops_ended: "again sid \<or> q sid = None \<Longrightarrow> owner_step again (Drops sid) q q"

inductive table_run :: "bool \<Rightarrow> event list \<Rightarrow> table \<Rightarrow> table \<Rightarrow> bool" for client :: bool where
  table_start: "table_run client [] q q"
| table_frame:
    "table_run client es q q' \<Longrightarrow> table_run client (es @ [Arrives f]) q (spec_frame client f q')"
| table_owner:
    "\<lbrakk>table_run client es q q'; owner_step (\<lambda>sid. 1 < begun client sid es) e q' q''\<rbrakk>
     \<Longrightarrow> table_run client (es @ [e]) q q''"

section \<open>The entry of a stream that began once\<close>

text \<open>
  As long as the stream of an identifier has begun only once, whoever holds a stream of it holds the one
  that the entry writes to.
\<close>

definition sole :: "u32 \<Rightarrow> nat \<Rightarrow> 'dc store \<Rightarrow> bool" where
  "sole sid n w \<longleftrightarrow>
     (n = 0 \<longrightarrow> entries w sid = None \<and> (\<forall>st \<in># held w. stream_id st \<noteq> sid)) \<and>
     (n \<le> 1 \<longrightarrow> (\<forall>st \<in># held w. \<forall>sst.
        stream_id st = sid \<and> entries w sid = Some sst \<longrightarrow> data_tx sst = data_rx st))"

lemma unlink_entries: "entries (unlink D sid w) = (entries w)(sid := None)" "held (unlink D sid w) = held w"
  by (auto simp: unlink_def split: option.splits)

lemma sole_born:
  "sole sid n w \<Longrightarrow> sole sid (if sid' = sid then Suc n else n) (born D sid' w)"
  by (auto simp: sole_def born_def Let_def unlink_entries stream_new_def stream_state_new_def)

lemma sole_unlink: "sole sid n w \<Longrightarrow> sole sid n (unlink D sid' w)"
  by (auto simp: sole_def unlink_entries)

context session_env
begin

lemma sole_step:
  assumes "store_step B D c w e w'" "sole sid n w"
  shows "sole sid (n + (if begins c sid e then 1 else 0)) w'"
  using assms
proof (induction rule: store_step.induct)
  case (store_quiet e w)
  then have "\<not> begins c sid e" by (cases e) auto
  with store_quiet show ?case by simp
next
  case (store_no_effect w f)
  show ?case
  proof (cases "begins c sid (Arrives f)")
    case True
    with store_no_effect(1) have "entries w sid \<noteq> None" by (auto simp: no_effect_def)
    with store_no_effect(2) True show ?thesis by (auto simp: sole_def)
  next
    case False
    with store_no_effect(2) show ?thesis by (simp del: begins.simps)
  qed
next
  case (store_syn f w)
  then show ?case using sole_born [of sid n w "frame_stream_id f" D] by (auto split: if_splits)
next
  case (store_unlink f w sst)
  then have "\<not> begins c sid (Arrives f)" by auto
  with sole_unlink [OF store_unlink(3)] show ?case by (simp del: begins.simps)
next
  case (store_psh f w sst ch)
  then show ?case by (simp add: sole_def)
next
  case (store_open w sid')
  then show ?case using sole_born [of sid n w sid' D] by (auto split: if_splits)
next
  case (store_read st w ss n' st' ch ss' r)
  from poll_read_channel [OF store_read(2)] store_read(1,3) show ?case
    by (auto simp: sole_def dest: in_diffD)
next
  case (store_touch e st w st' x)
  then have "\<not> begins c sid e" by (cases e) auto
  with store_touch show ?case by (auto simp: sole_def dest: in_diffD)
next
  case (store_drop e st w)
  then have "\<not> begins c sid e" by (cases e) auto
  with store_drop show ?case by (auto simp: sole_def dest: in_diffD)
qed

lemma run_sole:
  fixes s :: "('fc, 'dc, 'ac) system"
  assumes "limits_ok cfg es" "run B F D A (system_new F A cfg client) es s"
  shows "sole sid (begun client sid es) (store_of A s)"
  using assms
proof (induction rule: run_new_induct)
  case start
  show ?case by (simp add: store_new sole_def)
next
  case (step es s e s')
  from step(3,4) have "store_step B D client (store_of A s) e (store_of A s')"
    using step_store by (auto simp: run_state_def)
  from sole_step [OF this step(6)] show ?case by simp
qed

text \<open>An entry under an identifier of our own was made by \<open>open_stream\<close>.\<close>

lemma store_step_own:
  assumes "store_step B D c w e w'" "entries w' sid \<noteq> None" "\<not> peer_id c sid"
  shows "entries w sid \<noteq> None \<or> e = Opens sid"
  using assms
  by (induction rule: store_step.induct)
    (auto simp: born_def Let_def unlink_entries split: if_splits)

lemma run_own:
  fixes s :: "('fc, 'dc, 'ac) system"
  assumes "limits_ok cfg es" "run B F D A (system_new F A cfg client) es s"
    and "streams (inner s) sid \<noteq> None" "\<not> peer_id client sid"
  shows "sid \<in> set (opened_ids es)"
  using assms
proof (induction rule: run_new_induct)
  case start
  then show ?case by (simp add: system_new_def session_new_def)
next
  case (step es s e s')
  from step(3,4) have "store_step B D client (store_of A s) e (store_of A s')"
    using step_store by (auto simp: run_state_def)
  from store_step_own [OF this, of sid] step show ?case by (auto simp: store_of_def)
qed

end

section \<open>The simulation\<close>

definition channel_view :: "('dc, bytes) flume_api \<Rightarrow> 'dc \<Rightarrow> bytes list option" where
  "channel_view D ch = (if receivers_gone D ch then None else Some (contents D ch))"

lemma entry_view_channel: "entry_view D chs sst = channel_view D (chs ! data_tx sst)"
  by (simp add: entry_view_def channel_view_def Let_def)

lemma owner_same:
  "\<lbrakk>table_of D s' = table_of D s; quiet e; \<forall>sid. e \<noteq> Drops sid\<rbrakk>
   \<Longrightarrow> owner_step g e (table_of D s) (table_of D s')"
  by (simp add: owner_other)

text \<open>Writing one cell of the store changes at most the entry that owns it.\<close>

lemma table_of_cell:
  assumes "table_wf D (streams s) (data_chs s)"
    and "streams s' = streams s" "data_chs s' = (data_chs s)[a := ch]"
  obtains (owned) sid sst where "streams s sid = Some sst" "data_tx sst = a"
      "table_of D s' = (table_of D s)(sid \<mapsto> channel_view D ch)"
    | (free) "table_of D s' = table_of D s"
proof (cases "\<exists>sid sst. streams s sid = Some sst \<and> data_tx sst = a")
  case True
  then obtain sid sst where e: "streams s sid = Some sst" "data_tx sst = a" by blast
  have "table_of D s' sid' = ((table_of D s)(sid \<mapsto> channel_view D ch)) sid'" for sid'
    using assms e table_wfD(1) [OF assms(1) e(1)] table_wfD(4) [OF assms(1) e(1), of sid']
    by (cases "streams s sid'") (auto simp: table_of_def entry_view_channel)
  with e owned show ?thesis by blast
next
  case False
  have "table_of D s' sid' = table_of D s sid'" for sid'
  proof (cases "streams s sid'")
    case None
    with assms(2) show ?thesis by (simp add: table_of_def)
  next
    case (Some sst)
    with False have "data_tx sst \<noteq> a" by blast
    with Some assms(2,3) show ?thesis by (simp add: table_of_def entry_view_channel)
  qed
  with free show ?thesis by blast
qed

context session_env
begin

text \<open>A read takes the oldest chunk and returns its first bytes, or it takes nothing.\<close>

lemma poll_read_taken:
  assumes "poll_read B D st ch ss n = ((st', ch', ss'), r)" "\<not> read_closed_flag st" "chunks_ok D st ch"
  obtains (takes) c where "contents D ch = c # contents D ch'" "r = Ready (Inr (take n c))"
  | (leaves) "contents D ch' = contents D ch" "r = Pending \<Longrightarrow> contents D ch = [] \<and> \<not> senders_gone D ch"
      "\<lbrakk>0 < n; r = Ready (Inr [])\<rbrakk> \<Longrightarrow> senders_gone D ch"
proof -
  have recv: thesis if "poll_read_recv B D st ch ss n = ((st', ch', ss'), r)"
    by (cases rule: poll_read_recv_cases [OF assms(2), of ch n ss])
      (use that in \<open>auto intro: takes leaves\<close>)
  show thesis
  proof (cases "is_closed ss \<or> (\<exists>c. current_chunk st = Some c \<and> min (length c) n > 0)")
    case True
    with assms(1,2) have "ch' = ch \<and> r \<noteq> Pending \<and> r \<noteq> Ready (Inr [])"
      by (auto simp: poll_read_def bytes.split_to_law Let_def split: if_splits)
    then show thesis by (intro leaves) auto
  next
    case False
    with assms(1,2) have "poll_read_recv B D st ch ss n = ((st', ch', ss'), r)"
      by (auto simp: poll_read_def Let_def split: option.splits if_splits)
    then show thesis by (rule recv)
  qed
qed

text \<open>The entry of a held stream's identifier, and the channel of the stream.\<close>

lemma held_entry:
  assumes "owners_wf D (store_of A s)" "st \<in># held_streams A s" "table_wf D (streams (inner s)) (data_chs (inner s))"
    and "data_chs i = (data_chs (inner s))[data_rx st := ch]" "streams i = streams (inner s)"
  obtains (entry) "table_of D (inner s) (stream_id st) = Some (Some (contents D (data_chs (inner s) ! data_rx st)))"
      "\<not> senders_gone D (data_chs (inner s) ! data_rx st)"
      "table_of D i = (table_of D (inner s))(stream_id st \<mapsto> channel_view D ch)"
  | (ended) "senders_gone D (data_chs (inner s) ! data_rx st)" "table_of D i = table_of D (inner s)"
      "\<And>sst. streams (inner s) (stream_id st) = Some sst \<Longrightarrow> data_tx sst \<noteq> data_rx st"
proof -
  have held: "st \<in># held (store_of A s)" using assms(2) by (simp add: store_of_def)
  from owners_wfD(1) [OF assms(1) held]
  have ok: "\<not> receivers_gone D (data_chs (inner s) ! data_rx st)"
    "senders_gone D (data_chs (inner s) ! data_rx st) \<or> fed_by_entry (store_of A s) st"
    by (simp_all add: held_ok_def store_of_def)
  from assms(3,5,4) show ?thesis
  proof (cases rule: table_of_cell)
    case (owned sid sst)
    have "stream_id st = sid" using owners_wfD(3) [OF assms(1) held, of sid sst] owned(1,2) by (simp add: store_of_def)
    with owned ok table_wfD(3) [OF assms(3) owned(1)] show ?thesis
      by (intro entry) (simp_all add: table_of_def entry_view_channel channel_view_def)
  next
    case free
    show ?thesis
    proof (cases "fed_by_entry (store_of A s) st")
      case True
      then obtain sst where sst: "streams (inner s) (stream_id st) = Some sst" "data_tx sst = data_rx st"
        by (auto simp: fed_by_entry_def store_of_def)
      have "data_rx st < length (data_chs (inner s))" using table_wfD(1) [OF assms(3) sst(1)] sst(2) by simp
      then have "table_of D i (stream_id st) = Some (channel_view D ch)"
        using sst assms(4,5) by (simp add: table_of_def entry_view_channel)
      with free have "table_of D i = (table_of D (inner s))(stream_id st \<mapsto> channel_view D ch)"
        by (metis fun_upd_triv)
      with sst ok table_wfD(3) [OF assms(3) sst(1)] show ?thesis
        by (intro entry) (simp_all add: table_of_def entry_view_channel channel_view_def)
    next
      case False
      with ok(2) free show ?thesis by (intro ended) (auto simp: fed_by_entry_def store_of_def)
    qed
  qed
qed

lemma sole_ended:
  assumes "sole (stream_id st) n (store_of A s)" "st \<in># held_streams A s"
    and "\<And>sst. streams (inner s) (stream_id st) = Some sst \<Longrightarrow> data_tx sst \<noteq> data_rx st"
  shows "1 < n \<or> table_of D (inner s) (stream_id st) = None"
proof (cases "streams (inner s) (stream_id st)")
  case (Some sst)
  with assms have "\<not> n \<le> 1" unfolding sole_def store_of_def by fastforce
  then show ?thesis by simp
qed (simp add: table_of_def)

lemma read_owner_step:
  fixes s :: "('fc, 'dc, 'ac) system"
  assumes "owners_wf D (store_of A s)" "st \<in># held_streams A s" "table_wf D (streams (inner s)) (data_chs (inner s))"
    and "sole (stream_id st) (k (stream_id st)) (store_of A s)"
    and "poll_read B D st (data_chs (inner s) ! data_rx st) (shared (inner s)) n = ((st', ch, ss), r)"
  shows "owner_step (\<lambda>sid. 1 < k sid) (Reads (stream_id st) n r) (table_of D (inner s))
           (table_of D ((inner s)\<lparr>data_chs := (data_chs (inner s))[data_rx st := ch], shared := ss\<rparr>))"
    (is "owner_step _ _ _ (table_of D ?i)")
proof -
  have "st \<in># held (store_of A s)" using assms(2) by (simp add: store_of_def)
  from owners_wfD(1) [OF assms(1) this] have ok: "\<not> read_closed_flag st"
    "chunks_ok D st (data_chs (inner s) ! data_rx st)" "\<not> receivers_gone D (data_chs (inner s) ! data_rx st)"
    by (simp_all add: held_ok_def store_of_def)
  have same: "receivers_gone D ch = receivers_gone D (data_chs (inner s) ! data_rx st)"
    using poll_read_channel [OF assms(5)] by blast
  have "data_chs ?i = (data_chs (inner s))[data_rx st := ch]" "streams ?i = streams (inner s)" by simp_all
  with assms(1-3) show ?thesis
  proof (cases rule: held_entry)
    case entry
    from assms(5) ok(1,2) show ?thesis
    proof (cases rule: poll_read_taken)
      case (takes c)
      with entry ok(3) same show ?thesis by (simp add: channel_view_def owner_takes)
    next
      case leaves
      then have "table_of D ?i = table_of D (inner s)"
        using entry(1,3) ok(3) same by (simp add: channel_view_def fun_upd_idem)
      moreover have "r = Pending \<longrightarrow> table_of D (inner s) (stream_id st) = Some (Some [])"
        using leaves(2) entry(1) by simp
      ultimately show ?thesis using leaves(3) entry(2) by (auto intro: owner_reads)
    qed
  next
    case ended
    have q: "1 < k (stream_id st) \<or> table_of D (inner s) (stream_id st) = None"
      using sole_ended [OF assms(4,2) ended(3)] by simp
    have "r \<noteq> Pending"
      by (cases rule: poll_read_taken [OF assms(5) ok(1,2)]) (use ended(1) in auto)
    with q ended(2) show ?thesis by (simp add: owner_reads)
  qed
qed

lemma drop_owner_step:
  fixes s :: "('fc, 'dc, 'ac) system"
  assumes "owners_wf D (store_of A s)" "st \<in># held_streams A s" "table_wf D (streams (inner s)) (data_chs (inner s))"
    and "sole (stream_id st) (k (stream_id st)) (store_of A s)"
    and "data_chs i = (data_chs (inner s))[data_rx st := drop_receiver D (data_chs (inner s) ! data_rx st)]"
    and "streams i = streams (inner s)"
  shows "owner_step (\<lambda>sid. 1 < k sid) (Drops (stream_id st)) (table_of D (inner s)) (table_of D i)"
  using assms(1-3,5,6)
proof (cases rule: held_entry)
  case entry
  then show ?thesis by (simp add: channel_view_def data.drop_receiver_laws owner_drops)
next
  case ended
  from sole_ended [OF assms(4,2) ended(3)] ended(2) show ?thesis by (simp add: owner_drops_ended)
qed

lemma open_send_chans:
  assumes "open_stream_send F D st s = (s', r)"
  shows "streams s' = streams s \<and>
         data_chs s' = (if (\<exists>e. r = Ready (Inl e))
           then (data_chs s)[data_rx st := drop_receiver D (data_chs s ! data_rx st)] else data_chs s)"
  using assms
  by (auto simp: open_stream_send_def data_chs_drop_stream split: prod.splits poll.splits bool.splits)

text \<open>The application.\<close>

lemma app_step_owner:
  fixes s :: "('fc, 'dc, 'ac) system"
  assumes "app_step B F D A s e s'" "session_wf D A (inner s)"
    and "owners_wf D (store_of A s)" "\<And>sid. sole sid (k sid) (store_of A s)"
    and "\<And>sid. e = Opens sid \<Longrightarrow> streams (inner s) sid = None"
  shows "owner_step (\<lambda>sid. 1 < k sid) e (table_of D (inner s)) (table_of D (inner s'))"
  using assms
proof (induction rule: app_step.induct)
  case (app_open s i st)
  have "table_of D i = (table_of D (inner s))(stream_id st \<mapsto> Some [])"
    by (rule open_stream_prepare_cases [OF app_open(2)]) (use app_open(1) in \<open>auto simp: stream_new_def\<close>)
  moreover have "table_of D (inner s) (stream_id st) = None" using app_open(5) by (simp add: table_of_def)
  ultimately show ?case by (simp add: owner_opens del: fun_upd_apply)
next
  case (app_open_fails s i e)
  show ?case
    by (rule open_stream_prepare_cases [OF app_open_fails(2)])
      (use app_open_fails(1) in
        \<open>auto simp: next_stream_id_def Let_def split: if_splits intro!: owner_same table_of_cong\<close>)
next
  case (app_opened j s i st)
  from open_send_chans [OF app_opened(2)] show ?case by (auto intro!: owner_same table_of_cong)
next
  case (app_open_refused j s i e)
  have "pending_opens s ! j \<in># held_streams A s" using app_open_refused(1) by (simp add: held_streams_def)
  moreover have "table_wf D (streams (inner s)) (data_chs (inner s))"
    using app_open_refused(3) by (simp add: session_wf_def)
  ultimately show ?case
    using drop_owner_step [where k = k, OF app_open_refused(4) _ _ app_open_refused(5)] open_send_chans [OF app_open_refused(2)]
    by auto
next
  case (app_open_cancel j s)
  have "pending_opens s ! j \<in># held_streams A s" using app_open_cancel(1) by (simp add: held_streams_def)
  moreover have "table_wf D (streams (inner s)) (data_chs (inner s))"
    using app_open_cancel(2) by (simp add: session_wf_def)
  ultimately show ?case
    using drop_owner_step [where k = k, OF app_open_cancel(3) _ _ app_open_cancel(4) data_chs_drop_stream] by simp
next
  case (app_accepted j s g first i st)
  then have "table_of D i = table_of D (inner s)"
    by (auto simp: accept_select_def split: if_splits prod.splits recv_result.splits
        intro!: table_of_cong)
  then show ?case by (simp add: owner_other)
next
  case (app_accept_ends j s g first i e)
  then have "table_of D i = table_of D (inner s)"
    by (auto simp: accept_select_def split: if_splits prod.splits recv_result.splits
        intro!: table_of_cong)
  then show ?case by (simp add: owner_other)
next
  case (app_close s i r)
  then show ?case by (auto simp: session_close_def intro!: owner_same table_of_cong)
next
  case (app_read j s st closing n st' ch ss r)
  have "st \<in> set (map fst (handles s))" using app_read(1,2) by (force simp: in_set_conv_nth)
  then have "st \<in># held_streams A s" by (simp add: held_streams_def)
  moreover have "table_wf D (streams (inner s)) (data_chs (inner s))"
    using app_read(4) by (simp add: session_wf_def)
  ultimately show ?case using read_owner_step [where k = k, OF app_read(5) _ _ app_read(6) app_read(3)] by simp
next
  case (app_drop j s)
  have "fst (handles s ! j) \<in> set (map fst (handles s))" using app_drop(1) by (force simp: in_set_conv_nth)
  then have "fst (handles s ! j) \<in># held_streams A s" by (simp add: held_streams_def)
  moreover have "table_wf D (streams (inner s)) (data_chs (inner s))"
    using app_drop(2) by (simp add: session_wf_def)
  ultimately show ?case
    using drop_owner_step [where k = k, OF app_drop(3) _ _ app_drop(4) data_chs_drop_stream] by simp
qed (auto intro!: owner_same table_of_cong)

text \<open>The tasks, when no handler waits for tokens.\<close>

lemma recv_step_table:
  assumes "recv_step F D A s e s'" "system_wf F D A s" "\<not> waits_for_tokens (recv_at s)"
    and "0 < balance s"
  shows "table_of D (inner s') =
         (case e of Arrives f \<Rightarrow> spec_frame (is_client (inner s)) f (table_of D (inner s))
          | _ \<Rightarrow> table_of D (inner s))"
  using assms
proof (induction rule: recv_step.induct)
  case (recv_arrives s g f i out)
  let ?i = "(inner s)\<lparr>shared := mark_data_received (shared (inner s))\<rparr>"
  have run: "handle_frame F D A f ?i = (i, out)"
    using recv_arrives(2) by (simp add: recv_frame_def)
  have wf: "session_wf D A ?i"
    using recv_arrives(3) by (auto simp: system_wf_def intro: session_wf_fields)
  have "0 < token_balance (shared ?i)"
    using recv_arrives(5) by (simp add: balance_def token_balance_def)
  with handle_frame_refines [OF wf _ run] have "table_of D i =
      spec_frame (is_client (inner s)) f (table_of D ?i)" by simp
  moreover have "table_of D ?i = table_of D (inner s)" by (rule table_of_cong) simp_all
  ultimately show ?case by simp
next
  case (recv_accept s st i out)
  have wf: "session_wf D A (inner s)" using recv_accept(3) by (simp add: system_wf_def)
  have "table_of D i = table_of D (inner s)"
    using syn_send_cases [OF wf recv_accept(2)]
    by (metis session_inner.select_convs session_inner.surjective session_inner.update_convs(3)
        table_of_cong)
  then show ?case by simp
next
  case (recv_data s f i out)
  then show ?case by (simp add: system_wf_def recv_ok_def)
qed (auto simp: recv_end_def intro!: table_of_cong)

lemma step_table:
  assumes "step B F D A s e s'" "run_state F D A cfg client s" "table_run client es q (table_of D (inner s))"
    and "owners_wf D (store_of A s)" "\<And>sid. sole sid (begun client sid es) (store_of A s)"
    and "\<And>sid. e = Opens sid \<Longrightarrow> streams (inner s) sid = None"
  shows "table_run client (es @ [e]) q (table_of D (inner s'))"
proof -
  have wf: "system_wf F D A s" "\<not> waits_for_tokens (recv_at s)" "0 < balance s" "session_wf D A (inner s)"
    and side: "is_client (inner s) = client"
    using assms(2) by (simp_all add: run_state_def system_wf_def)
  have other: "?thesis" if "table_of D (inner s') = table_of D (inner s)" "quiet e" "\<forall>sid. e \<noteq> Drops sid"
    using table_owner [OF assms(3) owner_other [OF that(2,3)]] that(1) by simp
  have "?thesis" if recv: "recv_step F D A s e s'"
  proof (cases "is_arrival e")
    case True
    then obtain f where "e = Arrives f" by (cases e) simp_all
    with recv_step_table [OF recv wf(1-3)] table_frame [OF assms(3)] side show ?thesis by simp
  next
    case False
    with recv_step_table [OF recv wf(1-3)] have "table_of D (inner s') = table_of D (inner s)"
      by (cases e) simp_all
    moreover have "quiet e" "\<forall>sid. e \<noteq> Drops sid" using recv False by (auto elim: recv_step.cases)
    ultimately show ?thesis by (rule other)
  qed
  moreover have "?thesis" if "send_step B F s e s' \<or> keep_step F s e s'"
    by (rule other; use that in \<open>auto simp: send_end_def send_return_def elim!: send_step.cases keep_step.cases
        intro!: table_of_cong\<close>)
  moreover have "?thesis" if "app_step B F D A s e s'"
    using table_owner [OF assms(3) app_step_owner [OF that wf(4) assms(4,5,6)]] .
  ultimately show ?thesis using assms(1) unfolding step_def by blast
qed

lemma run_table:
  fixes s :: "('fc, 'dc, 'ac) system"
  assumes "limits_ok cfg es" "run B F D A (system_new F A cfg client) es s"
    and "length (opened_ids es) < id_limit"
  shows "table_run client es Map.empty (table_of D (inner s))"
  using assms
proof (induction rule: run_new_induct)
  case start
  show ?case using table_start [of client Map.empty]
    by (simp add: table_of_def system_new_def session_new_def comp_def)
next
  case (step es s e s')
  have lim: "limits_ok cfg es" using step(2) by (rule limits_ok_prefix)
  have few: "length (opened_ids es) < id_limit" using step(7) by simp
  note ids = run_ids_distinct [OF step(2) run.run_snoc [OF step(1,3)] step(7)]
  have "streams (inner s) sid = None" if e: "e = Opens sid" for sid
  proof (rule ccontr)
    have "opened_ids (es @ [e]) = opened_ids es @ [sid]" using e by simp
    with ids have "sid \<notin> set (opened_ids es)" "\<not> peer_id client sid" by auto
    moreover assume "streams (inner s) sid \<noteq> None"
    ultimately show False using run_own [OF lim step(1), of sid] by blast
  qed
  with step_table [OF step(3,4) step(6) [OF few] run_owners [OF lim step(1)] run_sole [OF lim step(1)]]
  show ?case by blast
qed

end

section \<open>Properties\<close>

text \<open>
  C14. The running system refines the abstract table: in every run with a receive buffer and a frame channel,
  less than \<open>2 ^ 63\<close> bytes of traffic and fewer than 2147483646 streams opened, under every interleaving of
  tasks, transport, clock and application, the table goes through exactly the abstract steps of the frames
  that arrived, in their order. In between only three events change it. Opening a stream adds an empty
  queue under an identifier that has none. A read of a stream either takes the oldest chunk of that stream,
  and then returns the first bytes of this chunk, as many as fit the buffer, or leaves the table alone; then
  it waits only when the queue of its stream is empty, and reports the end to a buffer with room only when
  the table has no queue of it. Dropping a stream gives up its queue. An identifier whose stream has begun
  more than once is excepted from what is said of the end and of dropping, as an old stream of it may still
  be held. (What the reader gets of the rest of a chunk that it has taken is stated by
  \<open>reader_gets_what_arrived\<close>.)
\<close>

theorem runs_refine_abstract_table:
  fixes s :: "('fc, 'dc, 'ac) system"
  assumes "session_env B F D A" "limits_ok cfg es"
    and "run B F D A (system_new F A cfg client) es s"
    and "length (opened_ids es) < id_limit"
  shows "table_run client es Map.empty (table_of D (inner s))"
  by (rule session_env.run_table [OF assms])

text \<open>A server that accepts a stream, reads part of a chunk and drops the stream.\<close>

theorem runs_refine_abstract_table_witness:
  "\<exists>es s. demo_run (system_new list_chan list_chan config_default False) es s \<and>
     {Arrives (new_syn 1 3), Arrives (new_psh 1 3 [5, 6]), Reads 3 1 (Ready (Inr [5])), Drops 3} \<subseteq> set es \<and>
     table_run False es Map.empty (table_of list_chan (inner s)) \<and> table_of list_chan (inner s) 3 = Some None"
proof -
  obtain es s where x: "demo_execute [Do_recv, Do_arrive (new_syn 1 3), Do_accept, Do_accept_select 0,
      Do_accept_poll 0, Do_recv, Do_arrive (new_psh 1 3 [5, 6]), Do_read 0 1, Do_drop 0]
      (system_new list_chan list_chan config_default False) = Some (es, s)"
    and s: "limits_ok config_default es" "length (opened_ids es) < id_limit"
      "{Arrives (new_syn 1 3), Arrives (new_psh 1 3 [5, 6]), Reads 3 1 (Ready (Inr [5])), Drops 3} \<subseteq> set es"
      "table_of list_chan (inner s) 3 = Some None"
    by (simp add: exec_simps limits_ok_def traffic_def id_limit_def opened_ids_def drop_stream_def stream_drop_def
        drop_body_def table_of_def entry_view_def)
  note r = execute_run [OF x]
  from runs_refine_abstract_table [OF lse.session_env_axioms s(1) r s(2)] r s(3,4) show ?thesis by blast
qed

end
