(* ===== verification/Closing.thy ===== *)
theory Closing
  imports Stores
begin

text \<open>
  What the flags of a session and of its streams (\<open>src/src/session.rs\<close>, \<open>src/src/stream.rs\<close>) say over whole
  runs: a closed session does nothing new, a receive task may be kept from noticing it, and no stream ever
  counts as closed for reading.
\<close>

section \<open>Events of a closed session\<close>

text \<open>
  What may still happen on a closed session: no identifier is taken, every read fails, and every write
  accepts nothing.
\<close>

fun refused :: "event \<Rightarrow> bool" where
  "refused (Opens sid) \<longleftrightarrow> False"
| "refused (Reads sid n r) \<longleftrightarrow> r = Ready (Inl (io_error_new BrokenPipe ''Session is closed''))"
| "refused (Writes sid bs) \<longleftrightarrow> bs = []"
| "refused _ \<longleftrightarrow> True"

context session_env
begin

lemma app_step_refused:
  assumes "app_step B F D A s e s'" "closed (shared (inner s))" "owners_wf D (store_of A s)"
  shows "refused e"
  using assms
proof (induction rule: app_step.induct)
  case (app_open s i st)
  then show ?case by (simp add: open_stream_prepare_def is_closed_def)
next
  case (app_read k s st closing n st' ch ss r)
  have "st \<in> set (map fst (handles s))" using app_read(1,2) by (force simp: in_set_conv_nth)
  then have "st \<in># held (store_of A s)" by (simp add: store_of_def held_streams_def)
  from owners_wfD(1) [OF app_read(5) this] have "\<not> read_closed_flag st" by (simp add: held_ok_def)
  with app_read(3,4) show ?case by (auto simp: poll_read_def is_closed_def)
next
  case (app_write k s st closing buf fc r)
  then show ?case by (auto simp: poll_write_def is_closed_def)
qed simp_all

lemma step_refused:
  assumes "step B F D A s e s'" "closed (shared (inner s))" "owners_wf D (store_of A s)"
  shows "refused e"
  using assms app_step_refused unfolding step_def
  by (elim disjE) (auto elim: recv_step.cases send_step.cases keep_step.cases)

lemma run_refused:
  fixes s :: "('fc, 'dc, 'ac) system"
  assumes "run B F D A s es' s'" "run B F D A (system_new F A cfg client) es s"
    and "limits_ok cfg (es @ es')" "closed (shared (inner s))"
  shows "closed (shared (inner s')) \<and> list_all refused es'"
  using assms
proof (induction rule: run.induct)
  case (run_snoc s es' s' e s'')
  have lim: "limits_ok cfg (es @ es')" using run_snoc.prems(2) by (metis append_assoc limits_ok_prefix)
  with run_snoc have IH: "closed (shared (inner s'))" "list_all refused es'" by blast+
  have r: "run B F D A (system_new F A cfg client) (es @ es') s'"
    using run_append [OF run_snoc.prems(1) run_snoc(1)] .
  have "closed (shared (inner s''))"
    using step_wf [OF run_snoc(2)] run_state [OF lim r] IH(1)
    by (auto simp: run_state_def advances_def shared_later_def)
  with IH step_refused [OF run_snoc(2) IH(1) run_owners [OF lim r]] show ?case by simp
qed simp

end

section \<open>Properties\<close>

text \<open>
  C37. Closing is final: once a session is closed, by a call of \<open>close\<close> or by one of its tasks, it is closed
  in every continuation of the run (within the limits on traffic: a receive buffer, a frame channel and
  less than \<open>2 ^ 63\<close> bytes). In the whole continuation no call of \<open>open_stream\<close> takes an
  identifier, every read of a stream fails with the error of a closed session, also when received data is
  unread, and no write accepts a byte. Closing again changes nothing, and a call of \<open>open_stream\<close> or
  \<open>accept_stream\<close> that begins then returns \<open>SessionClosed\<close>. (A call that was suspended before the close
  may still hand out its stream.)
\<close>

lemma closing_is_final:
  fixes s :: "('fc, 'dc, 'ac) system"
  assumes "session_env B F D A" "limits_ok cfg (es @ es')"
    and "run B F D A (system_new F A cfg client) es s" "session_is_closed (inner s)"
    and "run B F D A s es' s'"
  shows "session_is_closed (inner s') \<and> session_close (inner s') = (inner s', Inr ()) \<and>
         (\<forall>sid. Opens sid \<notin> set es') \<and>
         (\<forall>sid n r. Reads sid n r \<in> set es' \<longrightarrow>
            r = Ready (Inl (io_error_new BrokenPipe ''Session is closed''))) \<and>
         (\<forall>sid bs. Writes sid bs \<in> set es' \<longrightarrow> bs = []) \<and>
         open_stream F D (inner s') = (inner s', Ready (Inl SessionClosed)) \<and>
         accept_stream A woken first (inner s') = (inner s', Ready (Inl SessionClosed))"
proof -
  have "closed (shared (inner s))" using assms(4) by (simp add: session_is_closed_def is_closed_def)
  from session_env.run_refused [OF assms(1,5,3,2) this]
  have s': "closed (shared (inner s'))" "list_all refused es'" by simp_all
  have "refused e" if "e \<in> set es'" for e using s'(2) that by (simp add: list_all_iff)
  then have "(\<forall>sid. Opens sid \<notin> set es') \<and>
      (\<forall>sid n r. Reads sid n r \<in> set es' \<longrightarrow> r = Ready (Inl (io_error_new BrokenPipe ''Session is closed''))) \<and>
      (\<forall>sid bs. Writes sid bs \<in> set es' \<longrightarrow> bs = [])"
    by fastforce
  with s'(1) show ?thesis
    by (simp add: session_is_closed_def is_closed_def session_close_def close_def open_stream_def
        open_stream_prepare_def accept_stream_def)
qed

text \<open>A stream with unread data on a session that is closed, and what its owner gets afterwards.\<close>

lemma closing_is_final_witness:
  "\<exists>es s es' s'. demo_run (demo config_default) es s \<and> Closes \<in> set es \<and>
     contents list_chan (data_chs (inner s) ! 0) = [[5]] \<and> demo_run s es' s' \<and>
     {Reads 1 4 (Ready (Inl (io_error_new BrokenPipe ''Session is closed''))), Writes 1 []} \<subseteq> set es' \<and>
     session_is_closed (inner s')"
proof -
  obtain es s where x: "demo_execute [Do_open, Do_open_send 0, Do_recv, Do_arrive (new_psh 1 1 [5]), Do_close]
      (demo config_default) = Some (es, s)"
    and s: "Closes \<in> set es" "contents list_chan (data_chs (inner s) ! 0) = [[5]]" "session_is_closed (inner s)"
      "\<exists>es' s'. demo_execute [Do_read 0 4, Do_write 0 [7]] s = Some (es', s') \<and>
         {Reads 1 4 (Ready (Inl (io_error_new BrokenPipe ''Session is closed''))), Writes 1 []} \<subseteq> set es' \<and>
         limits_ok config_default (es @ es')"
    by (simp add: exec_simps limits_ok_def traffic_def session_is_closed_def session_close_def)
  then obtain es' s' where y: "demo_execute [Do_read 0 4, Do_write 0 [7]] s = Some (es', s')"
    "{Reads 1 4 (Ready (Inl (io_error_new BrokenPipe ''Session is closed''))), Writes 1 []} \<subseteq> set es'"
    "limits_ok config_default (es @ es')" by blast
  from closing_is_final [OF lse.session_env_axioms y(3) execute_run [OF x, unfolded demo_def] s(3) execute_run [OF y(1)]]
  have "session_is_closed (inner s')" by blast
  with execute_run [OF x] s(1,2) execute_run [OF y(1)] y(2) show ?thesis by blast
qed

text \<open>
  C38. No stream ever counts as closed for reading: in every state of every run within the limits on traffic (a receive
  buffer, a frame channel and less than \<open>2 ^ 63\<close> bytes), \<open>is_read_closed\<close> and \<open>is_closed\<close> report false for every stream that the application, a suspended call of \<open>open_stream\<close>, the
  accept queue or the receive task holds, also after the peer's FIN, after a read has reported the end
  and after the stream's own close.
\<close>

lemma read_closed_never_reported:
  fixes s :: "('fc, 'dc, 'ac) system"
  assumes "session_env B F D A" "limits_ok cfg es"
    and "run B F D A (system_new F A cfg client) es s" "st \<in># held_streams A s"
  shows "\<not> is_read_closed st \<and> \<not> stream_is_closed st"
proof -
  have "st \<in># held (store_of A s)" using assms(4) by (simp add: store_of_def)
  from owners_wfD(1) [OF session_env.run_owners [OF assms(1-3)] this]
  show ?thesis by (simp add: held_ok_def is_read_closed_def stream_is_closed_def)
qed

lemma read_closed_never_reported_witness:
  "\<exists>es s st. demo_run (demo config_default) es s \<and> handles s = [(st, False)] \<and>
     {Arrives (new_fin 1 1), Reads 1 1 (Ready (Inr [5])), Reads 1 1 (Ready (Inr [6])), Reads 1 4 (Ready (Inr []))}
       \<subseteq> set es \<and>
     is_write_closed st \<and> \<not> is_read_closed st \<and> \<not> stream_is_closed st"
proof -
  obtain es s st where x: "demo_execute [Do_open, Do_open_send 0, Do_recv, Do_arrive (new_psh 1 1 [5, 6]), Do_recv,
      Do_arrive (new_fin 1 1), Do_read 0 1, Do_read 0 1, Do_read 0 4, Do_op 0 Op_close] (demo config_default) = Some (es, s)"
    and s: "limits_ok config_default es" "handles s = [(st, False)]" "is_write_closed st"
      "{Arrives (new_fin 1 1), Reads 1 1 (Ready (Inr [5])), Reads 1 1 (Ready (Inr [6])), Reads 1 4 (Ready (Inr []))}
         \<subseteq> set es"
    by (simp add: exec_simps limits_ok_def traffic_def is_write_closed_def stream_close_resume_def)
  have "st \<in># held_streams list_chan s" using s(2) by (simp add: held_streams_def)
  from read_closed_never_reported [OF lse.session_env_axioms s(1) execute_run [OF x, unfolded demo_def] this]
    execute_run [OF x] s(2-4) show ?thesis by blast
qed

text \<open>
  C40. A full accept queue keeps the receive task from ending: when a session is closed while its receive
  task waits to hand over a new stream, the queue has no room and no call of \<open>accept_stream\<close> is under
  way, the task waits there in every continuation, because a closed session accepts nothing, whatever
  the application, the transport and the other tasks do.
\<close>

lemma receive_task_stuck_on_accept_queue:
  fixes s :: "('fc, 'dc, 'ac) system"
  assumes "session_env B F D A" "0 < max_receive_channel_buffer_size cfg"
    and "run B F D A (system_new F A cfg client) es s" "session_is_closed (inner s)"
    and "recv_at s = R_accept st" "\<not> has_room A (accept_ch (inner s))" "accepting s = []"
    and "run B F D A s es' s'"
  shows "recv_at s' = R_accept st \<and> (\<forall>f. Arrives f \<notin> set es')"
proof -
  have wf: "system_wf F D A s"
    using session_env.run_wf [OF assms(1,3) session_env.system_wf_new [OF assms(1,2)]] by (simp add: advances_def)
  have "closed (shared (inner s))" using assms(4) by (simp add: session_is_closed_def is_closed_def)
  from session_env.blocked_accept_run [OF assms(1,8) wf this assms(5-7)] show ?thesis by blast
qed

text \<open>Sixteen streams wait in the queue and the seventeenth in the receive task.\<close>

lemma receive_task_stuck_on_accept_queue_witness:
  "\<exists>es s s'. demo_run (demo config_default) es s \<and> session_is_closed (inner s) \<and> \<not> has_room list_chan (accept_ch (inner s)) \<and>
     demo_run s [Internal, Internal, Internal] s' \<and> keep_at s' = K_select 1 \<and>
     recv_at s' = R_accept (stream_new 34 16)"
proof -
  obtain es s where x: "demo_execute (concat (map (\<lambda>sid. [Do_recv, Do_arrive (new_syn 1 sid)])
        [2, 4, 6, 8, 10, 12, 14, 16, 18, 20, 22, 24, 26, 28, 30, 32, 34]) @ [Do_close]) (demo config_default) = Some (es, s)"
    and s: "session_is_closed (inner s)" "recv_at s = R_accept (stream_new 34 16)"
      "\<not> has_room list_chan (accept_ch (inner s))" "accepting s = []"
      "\<exists>s'. demo_execute [Do_keep, Do_send, Do_recv] s = Some ([Internal, Internal, Internal], s') \<and> keep_at s' = K_select 1"
    by (simp add: exec_simps session_is_closed_def session_close_def keep_start_def stream_new_def)
  then obtain s' where y: "demo_execute [Do_keep, Do_send, Do_recv] s = Some ([Internal, Internal, Internal], s')"
    "keep_at s' = K_select 1" by blast
  have "0 < max_receive_channel_buffer_size config_default" by (simp add: config_default_def)
  from receive_task_stuck_on_accept_queue [OF lse.session_env_axioms this execute_run [OF x, unfolded demo_def] s(1-4)
      execute_run [OF y(1)]]
    execute_run [OF x] execute_run [OF y(1)] s(1,3) y(2) show ?thesis by blast
qed

end
