(* ===== verification/Outboxes.thy ===== *)
theory Outboxes
  imports Histories
begin

text \<open>
  What a running system sends: the log of the frames that its streams and tasks put into the frame
  channel, how far the send task has got with it, and, for one stream, which frames it holds. A stream
  that was opened here begins with its SYN, goes on with what its owner wrote, and ends with a FIN, which
  nothing follows.
\<close>

section \<open>The log of the frame channel\<close>

text \<open>
  The frames that a step adds at the end of the frame channel; a step of the send task, which always
  moves its control point and only takes frames out, adds none.
\<close>

definition added ::
    "('fc, frame) flume_api \<Rightarrow> ('fc, 'dc, 'ac) system \<Rightarrow> ('fc, 'dc, 'ac) system \<Rightarrow> frame list" where
  "added F s s' =
     (if send_at s' = send_at s then emitted F (frame_ch (inner s)) (frame_ch (inner s')) else [])"

inductive logged_run ::
    "bytes_api \<Rightarrow> ('fc, frame) flume_api \<Rightarrow> ('dc, bytes) flume_api \<Rightarrow> ('ac, stream) flume_api
     \<Rightarrow> ('fc, 'dc, 'ac) system \<Rightarrow> event list \<Rightarrow> frame list \<Rightarrow> ('fc, 'dc, 'ac) system \<Rightarrow> bool"
  for B :: bytes_api and F :: "('fc, frame) flume_api" and D :: "('dc, bytes) flume_api"
    and A :: "('ac, stream) flume_api" where
  logged_nil: "logged_run B F D A s [] [] s"
| logged_snoc:
    "\<lbrakk>logged_run B F D A s es fs s'; step B F D A s' e s''\<rbrakk>
     \<Longrightarrow> logged_run B F D A s (es @ [e])
           (fs @ added F s' s'') s''"

lemma logged_run_run: "logged_run B F D A s es fs s' \<Longrightarrow> run B F D A s es s'"
  by (induction rule: logged_run.induct) (auto intro: run.intros)

lemma run_logged: "run B F D A s es s' \<Longrightarrow> \<exists>fs. logged_run B F D A s es fs s'"
  by (induction rule: run.induct) (auto intro: logged_run.intros)

fun departed_event :: "event \<Rightarrow> frame list" where
  "departed_event (Departs f) = [f]"
| "departed_event _ = []"

definition departed :: "event list \<Rightarrow> frame list" where
  "departed es = concat (map departed_event es)"

fun written_event :: "u32 \<Rightarrow> event \<Rightarrow> bytes" where
  "written_event sid (Writes sid' bs) = (if sid' = sid then bs else [])"
| "written_event sid _ = []"

definition bytes_written :: "u32 \<Rightarrow> event list \<Rightarrow> bytes" where
  "bytes_written sid es = concat (map (written_event sid) es)"

lemma outbox_snoc [simp]:
  "departed (es @ [e]) = departed es @ departed_event e"
  "bytes_written sid (es @ [e]) = bytes_written sid es @ written_event sid e"
  by (simp_all add: departed_def bytes_written_def)

lemma outbox_Nil [simp]: "departed [] = []" "bytes_written sid [] = []"
  by (simp_all add: departed_def bytes_written_def)

text \<open>The frames that have been put into the channel and are not written yet.\<close>

definition queued :: "('fc, frame) flume_api \<Rightarrow> ('fc, 'dc, 'ac) system \<Rightarrow> frame list" where
  "queued F s =
     (case send_at s of S_sending f \<Rightarrow> [f] | _ \<Rightarrow> []) @ contents F (frame_ch (inner s))"

section \<open>Who may send for a stream\<close>

text \<open>
  The parts in which a stream can be held: by a call of \<open>open_stream\<close> whose SYN is not sent yet, on its
  way to \<open>accept_stream\<close>, or by the application; with how far its writing side has got (a stream whose
  \<open>close\<close> is suspended is closed for writing but may still send its FIN).
\<close>

datatype phase = Writing | Finishing | Finished

datatype part = Opening u32 phase | Waiting u32 phase | Owning u32 phase

fun part_id :: "part \<Rightarrow> u32" where
  "part_id (Opening sid p) = sid"
| "part_id (Waiting sid p) = sid"
| "part_id (Owning sid p) = sid"

fun phase_of :: "stream \<times> bool \<Rightarrow> phase" where
  "phase_of (st, closing) =
     (if \<not> write_closed_flag st then Writing else if closing then Finishing else Finished)"

definition owning :: "stream \<times> bool \<Rightarrow> part" where
  "owning h = Owning (stream_id (fst h)) (phase_of h)"

definition parts ::
    "('ac, stream) flume_api \<Rightarrow> ('fc, 'dc, 'ac) system \<Rightarrow> part multiset" where
  "parts A s =
     image_mset (\<lambda>st. Waiting (stream_id st) (phase_of (st, False)))
       (mset (recv_holds (recv_at s)) + mset (contents A (accept_ch (inner s)))) +
     image_mset (\<lambda>st. Opening (stream_id st) (phase_of (st, False))) (mset (pending_opens s)) +
     image_mset owning (mset (handles s))"

lemma part_ids: "image_mset part_id (parts A s) = image_mset stream_id (held_streams A s)"
  by (simp add: parts_def held_streams_def multiset.map_comp comp_def owning_def)

text \<open>What a step does to the parts, and what it sends.\<close>

inductive part_step ::
    "bool \<Rightarrow> u8 \<Rightarrow> event \<Rightarrow> frame list \<Rightarrow> part multiset \<Rightarrow> part multiset \<Rightarrow> bool"
  for client :: bool and v :: u8 where
  part_none:
    "\<lbrakk>set fs \<subseteq> {new_nop v}; \<forall>sid. written_event sid e = []; \<forall>sid. e \<noteq> Opens sid\<rbrakk>
     \<Longrightarrow> part_step client v e fs W W"
| part_open: "part_step client v (Opens sid) [] W (add_mset (Opening sid Writing) W)"
| part_opened:
    "Opening sid p \<in># W
     \<Longrightarrow> part_step client v App [new_syn v sid] W (add_mset (Owning sid p) (W - {#Opening sid p#}))"
| part_unopened:
    "\<lbrakk>Opening sid p \<in># W; fs = [] \<or> fs = [new_fin 1 sid] \<and> p = Writing\<rbrakk>
     \<Longrightarrow> part_step client v (Drops sid) fs W (W - {#Opening sid p#})"
| part_comes:
    "begins client sid (Arrives f)
     \<Longrightarrow> part_step client v (Arrives f) [] W (add_mset (Waiting sid Writing) W)"
| part_accepted:
    "Waiting sid p \<in># W
     \<Longrightarrow> part_step client v (Accepts sid) [] W (add_mset (Owning sid p) (W - {#Waiting sid p#}))"
| part_writes:
    "\<lbrakk>Owning sid p \<in># W; p' = (if p = Writing then Writing else Finished);
      bs = [] \<and> fs = [] \<or> fs = [new_psh 1 sid bs] \<and> p = Writing\<rbrakk>
     \<Longrightarrow> part_step client v (Writes sid bs) fs W (add_mset (Owning sid p') (W - {#Owning sid p#}))"
| part_moves:
    "\<lbrakk>Owning sid p \<in># W; quiet e \<or> (\<exists>n r. e = Reads sid n r); \<forall>sid. written_event sid e = [];
      fs = [] \<and> (p = Finished \<longrightarrow> p' = Finished) \<and> (p = Finishing \<longrightarrow> p' \<noteq> Writing) \<or>
      fs = [new_fin 1 sid] \<and> p \<noteq> Finished \<and> p' = Finished\<rbrakk>
     \<Longrightarrow> part_step client v e fs W (add_mset (Owning sid p') (W - {#Owning sid p#}))"
| part_dropped:
    "\<lbrakk>Owning sid p \<in># W; fs = [] \<or> fs = [new_fin 1 sid] \<and> p = Writing\<rbrakk>
     \<Longrightarrow> part_step client v (Drops sid) fs W (W - {#Owning sid p#})"


section \<open>The frames of one stream\<close>

text \<open>
  \<open>open_line\<close>: the SYN, if the stream was opened here, and data frames that carry what was written;
  \<open>ended_line\<close>: the same and a FIN. \<open>line\<close> is what the frames of a stream are in each part, and \<open>said\<close>
  everything that is known of them: nothing before the stream begins, and when nobody holds it any more
  a line, or, if the call that should have opened it was cancelled, at most a FIN.
\<close>

definition open_line :: "u8 \<Rightarrow> u32 \<Rightarrow> bool \<Rightarrow> bytes \<Rightarrow> frame list \<Rightarrow> bool" where
  "open_line v sid here w fs \<longleftrightarrow>
     (\<exists>ps. fs = (if here then [new_syn v sid] else []) @ map (new_psh 1 sid) ps \<and> concat ps = w)"

definition ended_line :: "u8 \<Rightarrow> u32 \<Rightarrow> bool \<Rightarrow> bytes \<Rightarrow> frame list \<Rightarrow> bool" where
  "ended_line v sid here w fs \<longleftrightarrow> (\<exists>gs. fs = gs @ [new_fin 1 sid] \<and> open_line v sid here w gs)"

fun line :: "u8 \<Rightarrow> bool \<Rightarrow> bytes \<Rightarrow> frame list \<Rightarrow> part \<Rightarrow> bool" where
  "line v here w fs (Opening sid p) \<longleftrightarrow> p = Writing \<and> here \<and> w = [] \<and> fs = []"
| "line v here w fs (Waiting sid p) \<longleftrightarrow> p = Writing \<and> \<not> here \<and> w = [] \<and> fs = []"
| "line v here w fs (Owning sid p) \<longleftrightarrow>
     open_line v sid here w fs \<or> p = Finished \<and> ended_line v sid here w fs"

definition said ::
    "u8 \<Rightarrow> u32 \<Rightarrow> bool \<Rightarrow> bool \<Rightarrow> bytes \<Rightarrow> frame list \<Rightarrow> part multiset \<Rightarrow> bool" where
  "said v sid here bg w fs R \<longleftrightarrow>
     (\<not> bg \<longrightarrow> \<not> here \<and> w = [] \<and> fs = [] \<and> R = {#}) \<and>
     (R = {#} \<and>
      (open_line v sid here w fs \<or> ended_line v sid here w fs \<or>
       w = [] \<and> (fs = [] \<or> fs = [new_fin 1 sid])) \<or>
      (\<exists>r. R = {#r#} \<and> part_id r = sid \<and> line v here w fs r))"

lemma open_line_psh: "open_line v sid here w fs \<Longrightarrow> open_line v sid here (w @ d) (fs @ [new_psh 1 sid d])"
  unfolding open_line_def
proof (elim exE conjE)
  fix ps assume "fs = (if here then [new_syn v sid] else []) @ map (new_psh 1 sid) ps" "concat ps = w"
  then show "\<exists>ps. fs @ [new_psh 1 sid d] =
      (if here then [new_syn v sid] else []) @ map (new_psh 1 sid) ps \<and> concat ps = w @ d"
    by (intro exI [of _ "ps @ [d]"]) simp
qed

lemma open_line_syn: "open_line v sid True [] [new_syn v sid]"
  by (auto simp: open_line_def intro: exI [of _ "[]"])

lemma open_line_Nil: "open_line v sid False [] []"
  by (auto simp: open_line_def intro: exI [of _ "[]"])

lemma ended_lineI: "open_line v sid here w fs \<Longrightarrow> ended_line v sid here w (fs @ [new_fin 1 sid])"
  by (auto simp: ended_line_def)

lemma said_partE:
  assumes "said v sid here bg w fs (filter_mset (\<lambda>r. part_id r = sid) W)" "r \<in># W" "part_id r = sid"
  obtains "filter_mset (\<lambda>r. part_id r = sid) W = {#r#}" "line v here w fs r" "bg"
proof -
  have r: "r \<in># filter_mset (\<lambda>r. part_id r = sid) W" using assms(2,3) by simp
  then have "filter_mset (\<lambda>r. part_id r = sid) W \<noteq> {#}" by (metis empty_iff set_mset_empty)
  with assms(1) obtain r' where "filter_mset (\<lambda>r. part_id r = sid) W = {#r'#}" "line v here w fs r'" bg
    unfolding said_def by blast
  with r that show ?thesis by (metis set_mset_single singletonD)
qed

lemma filter_part_remove:
  assumes "r \<in># W"
  shows "filter_mset (\<lambda>r. part_id r = sid) (W - {#r#}) =
         (if part_id r = sid then filter_mset (\<lambda>r. part_id r = sid) W - {#r#}
          else filter_mset (\<lambda>r. part_id r = sid) W)"
  using assms by (auto simp: filter_diff_mset)


text \<open>A part that stays or moves, and one that goes away.\<close>

lemma said_moves:
  assumes "said v sid here bg w fs (filter_mset (\<lambda>r. part_id r = sid) W)" "r \<in># W"
    and "part_id r' = part_id r"
    and "\<lbrakk>part_id r = sid; line v here w fs r\<rbrakk> \<Longrightarrow> line v here (w @ d) (fs @ gs) r'"
    and "part_id r \<noteq> sid \<Longrightarrow> d = [] \<and> gs = []"
  shows "said v sid here bg (w @ d) (fs @ gs)
           (filter_mset (\<lambda>r. part_id r = sid) (add_mset r' (W - {#r#})))"
proof (cases "part_id r = sid")
  case True
  with said_partE [OF assms(1,2)]
  have one: "filter_mset (\<lambda>r. part_id r = sid) W = {#r#}" "line v here w fs r" bg by metis+
  have "filter_mset (\<lambda>r. part_id r = sid) (add_mset r' (W - {#r#})) = {#r'#}"
    using one(1) True assms(2,3) by (simp add: filter_part_remove)
  with assms(3,4) one True show ?thesis by (simp add: said_def)
next
  case False
  with assms show ?thesis by (simp add: filter_part_remove)
qed

lemma said_leaves:
  assumes "said v sid here bg w fs (filter_mset (\<lambda>r. part_id r = sid) W)" "r \<in># W"
    and "\<lbrakk>part_id r = sid; line v here w fs r\<rbrakk>
         \<Longrightarrow> open_line v sid here w (fs @ gs) \<or> ended_line v sid here w (fs @ gs) \<or>
             w = [] \<and> (fs @ gs = [] \<or> fs @ gs = [new_fin 1 sid])"
    and "part_id r \<noteq> sid \<Longrightarrow> gs = []"
  shows "said v sid here bg w (fs @ gs) (filter_mset (\<lambda>r. part_id r = sid) (W - {#r#}))"
proof (cases "part_id r = sid")
  case True
  with said_partE [OF assms(1,2)]
  have one: "filter_mset (\<lambda>r. part_id r = sid) W = {#r#}" "line v here w fs r" bg by metis+
  have "filter_mset (\<lambda>r. part_id r = sid) (W - {#r#}) = {#}"
    using one(1) True assms(2) by (simp add: filter_part_remove)
  with assms(3) one True show ?thesis by (simp add: said_def)
next
  case False
  with assms show ?thesis by (simp add: filter_part_remove)
qed

lemma of_stream_append [simp]: "of_stream sid (fs @ gs) = of_stream sid fs @ of_stream sid gs"
  by (simp add: of_stream_def)

lemma of_stream_other: "\<forall>f \<in> set fs. frame_stream_id f \<noteq> sid \<Longrightarrow> of_stream sid fs = []"
  by (auto simp: of_stream_def filter_empty_conv)

lemma said_quiet:
  "\<lbrakk>said v sid here bg w fs R; bg \<longrightarrow> bg'\<rbrakk> \<Longrightarrow> said v sid here bg' w fs R"
  by (cases bg) (auto simp: said_def open_line_Nil)

lemma said_step:
  assumes "part_step c v e gs W W'" "sid \<noteq> 0"
    and "said v sid here (bg \<noteq> 0) w fs (filter_mset (\<lambda>r. part_id r = sid) W)"
    and "begins c sid e \<Longrightarrow> bg = 0"
  shows "said v sid (here \<or> e = Opens sid) (bg + (if begins c sid e then 1 else 0) \<noteq> (0 :: nat))
           (w @ written_event sid e) (fs @ of_stream sid gs)
           (filter_mset (\<lambda>r. part_id r = sid) W')"
  using assms
proof (induction rule: part_step.induct)
  case (part_none gs e W)
  from part_none(1) have "\<forall>f \<in> set gs. frame_stream_id f = 0" by (auto simp: new_nop_def frame_new_def)
  with part_none(4) have "of_stream sid gs = []" by (intro of_stream_other) auto
  with part_none show ?case by (auto intro: said_quiet)
next
  case (part_open sid' W)
  then show ?case
    by (cases "sid' = sid") (auto simp: said_def)
next
  case (part_opened sid' p W)
  have "said v sid here (bg \<noteq> 0) (w @ []) (fs @ of_stream sid [new_syn v sid'])
      (filter_mset (\<lambda>r. part_id r = sid) (add_mset (Owning sid' p) (W - {#Opening sid' p#})))"
    by (rule said_moves [OF part_opened(3,1)])
      (auto simp: frame_new_defs open_line_syn [unfolded frame_new_defs])
  then show ?case by simp
next
  case (part_unopened sid' p W gs)
  have "said v sid here (bg \<noteq> 0) w (fs @ of_stream sid gs)
      (filter_mset (\<lambda>r. part_id r = sid) (W - {#Opening sid' p#}))"
    by (rule said_leaves [OF part_unopened(4,1)]) (use part_unopened(2) in \<open>auto simp: frame_new_defs\<close>)
  then show ?case by simp
next
  case (part_comes sid' f W)
  then show ?case by (cases "sid' = sid") (auto simp: said_def)
next
  case (part_accepted sid' p W)
  have "said v sid here (bg \<noteq> 0) (w @ []) (fs @ [])
      (filter_mset (\<lambda>r. part_id r = sid) (add_mset (Owning sid' p) (W - {#Waiting sid' p#})))"
    by (rule said_moves [OF part_accepted(3,1)]) (auto simp: open_line_Nil)
  then show ?case by simp
next
  case (part_writes sid' p W p' bs gs)
  have "said v sid here (bg \<noteq> 0) (w @ written_event sid (Writes sid' bs)) (fs @ of_stream sid gs)
      (filter_mset (\<lambda>r. part_id r = sid) (add_mset (Owning sid' p') (W - {#Owning sid' p#})))"
    by (rule said_moves [OF part_writes(5,1)])
      (use part_writes(2,3) open_line_psh [of v sid here w fs bs] in \<open>auto simp: frame_new_defs\<close>)
  then show ?case by simp
next
  case (part_moves sid' p W e gs p')
  have "said v sid here (bg \<noteq> 0) (w @ []) (fs @ of_stream sid gs)
      (filter_mset (\<lambda>r. part_id r = sid) (add_mset (Owning sid' p') (W - {#Owning sid' p#})))"
    by (rule said_moves [OF part_moves(6,1)])
      (use part_moves(4) ended_lineI [of v sid here w fs] in \<open>auto simp: frame_new_defs\<close>)
  moreover have "e \<noteq> Opens sid" "\<not> begins c sid e" "written_event sid e = []"
    using part_moves(2,3) by (cases e; auto)+
  ultimately show ?case by simp
next
  case (part_dropped sid' p W gs)
  have "said v sid here (bg \<noteq> 0) w (fs @ of_stream sid gs)
      (filter_mset (\<lambda>r. part_id r = sid) (W - {#Owning sid' p#}))"
    by (rule said_leaves [OF part_dropped(4,1)])
      (use part_dropped(2) ended_lineI [of v sid here w fs] in \<open>auto simp: frame_new_defs\<close>)
  then show ?case by simp
qed


section \<open>What the steps of the system do to the parts\<close>

lemma image_mset_remove_nth:
  "k < length xs \<Longrightarrow> image_mset g (mset (remove_nth k xs)) = image_mset g (mset xs) - {#g (xs ! k)#}"
  by (simp add: mset_remove_nth image_mset_Diff)

lemma part_noneI:
  "\<lbrakk>gs = []; W' = W; \<And>sid. written_event sid e = []; \<And>sid. e \<noteq> Opens sid\<rbrakk>
   \<Longrightarrow> part_step c v e gs W W'"
  by (simp add: part_none)

text \<open>The application's handles, one of which changes or goes.\<close>

lemma owning_eq: "owning (st, c) = Owning (stream_id st) (phase_of (st, c))"
  by (simp add: owning_def)

lemma owning_mem: "k < length (handles s) \<Longrightarrow> owning (handles s ! k) \<in># parts A s"
  by (simp add: parts_def)

lemma parts_less_handle:
  assumes "k < length (handles s)"
  shows "parts A s - {#owning (handles s ! k)#} =
     image_mset (\<lambda>st. Waiting (stream_id st) (phase_of (st, False)))
       (mset (recv_holds (recv_at s)) + mset (contents A (accept_ch (inner s)))) +
     image_mset (\<lambda>st. Opening (stream_id st) (phase_of (st, False))) (mset (pending_opens s)) +
     (image_mset owning (mset (handles s)) - {#owning (handles s ! k)#})"
proof -
  have "{#owning (handles s ! k)#} \<subseteq># image_mset owning (mset (handles s))"
    using assms by simp
  from multiset_diff_union_assoc [OF this] show ?thesis
    by (simp add: parts_def)
qed

lemma parts_update:
  assumes "k < length (handles s)" "handles s' = (handles s)[k := h]" "recv_at s' = recv_at s"
    and "accept_ch (inner s') = accept_ch (inner s)" "pending_opens s' = pending_opens s"
  shows "parts A s' = add_mset (owning h) (parts A s - {#owning (handles s ! k)#})"
  unfolding parts_less_handle [OF assms(1)]
  using assms by (simp add: parts_def mset_update image_mset_Diff)

lemma parts_remove:
  assumes "k < length (handles s)" "handles s' = remove_nth k (handles s)" "recv_at s' = recv_at s"
    and "accept_ch (inner s') = accept_ch (inner s)" "pending_opens s' = pending_opens s"
  shows "parts A s' = parts A s - {#owning (handles s ! k)#}"
  unfolding parts_less_handle [OF assms(1)]
  using assms by (simp add: parts_def mset_remove_nth image_mset_Diff)

context session_env
begin

lemma emitted_fin:
  assumes "capacity F fc \<noteq> Some 0" "apply_op F cfg (st, closing) (op, fc, ss) = ((st', closing'), fc')"
    and "op \<in> {Op_shutdown, Op_close, Op_close_again}" "closing \<longrightarrow> write_closed_flag st"
    and "p = phase_of (st, closing)" "p' = phase_of (st', closing')"
  shows "emitted F fc fc' = [] \<and> (p = Finished \<longrightarrow> p' = Finished) \<and> (p = Finishing \<longrightarrow> p' \<noteq> Writing) \<or>
         emitted F fc fc' = [new_fin 1 (stream_id st)] \<and> p \<noteq> Finished \<and> p' = Finished"
  by (cases rule: frames.send_cases [OF assms(1), of "new_fin 1 (stream_id st)"]; cases op)
    (use assms in \<open>auto simp: poll_shutdown_def stream_close_def stream_close_resume_def
      send_async_def emitted_def Let_def split: if_splits\<close>)

lemma emitted_write:
  assumes "capacity F fc \<noteq> Some 0" "poll_write F cfg st fc ss buf = (fc', r)"
  shows "accepted_bytes buf r = [] \<and> emitted F fc fc' = [] \<or>
         emitted F fc fc' = [new_psh 1 (stream_id st) (accepted_bytes buf r)] \<and> \<not> write_closed_flag st"
proof (cases "closed ss \<or> write_closed_flag st \<or> buf = []")
  case True
  with assms(2) have "fc' = fc" "accepted_bytes buf r = []"
    by (auto simp: poll_write_def is_closed_def split: if_splits)
  then show ?thesis by simp
next
  case False
  let ?k = "min (length buf) (max_frame_size cfg - HEADER_SIZE)"
  show ?thesis
    by (cases rule: frames.send_cases [OF assms(1), of "new_psh 1 (stream_id st) (take ?k buf)"])
      (use False assms(2) in \<open>auto simp: poll_write_def is_closed_def emitted_def Let_def\<close>)
qed

lemma emitted_drop:
  assumes "capacity F (frame_ch s) \<noteq> Some 0"
  shows "emitted F (frame_ch s) (frame_ch (drop_stream F D st s)) = [] \<or>
         emitted F (frame_ch s) (frame_ch (drop_stream F D st s)) = [new_fin 1 (stream_id st)] \<and>
         \<not> write_closed_flag st"
  by (cases rule: frames.send_cases [OF assms, of "new_fin 1 (stream_id st)"])
    (auto simp: drop_stream_def stream_drop_def drop_body_def emitted_def split: prod.splits)

lemma emitted_open_send:
  assumes "capacity F (frame_ch s) \<noteq> Some 0" "open_stream_send F D st s = (s', Ready r)"
  shows "(case r of
            Inr st' \<Rightarrow> st' = st \<and>
              emitted F (frame_ch s) (frame_ch s') = [new_syn (config_version (session_config s)) (stream_id st)]
          | Inl e \<Rightarrow> emitted F (frame_ch s) (frame_ch s') = []) \<and> accept_ch s' = accept_ch s"
proof -
  let ?f = "new_syn (config_version (session_config s)) (stream_id st)"
  from assms(1) show ?thesis
  proof (cases rule: frames.send_cases [where x = ?f])
    case disconnected
    then have "frame_ch (drop_stream F D st s) = frame_ch s"
      by (auto simp: drop_stream_def stream_drop_def drop_body_def frames.send_disconnected split: prod.splits)
    with disconnected assms(2) show ?thesis
      by (auto simp: open_stream_send_def send_async_def emitted_def)
  qed (use assms(2) in \<open>auto simp: open_stream_send_def send_async_def emitted_def\<close>)
qed

end
text \<open>Only a stream that is closed for writing has a suspended \<open>close\<close>.\<close>

definition handles_ok :: "('fc, 'dc, 'ac) system \<Rightarrow> bool" where
  "handles_ok s \<longleftrightarrow> (\<forall>h \<in> set (handles s). snd h \<longrightarrow> write_closed_flag (fst h))"

lemma handles_okD: "\<lbrakk>handles_ok s; k < length (handles s); handles s ! k = (st, c)\<rbrakk> \<Longrightarrow> c \<longrightarrow> write_closed_flag st"
  unfolding handles_ok_def by (metis fst_conv nth_mem snd_conv)

lemma handles_ok_update:
  "\<lbrakk>handles_ok s; h = (st, c); c \<longrightarrow> write_closed_flag st\<rbrakk> \<Longrightarrow> handles_ok (s\<lparr>handles := (handles s)[k := h]\<rparr>)"
  by (auto simp: handles_ok_def dest!: set_update_subset_insert [THEN subsetD])

lemma set_remove_nth: "set (remove_nth k xs) \<subseteq> set xs"
  by (auto simp: remove_nth_def dest: in_set_takeD in_set_dropD)

lemma apply_op_handles_ok:
  assumes "handles_ok s" "k < length (handles s)" "apply_op F cfg (handles s ! k) x = (h, fc)"
    and "fst x \<in> {Op_shutdown, Op_close, Op_close_again}"
  shows "handles_ok (s\<lparr>handles := (handles s)[k := h]\<rparr>)"
proof -
  obtain st c where st: "handles s ! k = (st, c)" by fastforce
  obtain st' c' where h: "h = (st', c')" by fastforce
  obtain op fc0 ss where x: "x = (op, fc0, ss)" by (cases x)
  have "c' \<longrightarrow> write_closed_flag st'"
    using assms(3,4) handles_okD [OF assms(1,2) st] unfolding st h x
    by (auto simp: poll_shutdown_def stream_close_def Let_def split: if_splits prod.splits)
  with h show ?thesis by (rule handles_ok_update [OF assms(1)])
qed

lemma app_step_handles:
  assumes "app_step B F D A s e s'" "handles_ok s"
  shows "handles_ok s'"
  using assms
proof (induction rule: app_step.induct)
  case (app_read k s st closing n st' ch ss r)
  then show ?case by (auto simp: handles_ok_def dest!: set_update_subset_insert [THEN subsetD])
next
  case (app_write k s st closing buf fc r)
  then show ?case by (auto simp: handles_ok_def dest!: set_update_subset_insert [THEN subsetD])
next
  case (app_stream k s op h fc)
  from apply_op_handles_ok [OF app_stream(4,1,3)] app_stream(2) show ?case by (simp add: handles_ok_def)
next
  case (app_close_cancel k s st)
  then show ?case by (auto simp: handles_ok_def dest!: set_update_subset_insert [THEN subsetD])
next
  case (app_drop k s)
  then show ?case using set_remove_nth [of k "handles s"] by (auto simp: handles_ok_def)
qed (auto simp: handles_ok_def)

context session_env
begin

lemma app_step_parts:
  assumes "app_step B F D A s e s'" "session_wf D A (inner s)" "handles_ok s"
    and "capacity F (frame_ch (inner s)) \<noteq> Some 0" "v = config_version (session_config (inner s))"
  shows "part_step c v e (emitted F (frame_ch (inner s)) (frame_ch (inner s'))) (parts A s) (parts A s')"
  using assms
proof (induction rule: app_step.induct)
  case (app_open s i st)
  have "accept_ch i = accept_ch (inner s)" "frame_ch i = frame_ch (inner s)" "phase_of (st, False) = Writing"
    by (rule open_stream_prepare_cases [OF app_open(2)]; use app_open(1) in \<open>auto simp: stream_new_def\<close>)+
  then show ?case
    using part_open [of c v "stream_id st" "parts A s"] by (simp add: parts_def)
next
  case (app_open_fails s i e)
  have "accept_ch i = accept_ch (inner s)" "frame_ch i = frame_ch (inner s)"
    by (rule open_stream_prepare_cases [OF app_open_fails(2)];
        use app_open_fails(1) in \<open>auto simp: next_stream_id_def Let_def split: if_splits\<close>)+
  then show ?case by (intro part_noneI) (simp_all add: parts_def)
next
  case (app_opened k s i st)
  let ?st = "pending_opens s ! k"
  from emitted_open_send [OF app_opened(5,2)] app_opened(6)
  have i: "accept_ch i = accept_ch (inner s)" "st = ?st"
    "emitted F (frame_ch (inner s)) (frame_ch i) = [new_syn v (stream_id ?st)]" by simp_all
  have "Opening (stream_id ?st) (phase_of (?st, False)) \<in># parts A s"
    using app_opened(1) by (simp add: parts_def)
  from part_opened [OF this, of c v] app_opened(1) i show ?case
    by (simp add: parts_def image_mset_remove_nth owning_def ac_simps)
next
  case (app_open_refused k s i e)
  let ?st = "pending_opens s ! k"
  from emitted_open_send [OF app_open_refused(5,2)]
  have i: "accept_ch i = accept_ch (inner s)"
    "emitted F (frame_ch (inner s)) (frame_ch i) = []" by simp_all
  have "Opening (stream_id ?st) (phase_of (?st, False)) \<in># parts A s"
    using app_open_refused(1) by (simp add: parts_def)
  from part_unopened [OF this, of "[]" c v] app_open_refused(1) i show ?case
    by (simp add: parts_def image_mset_remove_nth)
next
  case (app_open_cancel k s)
  let ?st = "pending_opens s ! k"
  have "Opening (stream_id ?st) (phase_of (?st, False)) \<in># parts A s"
    using app_open_cancel(1) by (simp add: parts_def)
  moreover have "emitted F (frame_ch (inner s)) (frame_ch (drop_stream F D ?st (inner s))) = [] \<or>
      emitted F (frame_ch (inner s)) (frame_ch (drop_stream F D ?st (inner s))) =
        [new_fin 1 (stream_id ?st)] \<and> phase_of (?st, False) = Writing"
    using emitted_drop [OF app_open_cancel(4), of ?st] by auto
  ultimately have "part_step c v (Drops (stream_id ?st))
      (emitted F (frame_ch (inner s)) (frame_ch (drop_stream F D ?st (inner s)))) (parts A s)
      (parts A s - {#Opening (stream_id ?st) (phase_of (?st, False))#})"
    by (rule part_unopened)
  then show ?case using app_open_cancel(1) by (simp add: parts_def image_mset_remove_nth)
next
  case (app_accepted k s g first i st)
  note acc = accept_select_cases [OF app_accepted(4,3)] accept_select_fields(2) [OF app_accepted(3)]
  have "Waiting (stream_id st) (phase_of (st, False)) \<in># parts A s"
    using acc by (simp add: parts_def)
  from part_accepted [OF this, of c v] acc show ?case
    by (simp add: parts_def owning_def)
next
  case (app_accept_ends k s g first i e)
  from accept_select_cases [OF app_accept_ends(4,3)] have "i = inner s" by simp
  then show ?case by (intro part_noneI) (simp_all add: parts_def)
next
  case (app_read k s st closing n st' ch ss r)
  note mem = owning_mem [OF app_read(1), of A, unfolded app_read(2) owning_eq]
  note same = poll_read_channel [OF app_read(3)]
  have "part_step c v (Reads (stream_id st) n r) [] (parts A s)
      (add_mset (Owning (stream_id st) (phase_of (st', False))) (parts A s - {#owning (st, closing)#}))"
    unfolding owning_eq by (rule part_moves [OF mem]) (use same in auto)
  moreover have "owning (st', False) = Owning (stream_id st) (phase_of (st', False))"
    using same by (simp add: owning_eq)
  ultimately show ?case using app_read(1,2) by (simp add: parts_update [where h = "(st', False)"])
next
  case (app_write k s st closing buf fc r)
  note mem = owning_mem [OF app_write(1), of A, unfolded app_write(2) owning_eq]
  have "part_step c v (Writes (stream_id st) (accepted_bytes buf r)) (emitted F (frame_ch (inner s)) fc) (parts A s)
      (add_mset (owning (st, False)) (parts A s - {#owning (st, closing)#}))"
    unfolding owning_eq by (rule part_writes [OF mem]) (use emitted_write [OF app_write(6,3)] in auto)
  then show ?case using app_write(1,2) by (simp add: parts_update [where h = "(st, False)"])
next
  case (app_stream k s op h fc)
  obtain st closing where st: "handles s ! k = (st, closing)" by fastforce
  obtain st' closing' where h: "h = (st', closing')" by fastforce
  note mem = owning_mem [OF app_stream(1), of A, unfolded st owning_eq]
  note wf = handles_okD [OF app_stream(5,1) st]
  note op = app_stream(3) [unfolded st h]
  have id: "stream_id st' = stream_id st" using apply_op_pending(2) [OF op wf] .
  have "part_step c v App (emitted F (frame_ch (inner s)) fc) (parts A s)
      (add_mset (Owning (stream_id st) (phase_of h)) (parts A s - {#owning (st, closing)#}))"
    unfolding owning_eq h
    by (rule part_moves [OF mem _ _ emitted_fin [OF app_stream(6) op app_stream(2) wf refl refl]]) simp_all
  moreover have "owning h = Owning (stream_id st) (phase_of h)" using id h by (simp add: owning_eq)
  ultimately show ?case using app_stream(1) st by (simp add: parts_update [where h = h])
next
  case (app_close_cancel k s st)
  note mem = owning_mem [OF app_close_cancel(1), of A, unfolded app_close_cancel(2) owning_eq]
  note wf = handles_okD [OF app_close_cancel(4,1,2)]
  have "part_step c v App [] (parts A s) (add_mset (owning (st, False)) (parts A s - {#owning (st, True)#}))"
    unfolding owning_eq by (rule part_moves [OF mem]) (use wf in auto)
  then show ?case using app_close_cancel(1,2) by (simp add: parts_update [where h = "(st, False)"])
next
  case (app_drop k s)
  obtain st closing where st: "handles s ! k = (st, closing)" by fastforce
  note mem = owning_mem [OF app_drop(1), of A, unfolded st owning_eq]
  have "part_step c v (Drops (stream_id st)) (emitted F (frame_ch (inner s)) (frame_ch (drop_stream F D st (inner s)))) (parts A s)
      (parts A s - {#owning (st, closing)#})"
    unfolding owning_eq by (rule part_dropped [OF mem]) (use emitted_drop [OF app_drop(4), of st] in auto)
  then show ?case using app_drop(1) st by (simp add: parts_remove)
qed (auto simp: session_close_def parts_def intro!: part_noneI)


lemma recv_holds_other:
  assumes "session_wf D A s" "handle_frame F D A f s = (s', out)" "0 < token_balance (shared s)"
    and "frame_cmd f \<noteq> Syn"
  shows "recv_holds (recv_after out) = []"
  using assms handle_psh_refines [OF assms(1), of f s' out]
  by (cases "frame_cmd f")
    (auto simp: handle_frame_def handle_fin_frame_def handle_upd_frame_def Let_def recv_holds_def
      split: option.splits)

lemma recv_step_parts:
  assumes "recv_step F D A s e s'" "run_state F D A cfg c s"
  shows "part_step c v e [] (parts A s) (parts A s') \<and> frame_ch (inner s') = frame_ch (inner s)"
  using assms
proof (induction rule: recv_step.induct)
  case (recv_arrives s g f i out)
  let ?i = "(inner s)\<lparr>shared := mark_data_received (shared (inner s))\<rparr>"
  have run: "handle_frame F D A f ?i = (i, out)"
    using recv_arrives(2) by (simp add: recv_frame_def)
  have wf: "session_wf D A ?i" and c: "is_client ?i = c" and pos: "0 < token_balance (shared ?i)"
    using recv_arrives(3)
    by (auto simp: run_state_def system_wf_def balance_def token_balance_def intro: session_wf_fields)
  have fc: "frame_ch i = frame_ch (inner s)" using handle_frame_keeps(3) [OF wf run] by simp
  have same: "part_step c v (Arrives f) [] (parts A s) (parts A (s\<lparr>inner := i, recv_at := recv_after out\<rparr>))"
    if "accept_ch i = accept_ch (inner s)" "recv_holds (recv_after out) = []"
    using that recv_arrives(1) by (intro part_noneI) (simp_all add: parts_def recv_holds_def)
  show ?case
  proof (cases "frame_cmd f = Syn")
    case False
    with same fc handle_other_accept [OF wf run False] recv_holds_other [OF wf run pos False]
    show ?thesis by simp
  next
    case True
    then have syn: "handle_syn_frame F D A f ?i = (i, out)" using run by (simp add: handle_frame_def)
    from wf show ?thesis
    proof (cases rule: handle_syn_cases [where f = f])
      case (new s1 ac out1)
      let ?st = "stream_new (frame_stream_id f) (length (data_chs ?i))"
      have i: "i = s1" "out = out1" using new(3) syn by simp_all
      have p: "Waiting (stream_id ?st) (phase_of (?st, False)) = Waiting (frame_stream_id f) Writing"
        by (simp add: stream_new_def)
      have "parts A (s\<lparr>inner := i, recv_at := recv_after out\<rparr>) =
          add_mset (Waiting (frame_stream_id f) Writing) (parts A s)"
        using new(4,6) recv_arrives(1) p unfolding i
        by (auto simp: parts_def recv_holds_def simp del: phase_of.simps split: if_splits)
      moreover have "begins c (frame_stream_id f) (Arrives f)" using new(1) True c by simp
      ultimately show ?thesis using fc part_comes [of c "frame_stream_id f" f] by simp
    qed (use same syn fc in \<open>auto simp: recv_holds_def\<close>)
  qed
next
  case (recv_accept s st i out)
  have wf: "session_wf D A (inner s)" using recv_accept(3) by (simp add: run_state_def system_wf_def)
  note i = syn_send_cases [OF wf recv_accept(2)]
  then have "i = (inner s)\<lparr>accept_ch := accept_ch i\<rparr>" by blast
  then have "frame_ch i = frame_ch (inner s)"
    by (metis session_inner.select_convs(6) session_inner.surjective session_inner.update_convs(3))
  with i recv_accept(1) show ?case
    by (auto simp: parts_def recv_holds_def intro!: part_noneI split: if_splits)
next
  case (recv_data s f i out)
  then show ?case by (simp add: run_state_def system_wf_def recv_ok_def)
qed (auto simp: run_state_def recv_end_def parts_def recv_holds_def intro!: part_noneI)

lemma keep_step_parts:
  assumes "keep_step F s e s'" "capacity F (frame_ch (inner s)) \<noteq> Some 0"
    and "\<forall>f. keep_at s = K_ping f \<longrightarrow> f = new_nop v" "v = config_version (session_config (inner s))"
  shows "part_step c v e (emitted F (frame_ch (inner s)) (frame_ch (inner s'))) (parts A s) (parts A s') \<and>
         (\<forall>f. keep_at s' = K_ping f \<longrightarrow> f = new_nop v)"
  using assms
proof (induction rule: keep_step.induct)
  case (keep_sends s f fc sent)
  have "emitted F (frame_ch (inner s)) fc \<in> {[], [f]}"
    by (cases rule: frames.send_cases [OF keep_sends(3), of f])
      (use keep_sends(2) in \<open>auto simp: send_async_def emitted_def\<close>)
  with keep_sends(1,4) show ?case
    by (auto simp: parts_def intro!: part_none)
qed (auto simp: parts_def frame_new_defs intro!: part_noneI)


text \<open>All steps; a step of the send task adds nothing and moves no stream.\<close>

definition sender_ok :: "('fc, 'dc, 'ac) system \<Rightarrow> bool" where
  "sender_ok s \<longleftrightarrow> handles_ok s \<and>
     (\<forall>f. keep_at s = K_ping f \<longrightarrow> f = new_nop (config_version (session_config (inner s))))"

lemma other_steps_send_at:
  "recv_step F D A s e s' \<Longrightarrow> send_at s' = send_at s"
  "keep_step F s e s' \<Longrightarrow> send_at s' = send_at s"
  "app_step B F D A s e s' \<Longrightarrow> send_at s' = send_at s"
  by (auto elim: recv_step.cases keep_step.cases app_step.cases)

lemma send_step_parts:
  assumes "send_step B F s e s'"
  shows "part_step c v e [] (parts A s) (parts A s') \<and> added F s s' = []"
  using assms
  by (induction rule: send_step.induct)
    (auto simp: parts_def send_end_def send_return_def added_def intro!: part_noneI)

lemma step_parts:
  assumes "step B F D A s e s'" "run_state F D A cfg c s" "sender_ok s"
    and "0 < max_receive_channel_buffer_size cfg" "v = config_version cfg"
  shows "part_step c v e (added F s s') (parts A s) (parts A s') \<and> sender_ok s'"
proof -
  have wf: "session_wf D A (inner s)" and cap: "capacity F (frame_ch (inner s)) \<noteq> Some 0"
    and v: "v = config_version (session_config (inner s))"
    using assms(2,4,5) by (simp_all add: run_state_def system_wf_def)
  have ok: "handles_ok s" "\<forall>f. keep_at s = K_ping f \<longrightarrow> f = new_nop v"
    using assms(3) v by (simp_all add: sender_ok_def)
  have cfg: "session_config (inner s') = session_config (inner s)"
    using step_wf [OF assms(1)] assms(2) by (simp add: run_state_def advances_def)
  have recv: ?thesis if "recv_step F D A s e s'"
  proof -
    have "handles s' = handles s \<and> keep_at s' = keep_at s" using that by (auto elim: recv_step.cases)
    with recv_step_parts [OF that assms(2), of v] other_steps_send_at(1) [OF that] assms(3)
    show ?thesis using cfg by (simp add: added_def sender_ok_def handles_ok_def)
  qed
  have send: ?thesis if "send_step B F s e s'"
  proof -
    have "handles s' = handles s \<and> keep_at s' = keep_at s" using that by (auto elim: send_step.cases)
    with send_step_parts [OF that, of c v] assms(3)
    show ?thesis using cfg by (simp add: sender_ok_def handles_ok_def)
  qed
  have keep: ?thesis if "keep_step F s e s'"
  proof -
    have "handles s' = handles s" using that by (auto elim: keep_step.cases)
    with keep_step_parts [OF that cap ok(2) v, of c] other_steps_send_at(2) [OF that] ok(1)
    show ?thesis using cfg v by (simp add: added_def sender_ok_def handles_ok_def)
  qed
  have app: ?thesis if "app_step B F D A s e s'"
  proof -
    have "keep_at s' = keep_at s" using that by (auto elim: app_step.cases)
    with app_step_parts [OF that wf ok(1) cap v, of c] other_steps_send_at(3) [OF that]
      app_step_handles [OF that ok(1)] ok(2)
    show ?thesis using cfg v by (simp add: added_def sender_ok_def)
  qed
  from assms(1) recv send keep app show ?thesis unfolding step_def by blast
qed

lemma sender_ok_new: "sender_ok (system_new F A cfg client)"
  by (simp add: sender_ok_def handles_ok_def system_new_def keep_start_def)

lemma parts_new: "parts A (system_new F A cfg client) = {#}"
  by (simp add: parts_def system_new_def session_new_def recv_holds_def accept.bounded_new)

text \<open>Induction over logged runs of a new system.\<close>

lemma logged_new_induct [consumes 2, case_names start step]:
  fixes s :: "('fc, 'dc, 'ac) system"
  assumes "limits_ok cfg es" "logged_run B F D A (system_new F A cfg client) es fs s"
    and "P [] [] (system_new F A cfg client)"
    and "\<And>es fs s e s'. \<lbrakk>run B F D A (system_new F A cfg client) es s; limits_ok cfg (es @ [e]);
           step B F D A s e s'; run_state F D A cfg client s; run_state F D A cfg client s';
           sender_ok s; P es fs s\<rbrakk> \<Longrightarrow> P (es @ [e]) (fs @ added F s s') s'"
  shows "P es fs s"
proof -
  have "P es fs s \<and> sender_ok s"
    using assms(2,1)
  proof (induction "system_new F A cfg client :: ('fc, 'dc, 'ac) system" es fs s rule: logged_run.induct)
    case logged_nil
    then show ?case using assms(3) sender_ok_new by simp
  next
    case (logged_snoc es fs s e s')
    have lim: "limits_ok cfg es" using logged_snoc.prems by (rule limits_ok_prefix)
    note r = logged_run_run [OF logged_snoc(1)]
    note st = run_state [OF lim r] run_state [OF logged_snoc.prems run.run_snoc [OF r logged_snoc(3)]]
    from logged_snoc(2) lim have IH: "P es fs s" "sender_ok s" by simp_all
    have "0 < max_receive_channel_buffer_size cfg" using lim by (simp add: limits_ok_def)
    with assms(4) [OF r logged_snoc.prems logged_snoc(3) st IH(2,1)] step_parts [OF logged_snoc(3) st(1) IH(2)]
    show ?case by blast
  qed
  then show ?thesis ..
qed

text \<open>The frames of one stream, in every run in which it begins at most once.\<close>

lemma run_said:
  fixes s :: "('fc, 'dc, 'ac) system"
  assumes "limits_ok cfg es" "logged_run B F D A (system_new F A cfg client) es fs s"
    and "sid \<noteq> 0" "begun client sid es \<le> 1"
  shows "said (config_version cfg) sid (Opens sid \<in> set es) (begun client sid es \<noteq> 0)
           (bytes_written sid es) (of_stream sid fs) (filter_mset (\<lambda>r. part_id r = sid) (parts A s))"
  using assms
proof (induction rule: logged_new_induct)
  case start
  show ?case by (simp add: said_def parts_new)
next
  case (step es fs s e s')
  have pos: "0 < max_receive_channel_buffer_size cfg" using step(2) by (simp add: limits_ok_def)
  have ps: "part_step client (config_version cfg) e (added F s s') (parts A s) (parts A s')"
    using step_parts [OF step(3,4,6) pos refl] by blast
  have once: "begun client sid es \<le> 1" "begins client sid e \<Longrightarrow> begun client sid es = 0"
    using step(9) by (simp_all split: if_splits)
  note said_step [OF ps step(8) step(7) [OF step(8) once(1)] once(2)] moreover have "Opens sid \<in> set (es @ [e]) \<longleftrightarrow> Opens sid \<in> set es \<or> e = Opens sid" by auto
  ultimately show ?case by simp
qed

text \<open>How far the send task has got with the log.\<close>

lemma run_log:
  fixes s :: "('fc, 'dc, 'ac) system"
  assumes "limits_ok cfg es" "logged_run B F D A (system_new F A cfg client) es fs s"
  shows "prefix (departed es) fs \<and> (send_at s \<notin> {S_exit, S_done} \<longrightarrow> fs = departed es @ queued F s)"
  using assms
proof (induction rule: logged_new_induct)
  case start
  have "0 < max_receive_channel_buffer_size cfg" using assms(1) by (simp add: limits_ok_def)
  then show ?case by (simp add: queued_def system_new_def session_new_def frames.bounded_new)
next
  case (step es fs s e s')
  have ?case if "send_step B F s e s'"
  proof -
    have new: "added F s s' = []" using send_step_parts [OF that] by blast
    from that step(7) show ?thesis
      unfolding new
    proof (induction rule: send_step.induct)
      case (send_frame s g fc f)
      then show ?case
        by (cases rule: frames.recv_cases [of "frame_ch (inner s)"]) (auto simp: queued_def)
    qed (auto simp: queued_def prefix_def)
  qed
  moreover have ?case if other: "recv_step F D A s e s' \<or> keep_step F s e s' \<or> app_step B F D A s e s'"
  proof -
    have wf: "system_wf F D A s" "0 < max_receive_channel_buffer_size (session_config (inner s))"
      using step(2,4) by (simp_all add: run_state_def limits_ok_def)
    note ch = other_steps_appends [OF other wf]
    have same: "send_at s' = send_at s" by (rule ch(2))
    have "departed_event e = []" using other by (auto elim: recv_step.cases keep_step.cases app_step.cases)
    moreover have "queued F s' = queued F s @ added F s s'" if alive: "send_at s \<notin> {S_exit, S_done}"
      using ch(1) same by (auto simp: queued_def added_def appends_def emitted_def)
    ultimately show ?thesis using step(7) same by (auto simp: prefix_def)
  qed
  ultimately show ?case using step(3) unfolding step_def by blast
qed


text \<open>The wire: the bytes of the frames that departed, all of which the encoder accepted.\<close>

lemma run_wire:
  fixes s :: "('fc, 'dc, 'ac) system"
  assumes "limits_ok cfg es" "run B F D A (system_new F A cfg client) es s"
  shows "wire s = concat (map wire_bytes (departed es)) \<and>
         (\<forall>f \<in> set (departed es). frame_valid cfg f \<and>
            HEADER_SIZE + unat (wire_length f) \<le> max_frame_size cfg)"
  using assms
proof (induction rule: run_new_induct)
  case start
  show ?case by (simp add: system_new_def)
next
  case (step es s e s')
  have cfg: "session_config (inner s) = cfg" using step(4) by (simp add: run_state_def)
  have ?case if "send_step B F s e s'"
    using that step(6) cfg
    by (induction rule: send_step.induct) (auto simp: bytes.encode_eq frame_validate_Inr_iff split: if_splits)
  moreover have ?case if "recv_step F D A s e s' \<or> keep_step F s e s' \<or> app_step B F D A s e s'"
  proof -
    have "wire s' = wire s \<and> departed_event e = []"
      using that by (auto elim: recv_step.cases keep_step.cases app_step.cases)
    with step(6) show ?thesis by simp
  qed
  ultimately show ?case using step(3) unfolding step_def by blast
qed

text \<open>A logged run, with everything that is known of the frames of one stream.\<close>

lemma run_sent:
  fixes s :: "('fc, 'dc, 'ac) system"
  assumes "limits_ok cfg es" "run B F D A (system_new F A cfg client) es s"
    and "sid \<noteq> 0" "begun client sid es \<le> 1"
  obtains fs where "prefix (departed es) fs"
    "send_at s \<notin> {S_exit, S_done} \<Longrightarrow> fs = departed es @ queued F s"
    "said (config_version cfg) sid (Opens sid \<in> set es) (begun client sid es \<noteq> 0)
       (bytes_written sid es) (of_stream sid fs) (filter_mset (\<lambda>r. part_id r = sid) (parts A s))"
  using run_logged [OF assms(2)] run_log [OF assms(1)] run_said [OF assms(1) _ assms(3,4)] by blast

end

text \<open>What follows for the frames that have departed.\<close>

lemma prefix_of_stream: "prefix fs gs \<Longrightarrow> prefix (of_stream sid fs) (of_stream sid gs)"
  by (auto simp: prefix_def)

lemma said_line:
  assumes "said v sid here bg w fs R"
  shows "(\<exists>ps. concat ps = w \<and>
            prefix fs ((if here then [new_syn v sid] else []) @ map (new_psh 1 sid) ps @ [new_fin 1 sid])) \<or>
         w = [] \<and> prefix fs [new_fin 1 sid]"
proof -
  have "open_line v sid here w fs \<or> ended_line v sid here w fs \<or> w = [] \<and> fs = []"
    if "line v here w fs r" "part_id r = sid" for r
    using that by (cases r) auto
  with assms have "open_line v sid here w fs \<or> ended_line v sid here w fs \<or>
      w = [] \<and> (fs = [] \<or> fs = [new_fin 1 sid])"
    unfolding said_def by blast
  moreover have "\<exists>ps. concat ps = w \<and>
      prefix fs ((if here then [new_syn v sid] else []) @ map (new_psh 1 sid) ps @ [new_fin 1 sid])"
    if "open_line v sid here w fs \<or> ended_line v sid here w fs"
    using that by (fastforce simp: open_line_def ended_line_def)
  ultimately show ?thesis by fastforce
qed

section \<open>Properties\<close>

text \<open>
  C11. A stream on the wire: in every run in which the stream of an identifier begins at most once, the
  frames of the identifier that the send task has handed to the transport are, as far as it has got,
  the SYN, if the stream was opened here, data frames that together carry exactly what its owner wrote,
  in order, and one FIN with nothing behind it; a call of \<open>open_stream\<close> that was cancelled leaves at most
  a FIN.
\<close>

lemma stream_on_the_wire:
  fixes s :: "('fc, 'dc, 'ac) system"
  assumes "session_env B F D A" "limits_ok cfg es"
    and "run B F D A (system_new F A cfg client) es s"
    and "sid \<noteq> 0" "begun client sid es \<le> 1"
  shows "(\<exists>ps. concat ps = bytes_written sid es \<and>
            prefix (of_stream sid (departed es))
              ((if Opens sid \<in> set es then [new_syn (config_version cfg) sid] else []) @
               map (new_psh 1 sid) ps @ [new_fin 1 sid])) \<or>
         bytes_written sid es = [] \<and> prefix (of_stream sid (departed es)) [new_fin 1 sid]"
proof -
  obtain fs where fs: "prefix (departed es) fs"
    "said (config_version cfg) sid (Opens sid \<in> set es) (begun client sid es \<noteq> 0)
       (bytes_written sid es) (of_stream sid fs) (filter_mset (\<lambda>r. part_id r = sid) (parts A s))"
    using session_env.run_sent [OF assms] by blast
  from prefix_of_stream [OF fs(1), of sid] said_line [OF fs(2)] show ?thesis
    by (meson prefix_order.trans)
qed

lemma stream_on_the_wire_witness:
  "\<exists>es s. demo_run (demo config_default) es s \<and>
     of_stream 1 (departed es) = [new_syn 1 1, new_psh 1 1 [1, 2, 3], new_fin 1 1] \<and>
     bytes_written 1 es = [1, 2, 3]"
proof -
  obtain es s where x: "demo_execute [Do_recv, Do_send, Do_open, Do_open_send 0, Do_send, Do_send,
      Do_send, Do_write 0 [1, 2, 3], Do_send, Do_send, Do_op 0 Op_shutdown, Do_send, Do_send, Do_send]
      (demo config_default) = Some (es, s)"
    and s: "limits_ok config_default es" "begun True 1 es \<le> 1" "bytes_written 1 es = [1, 2, 3]"
      "of_stream 1 (departed es) = [new_syn 1 1, new_psh 1 1 [1, 2, 3], new_fin 1 1]"
    by (simp add: exec_simps limits_ok_def traffic_def begun_def bytes_written_def departed_def of_stream_def)
  note r = execute_run [OF x]
  from stream_on_the_wire [OF lse.session_env_axioms s(1) r [unfolded demo_def] _ s(2)] r s(3,4)
  show ?thesis by auto
qed

end
