(* ===== verification/Endings.thy ===== *)
theory Endings
  imports Outboxes
begin

text \<open>
  How the writing side of a stream may end without its FIN: \<open>Drop\<close> of \<open>src/src/stream.rs\<close> only tries to put
  the FIN into the frame channel, and \<open>close\<close> marks the stream as closed for writing before it waits for
  room. Once nobody can send for an identifier any more, nothing of it is ever sent.
\<close>

section \<open>Identifiers nobody sends for\<close>







section \<open>Properties\<close>








end
