(* ===== verification/Networks.thy ===== *)
theory Networks
  imports Outboxes Identifiers
begin

text \<open>
  Two sessions, a client and a server, joined by a transport that carries the bytes of each side's wire
  to the other in order, in pieces of any size, as long as it does not fail. Each side reads frames
  from the bytes that have come in with its own codec. Nothing is said about the order in which the
  two sides, the transport and the two applications take their steps.
\<close>

section \<open>The network\<close>

datatype peer = Client | Server

instantiation peer :: enum
begin

definition enum_peer_def: "enum_class.enum = [Client, Server]"
definition enum_all_peer_def: "enum_class.enum_all P \<longleftrightarrow> P Client \<and> P Server"
definition enum_ex_peer_def: "enum_class.enum_ex P \<longleftrightarrow> P Client \<or> P Server"

instance
proof
  show "(UNIV :: peer set) = set enum_class.enum" by (auto simp: enum_peer_def intro: peer.exhaust)
qed (auto simp: enum_peer_def enum_all_peer_def enum_ex_peer_def intro: peer.exhaust, (metis peer.exhaust)+)

end

fun other :: "peer \<Rightarrow> peer" where
  "other Client = Server"
| "other Server = Client"

fun at_client :: "peer \<Rightarrow> bool" where
  "at_client Client = True"
| "at_client Server = False"

lemma other_simps [simp]:
  "other (other b) = b" "other b \<noteq> b" "b \<noteq> other b" "at_client (other b) \<longleftrightarrow> \<not> at_client b"
  by (cases b; simp)+

lemma peer_cases: obtains "c = b" | "c = other b"
  by (cases b; cases c) auto

text \<open>
  \<open>inbuf b\<close> are the bytes that have come in at a side and are not decoded
  yet, and \<open>carried b\<close> how many bytes of its wire the transport has carried to the other side.
\<close>

record ('fc, 'dc, 'ac) net =
  side :: "peer \<Rightarrow> ('fc, 'dc, 'ac) system"
  inbuf :: "peer \<Rightarrow> bytes"
  carried :: "peer \<Rightarrow> nat"

definition net_new ::
    "('fc, frame) flume_api \<Rightarrow> ('ac, stream) flume_api \<Rightarrow> (peer \<Rightarrow> config) \<Rightarrow> ('fc, 'dc, 'ac) net" where
  "net_new F A cfg =
     \<lparr>side = (\<lambda>b. system_new F A (cfg b) (at_client b)), inbuf = (\<lambda>b. []), carried = (\<lambda>b. 0)\<rparr>"

definition carry :: "peer \<Rightarrow> nat \<Rightarrow> ('fc, 'dc, 'ac) net \<Rightarrow> ('fc, 'dc, 'ac) net" where
  "carry b k n =
     n\<lparr>inbuf := (inbuf n)(other b := inbuf n (other b) @ take k (drop (carried n b) (wire (side n b)))),
       carried := (carried n)(b := carried n b + k)\<rparr>"

definition codec_at :: "('fc, 'dc, 'ac) net \<Rightarrow> peer \<Rightarrow> codec" where
  "codec_at n b = codec_new (session_config (inner (side n b)))"

inductive net_step ::
    "bytes_api \<Rightarrow> ('fc, frame) flume_api \<Rightarrow> ('dc, bytes) flume_api \<Rightarrow> ('ac, stream) flume_api
     \<Rightarrow> ('fc, 'dc, 'ac) net \<Rightarrow> (peer \<times> event) list \<Rightarrow> ('fc, 'dc, 'ac) net \<Rightarrow> bool"
  for B :: bytes_api and F :: "('fc, frame) flume_api" and D :: "('dc, bytes) flume_api"
    and A :: "('ac, stream) flume_api" where
  net_local:
    "\<lbrakk>step B F D A (side n b) e s; \<not> is_arrival e\<rbrakk>
     \<Longrightarrow> net_step B F D A n [(b, e)] (n\<lparr>side := (side n)(b := s)\<rparr>)"
| net_carry:
    "\<lbrakk>0 < k; carried n b + k \<le> length (wire (side n b))\<rbrakk> \<Longrightarrow> net_step B F D A n [] (carry b k n)"
| net_arrives:
    "\<lbrakk>decode B (codec_at n b) (inbuf n b) = (rest, Inr (Some f)); step B F D A (side n b) (Arrives f) s\<rbrakk>
     \<Longrightarrow> net_step B F D A n [(b, Arrives f)] (n\<lparr>side := (side n)(b := s), inbuf := (inbuf n)(b := rest)\<rparr>)"

inductive net_run ::
    "bytes_api \<Rightarrow> ('fc, frame) flume_api \<Rightarrow> ('dc, bytes) flume_api \<Rightarrow> ('ac, stream) flume_api
     \<Rightarrow> ('fc, 'dc, 'ac) net \<Rightarrow> (peer \<times> event) list \<Rightarrow> ('fc, 'dc, 'ac) net \<Rightarrow> bool"
  for B :: bytes_api and F :: "('fc, frame) flume_api" and D :: "('dc, bytes) flume_api"
    and A :: "('ac, stream) flume_api" where
  net_nil: "net_run B F D A n [] n"
| net_snoc:
    "\<lbrakk>net_run B F D A n log n'; net_step B F D A n' l n''\<rbrakk> \<Longrightarrow> net_run B F D A n (log @ l) n''"

text \<open>The events of one side, and the frames that arrived in them.\<close>

definition events_of :: "peer \<Rightarrow> (peer \<times> event) list \<Rightarrow> event list" where
  "events_of b log = map snd (filter (\<lambda>x. fst x = b) log)"

fun arrived_event :: "event \<Rightarrow> frame list" where
  "arrived_event (Arrives f) = [f]"
| "arrived_event _ = []"

definition arrived :: "event list \<Rightarrow> frame list" where
  "arrived es = concat (map arrived_event es)"

lemma events_of_simps [simp]:
  "events_of b [] = []" "events_of b (log @ log') = events_of b log @ events_of b log'"
  "events_of b ((c, e) # log) = (if c = b then e # events_of b log else events_of b log)"
  by (simp_all add: events_of_def)

lemma arrived_simps [simp]:
  "arrived [] = []" "arrived (es @ es') = arrived es @ arrived es'"
  "arrived (e # es) = arrived_event e @ arrived es"
  by (simp_all add: arrived_def)

lemma arrived_event_Nil [simp]: "\<not> is_arrival e \<Longrightarrow> arrived_event e = []"
  by (cases e) simp_all

text \<open>Each side of a network runs as it would alone.\<close>

lemma net_step_side:
  assumes "net_step B F D A n l n'"
  shows "side n' b = side n b \<and> events_of b l = [] \<or>
         (\<exists>e. events_of b l = [e] \<and> step B F D A (side n b) e (side n' b))"
  using assms by (cases rule: net_step.cases) (auto simp: carry_def)

lemma net_run_side:
  assumes "net_run B F D A n log n'"
  shows "run B F D A (side n b) (events_of b log) (side n' b)"
  using assms
proof (induction rule: net_run.induct)
  case (net_snoc n log n' l n'')
  from net_step_side [OF net_snoc(2), of b] show ?case
  proof (elim disjE conjE exE)
    fix e assume "events_of b l = [e]" "step B F D A (side n' b) e (side n'' b)"
    with run_snoc [OF net_snoc(3)] show ?thesis by simp
  qed (use net_snoc(3) in simp)
qed (simp add: run_nil)

section \<open>Frames are recovered from the bytes\<close>

text \<open>
  Configurations and traffic within which every frame fits the header's length field, no side runs out
  of tokens and the identifiers do not run out.
\<close>

definition net_limits :: "(peer \<Rightarrow> config) \<Rightarrow> (peer \<times> event) list \<Rightarrow> bool" where
  "net_limits cfg log \<longleftrightarrow>
     (\<forall>b. limits_ok (cfg b) (events_of b log) \<and> max_frame_size (cfg b) \<le> HEADER_SIZE + 65535 \<and>
          length (opened_ids (events_of b log)) < id_limit)"

lemma net_limits_prefix:
  assumes "net_limits cfg (log @ l)"
  shows "net_limits cfg log"
  unfolding net_limits_def
proof (intro allI conjI)
  fix b
  have all: "limits_ok (cfg b) (events_of b log @ events_of b l)"
    "max_frame_size (cfg b) \<le> HEADER_SIZE + 65535"
    "length (opened_ids (events_of b log)) + length (opened_ids (events_of b l)) < id_limit"
    using assms by (simp_all add: net_limits_def)
  show "limits_ok (cfg b) (events_of b log)" by (rule limits_ok_prefix [OF all(1)])
  show "length (opened_ids (events_of b log)) < id_limit" using all(3) by linarith
qed (use assms in \<open>simp add: net_limits_def\<close>)

lemma encodable_larger:
  "\<lbrakk>encodable cfg f; max_frame_size cfg \<le> max_frame_size cfg'\<rbrakk> \<Longrightarrow> encodable cfg' f"
  by (simp add: encodable_def frame_valid_def)

lemma valid_encodable:
  assumes "frame_valid cfg f" "HEADER_SIZE + unat (wire_length f) \<le> max_frame_size cfg"
    and "max_frame_size cfg \<le> HEADER_SIZE + 65535"
  shows "encodable cfg f"
proof -
  have "length (wire_payload f) < 2 ^ 16"
  proof (cases "frame_cmd f")
    case (Upd consumed window)
    then show ?thesis by (simp add: wire_payload_def u32_to_le_bytes_def)
  qed (use assms in \<open>auto simp: wire_payload_def frame_valid_def\<close>)
  with assms show ?thesis by (simp add: encodable_def unat_wire_length)
qed

context bytes_crate
begin

text \<open>A sequence of bytes is the encoding of at most one sequence of frames.\<close>

lemma wire_bytes_unique:
  assumes "encodable cfg f" "encodable cfg' g" "wire_bytes f @ x = wire_bytes g @ y"
  shows "f = g \<and> x = y"
proof -
  let ?c = "cfg\<lparr>max_frame_size := max (max_frame_size cfg) (max_frame_size cfg')\<rparr>"
  have "encodable ?c f" "encodable ?c g"
    by (rule encodable_larger [OF assms(1)], simp) (rule encodable_larger [OF assms(2)], simp)
  note dec = decode_wire_bytes [OF this(1), of x] decode_wire_bytes [OF this(2), of y]
  from dec(1) have "decode B (codec_new ?c) (wire_bytes g @ y) = (x, Inr (Some f))"
    by (simp only: assms(3))
  with dec(2) have "(x, Inr (Some f)) = (y, Inr (Some g) :: frame option result)" by (simp only:)
  then show ?thesis by simp
qed

lemma wire_bytes_prefix:
  assumes "\<forall>f \<in> set fs. encodable cfg f" "\<forall>g \<in> set gs. encodable cfg' g"
    and "concat (map wire_bytes fs) @ x = concat (map wire_bytes gs)"
  shows "\<exists>hs. gs = fs @ hs \<and> x = concat (map wire_bytes hs)"
  using assms
proof (induction fs arbitrary: gs)
  case (Cons f fs)
  obtain g gs' where gs: "gs = g # gs'"
  proof (cases gs)
    case Nil
    with Cons.prems(3) have "length (wire_bytes f) = 0" by simp
    then show ?thesis by (simp add: length_wire_bytes HEADER_SIZE_def)
  qed
  have "wire_bytes f @ (concat (map wire_bytes fs) @ x) = wire_bytes g @ concat (map wire_bytes gs')"
    using Cons.prems(3) gs by simp
  from wire_bytes_unique [OF _ _ this] Cons.prems(1,2) gs
  have "f = g" "concat (map wire_bytes fs) @ x = concat (map wire_bytes gs')" by auto
  with Cons.IH [of gs'] Cons.prems(1,2) gs show ?case by auto
qed auto

end

section \<open>The transport\<close>

text \<open>What has come in at a side are the frames that arrived there and the bytes still in its buffer.\<close>

definition flow :: "(peer \<Rightarrow> config) \<Rightarrow> (peer \<times> event) list \<Rightarrow> ('fc, 'dc, 'ac) net \<Rightarrow> peer \<Rightarrow> bool" where
  "flow cfg log n b \<longleftrightarrow>
     carried n (other b) \<le> length (wire (side n (other b))) \<and>
     take (carried n (other b)) (wire (side n (other b))) =
       concat (map wire_bytes (arrived (events_of b log))) @ inbuf n b \<and>
     (\<forall>f \<in> set (arrived (events_of b log)). encodable (cfg b) f)"

context session_env
begin

lemma net_side_state:
  fixes n :: "('fc, 'dc, 'ac) net"
  assumes "net_limits cfg log" "net_run B F D A (net_new F A cfg) log n"
  shows "run B F D A (system_new F A (cfg b) (at_client b)) (events_of b log) (side n b)"
    "run_state F D A (cfg b) (at_client b) (side n b)"
proof -
  show r: "run B F D A (system_new F A (cfg b) (at_client b)) (events_of b log) (side n b)"
    using net_run_side [OF assms(2), of b] by (simp add: net_new_def)
  show "run_state F D A (cfg b) (at_client b) (side n b)"
    using assms(1) by (intro run_state [OF _ r]) (simp add: net_limits_def)
qed

lemma step_wire: "step B F D A s e s' \<Longrightarrow> \<exists>bs. wire s' = wire s @ bs"
  by (auto simp: step_def elim!: recv_step.cases send_step.cases keep_step.cases app_step.cases)

lemma flow_step:
  assumes "flow cfg log n b" "\<exists>bs. wire (side n' (other b)) = wire (side n (other b)) @ bs"
    and "carried n' (other b) = carried n (other b)"
    and "inbuf n b = concat (map wire_bytes fs) @ inbuf n' b" "arrived (events_of b l) = fs"
    and "\<forall>f \<in> set fs. encodable (cfg b) f"
  shows "flow cfg (log @ l) n' b"
  using assms by (auto simp: flow_def)

lemma net_step_flow:
  assumes "net_step B F D A n l n'" "flow cfg log n b"
    and "session_config (inner (side n b)) = cfg b"
  shows "flow cfg (log @ l) n' b"
  using assms
proof (induction rule: net_step.induct)
  case (net_local n c e s)
  obtain bs where "wire s = wire (side n c) @ bs" using step_wire [OF net_local(1)] by blast
  with net_local show ?case by (intro flow_step [OF net_local(3), where fs = "[]"]) auto
next
  case (net_carry k n c)
  show ?case
  proof (cases rule: peer_cases [of c b])
    case 1
    with net_carry show ?thesis by (simp add: flow_def carry_def)
  next
    case 2
    with net_carry show ?thesis by (simp add: flow_def carry_def take_add)
  qed
next
  case (net_arrives n c rest f s)
  obtain bs where bs: "wire s = wire (side n c) @ bs" using step_wire [OF net_arrives(2)] by blast
  show ?case
  proof (cases rule: peer_cases [of c b])
    case 1
    with net_arrives(1,4) have "encodable (cfg b) f \<and> inbuf n b = wire_bytes f @ rest"
      by (simp add: codec_at_def bytes.decode_Some_iff)
    with 1 show ?thesis by (intro flow_step [OF net_arrives(3), where fs = "[f]"]) auto
  next
    case 2
    with bs show ?thesis by (intro flow_step [OF net_arrives(3), where fs = "[]"]) auto
  qed
qed

text \<open>Induction over the runs of a new network.\<close>

lemma net_run_induct [consumes 2, case_names start step]:
  fixes n :: "('fc, 'dc, 'ac) net"
  assumes "net_limits cfg log" "net_run B F D A (net_new F A cfg) log n"
    and "P [] (net_new F A cfg)"
    and "\<And>log n l n'. \<lbrakk>net_run B F D A (net_new F A cfg) log n; net_limits cfg (log @ l);
           net_step B F D A n l n'; net_run B F D A (net_new F A cfg) (log @ l) n'; P log n\<rbrakk>
         \<Longrightarrow> P (log @ l) n'"
  shows "P log n"
  using assms(2,1)
proof (induction "net_new F A cfg :: ('fc, 'dc, 'ac) net" log n rule: net_run.induct)
  case net_nil
  then show ?case using assms(3) by simp
next
  case (net_snoc log n l n')
  have "net_limits cfg log" using net_snoc.prems by (rule net_limits_prefix)
  with net_snoc net_run.net_snoc [OF net_snoc(1,3)] show ?case using assms(4) by blast
qed

lemma net_flow:
  fixes n :: "('fc, 'dc, 'ac) net"
  assumes "net_limits cfg log" "net_run B F D A (net_new F A cfg) log n"
  shows "flow cfg log n b"
  using assms
proof (induction rule: net_run_induct)
  case start
  show ?case by (simp add: flow_def net_new_def)
next
  case (step log n l n')
  have "session_config (inner (side n b)) = cfg b"
    using net_side_state(2) [OF net_limits_prefix [OF step(2)] step(1)] by (simp add: run_state_def)
  with net_step_flow [OF step(3,5)] show ?case by blast
qed

text \<open>
  The frames that arrive at a side are the first ones that departed at the other; the others are
  those whose bytes are still in the buffer or on the way.
\<close>

lemma net_arrived:
  fixes n :: "('fc, 'dc, 'ac) net"
  assumes "net_limits cfg log" "net_run B F D A (net_new F A cfg) log n"
  obtains fs where "departed (events_of (other b) log) = arrived (events_of b log) @ fs"
    "inbuf n b @ drop (carried n (other b)) (wire (side n (other b))) = concat (map wire_bytes fs)"
    "\<forall>f \<in> set (departed (events_of (other b) log)). encodable (cfg (other b)) f"
proof -
  have lim: "limits_ok (cfg (other b)) (events_of (other b) log)" "max_frame_size (cfg (other b)) \<le> HEADER_SIZE + 65535"
    using assms(1) by (simp_all add: net_limits_def)
  from run_wire [OF lim(1) net_side_state(1) [OF assms]] lim(2)
  have w: "wire (side n (other b)) = concat (map wire_bytes (departed (events_of (other b) log)))"
    and gs: "\<forall>f \<in> set (departed (events_of (other b) log)). encodable (cfg (other b)) f"
    by (auto intro: valid_encodable)
  let ?t = "drop (carried n (other b)) (wire (side n (other b)))"
  have fl: "take (carried n (other b)) (wire (side n (other b))) =
      concat (map wire_bytes (arrived (events_of b log))) @ inbuf n b"
    "\<forall>f \<in> set (arrived (events_of b log)). encodable (cfg b) f"
    using net_flow [OF assms] by (simp_all add: flow_def)
  have "concat (map wire_bytes (arrived (events_of b log))) @ (inbuf n b @ ?t) =
      concat (map wire_bytes (departed (events_of (other b) log)))"
    using fl(1) w by (metis append.assoc append_take_drop_id)
  from bytes.wire_bytes_prefix [OF fl(2) gs this] gs that show ?thesis by blast
qed

end

end
