(* ===== verification/Transfers.thy ===== *)
theory Transfers
  imports Networks
begin

text \<open>
  From the writer on one side to the reader on the other: in a network, each stream begins at most once
  on either side, no side hears of a stream before it began on the other, and the reader of a stream
  gets what the peer's owner wrote.
\<close>

section \<open>Feeding the frames of one stream\<close>

lemma fold_feed_ended: "fold (feed_frame c) fs (Ended bs) = Ended bs"
  by (induction fs) simp_all

lemma fold_feed_data: "fold (feed_frame c) (map (new_psh 1 sid) ps) (Live bs) = Live (bs @ concat ps)"
  by (induction ps arbitrary: bs) (simp_all add: frame_new_defs)

lemma fold_feed_unborn:
  "\<forall>f \<in> set fs. frame_cmd f \<noteq> Syn \<Longrightarrow> fold (feed_frame c) fs Unborn = Unborn"
  by (induction fs) simp_all

text \<open>What a prefix of a line feeds: a prefix of what was written, and all of it when it has ended.\<close>

definition carries :: "feed \<Rightarrow> bytes \<Rightarrow> bool" where
  "carries fd w \<longleftrightarrow> prefix (feed_bytes fd) w \<and> (\<forall>bs. fd = Ended bs \<longrightarrow> bs = w)"

lemma carries_data:
  assumes "prefix fs (map (new_psh 1 sid) ps @ [new_fin 1 sid])"
  shows "carries (fold (feed_frame c) fs (Live [])) (concat ps)"
proof -
  from assms consider "fs = map (new_psh 1 sid) ps @ [new_fin 1 sid]"
    | qs where "fs = map (new_psh 1 sid) qs" "prefix qs ps"
    by (auto simp: prefix_snoc) (auto simp: prefix_def map_eq_append_conv)
  then show ?thesis
  proof cases
    case 1
    then show ?thesis by (simp add: fold_feed_data carries_def frame_new_defs)
  next
    case 2
    from 2(2) have "prefix (concat qs) (concat ps)" by (auto simp: prefix_def)
    with 2(1) show ?thesis by (simp add: fold_feed_data carries_def)
  qed
qed

lemma line_not_syn:
  assumes "prefix fs (map (new_psh 1 sid) ps @ [new_fin 1 sid])"
  shows "\<forall>f \<in> set fs. frame_cmd f \<noteq> Syn"
proof -
  have "set fs \<subseteq> set (map (new_psh 1 sid) ps @ [new_fin 1 sid])"
    using assms by (rule set_mono_prefix)
  then show ?thesis by (auto simp: frame_new_defs)
qed

lemma carries_line:
  assumes "prefix fs ((if here then [new_syn v sid] else []) @ map (new_psh 1 sid) ps @ [new_fin 1 sid])"
    and "fd = Unborn \<and> peer_id c sid \<or> fd = Live [] \<and> \<not> here"
  shows "carries (fold (feed_frame c) fs fd) (concat ps)"
proof (cases here)
  case True
  with assms(2) have fd: "fd = Unborn" "peer_id c sid" by auto
  show ?thesis
  proof (cases fs)
    case Nil
    with fd show ?thesis by (simp add: carries_def)
  next
    case (Cons f fs')
    with assms(1) True have "f = new_syn v sid" "prefix fs' (map (new_psh 1 sid) ps @ [new_fin 1 sid])"
      by simp_all
    with carries_data [OF this(2)] Cons fd show ?thesis by (simp add: frame_new_defs)
  qed
next
  case False
  then have pre: "prefix fs (map (new_psh 1 sid) ps @ [new_fin 1 sid])" using assms(1) by simp
  from assms(2) show ?thesis
  proof (elim disjE conjE)
    assume "fd = Unborn"
    with fold_feed_unborn [OF line_not_syn [OF pre]] show ?thesis by (simp add: carries_def)
  qed (use carries_data [OF pre] in simp)
qed

text \<open>The frames of a whole line feed all that was written.\<close>

lemma fold_feed_open_line:
  assumes "open_line v sid here w fs" "fd = Unborn \<and> peer_id c sid \<and> here \<or> fd = Live [] \<and> \<not> here"
  shows "fold (feed_frame c) fs fd = Live w"
  using assms by (auto simp: open_line_def fold_feed_data frame_new_defs)

lemma feed_said:
  assumes "said v sid here bg w fs R"
    and "fd = Unborn \<and> peer_id c sid \<and> here = bg \<or> fd = Live [] \<and> \<not> here"
  shows "feed_bytes (fold (feed_frame c) fs fd) = w"
proof -
  have line: "feed_bytes (fold (feed_frame c) fs fd) = w"
    if "open_line v sid here w fs \<or> ended_line v sid here w fs" bg
  proof -
    have fd: "fd = Unborn \<and> peer_id c sid \<and> here \<or> fd = Live [] \<and> \<not> here" using assms(2) that(2) by blast
    from that(1) show ?thesis
      using fold_feed_open_line [OF _ fd]
      by (auto simp: ended_line_def new_fin_def frame_new_def)
  qed
  have fin: "feed_bytes (fold (feed_frame c) [new_fin 1 sid] fd) = []"
    using assms(2) by (auto simp: new_fin_def frame_new_def)
  have "open_line v sid here w fs \<or> ended_line v sid here w fs \<or> w = [] \<and> fs = []"
    if "line v here w fs r" "part_id r = sid" for r
    using that by (cases r) auto
  with assms(1) have "(open_line v sid here w fs \<or> ended_line v sid here w fs) \<and> bg \<or>
      w = [] \<and> (fs = [] \<or> fs = [new_fin 1 sid])"
    unfolding said_def by blast
  with line fin assms(2) show ?thesis by auto
qed

section \<open>When a stream begins\<close>

lemma syns_append [simp]: "syns (fs @ gs) = syns fs + syns gs"
  by (simp add: syns_def)

lemma syns_prefix: "prefix fs gs \<Longrightarrow> syns fs \<le> syns gs"
  by (auto simp: prefix_def)

lemma begun_eq:
  "begun c sid es =
     (if peer_id c sid then syns (of_stream sid (arrived es)) else 0) + count_list (opened_ids es) sid"
proof (induction es rule: rev_induct)
  case (snoc e es)
  then show ?case by (cases e) (auto simp: syns_def of_stream_def)
qed (simp add: syns_def of_stream_def)

lemma syns_line:
  assumes "prefix fs ((if here then [new_syn v sid] else []) @ map (new_psh 1 sid) ps @ [new_fin 1 sid])"
  shows "syns fs \<le> (if here then 1 else 0)"
proof -
  have "syns (map (new_psh 1 sid) ps @ [new_fin 1 sid]) = 0"
    by (induction ps) (simp_all add: syns_def frame_new_defs)
  then have "syns ((if here then [new_syn v sid] else []) @ map (new_psh 1 sid) ps @ [new_fin 1 sid])
      = (if here then 1 else 0)"
    by (simp add: syns_def frame_new_defs)
  with syns_prefix [OF assms] show ?thesis by simp
qed

lemma count_distinct: "distinct xs \<Longrightarrow> count_list xs x \<le> 1"
  by (induction xs) (auto simp: count_list_0_iff)

context session_env
begin

text \<open>Only one side opens an identifier, and it does so once.\<close>

lemma net_opened:
  fixes n :: "('fc, 'dc, 'ac) net"
  assumes "net_limits cfg log" "net_run B F D A (net_new F A cfg) log n"
  shows "count_list (opened_ids (events_of b log)) sid \<le> 1"
    "peer_id (at_client b) sid \<Longrightarrow> count_list (opened_ids (events_of b log)) sid = 0"
proof -
  have lim: "limits_ok (cfg b) (events_of b log)" "length (opened_ids (events_of b log)) < id_limit"
    using assms(1) by (simp_all add: net_limits_def)
  note ids = run_ids_distinct [OF lim(1) net_side_state(1) [OF assms] lim(2)]
  show "count_list (opened_ids (events_of b log)) sid \<le> 1"
    using ids by (blast intro: count_distinct)
  show "count_list (opened_ids (events_of b log)) sid = 0" if "peer_id (at_client b) sid"
    using ids that by (auto simp: count_list_0_iff)
qed

text \<open>The frames of a stream that departed on a side where it began at most once.\<close>

lemma net_departed:
  fixes n :: "('fc, 'dc, 'ac) net"
  assumes "net_limits cfg log" "net_run B F D A (net_new F A cfg) log n"
    and "sid \<noteq> 0" "begun (at_client b) sid (events_of b log) \<le> 1"
  obtains ps where "concat ps = bytes_written sid (events_of b log)"
      "prefix (of_stream sid (departed (events_of b log)))
         ((if Opens sid \<in> set (events_of b log) then [new_syn (config_version (cfg b)) sid] else []) @
          map (new_psh 1 sid) ps @ [new_fin 1 sid])"
  | "bytes_written sid (events_of b log) = []"
    "prefix (of_stream sid (departed (events_of b log))) [new_fin 1 sid]"
proof -
  have lim: "limits_ok (cfg b) (events_of b log)" using assms(1) by (simp add: net_limits_def)
  obtain fs where fs: "prefix (departed (events_of b log)) fs"
    "said (config_version (cfg b)) sid (Opens sid \<in> set (events_of b log))
       (begun (at_client b) sid (events_of b log) \<noteq> 0) (bytes_written sid (events_of b log))
       (of_stream sid fs) (filter_mset (\<lambda>r. part_id r = sid) (parts A (side n b)))"
    using run_sent [OF lim net_side_state(1) [OF assms(1,2)] assms(3,4)] by blast
  from prefix_of_stream [OF fs(1), of sid] said_line [OF fs(2)] that show thesis
    by (meson prefix_order.trans)
qed

lemma net_begun:
  fixes n :: "('fc, 'dc, 'ac) net"
  assumes "net_limits cfg log" "net_run B F D A (net_new F A cfg) log n" "sid \<noteq> 0"
  shows "begun (at_client b) sid (events_of b log) \<le> 1"
proof (cases "peer_id (at_client b) sid")
  case True
  have peer: "\<not> peer_id (at_client (other b)) sid" using True by (auto simp: peer_id_def)
  have "begun (at_client (other b)) sid (events_of (other b) log) \<le> 1"
    using peer net_opened(1) [OF assms(1,2)] by (simp add: begun_eq)
  then have "syns (of_stream sid (departed (events_of (other b) log))) \<le> 1"
  proof (rule net_departed [OF assms])
    fix ps assume "prefix (of_stream sid (departed (events_of (other b) log)))
        ((if Opens sid \<in> set (events_of (other b) log) then [new_syn (config_version (cfg (other b))) sid] else []) @
         map (new_psh 1 sid) ps @ [new_fin 1 sid])"
    from syns_line [OF this] show ?thesis by (simp split: if_splits)
  next
    assume "prefix (of_stream sid (departed (events_of (other b) log))) [new_fin 1 sid]"
    with syns_line [of _ False _ sid "[]"] show ?thesis by fastforce
  qed
  moreover obtain fs where "departed (events_of (other b) log) = arrived (events_of b log) @ fs"
    using net_arrived [OF assms(1,2)] by metis
  ultimately show ?thesis using True net_opened(2) [OF assms(1,2) True] by (simp add: begun_eq)
qed (use net_opened(1) [OF assms(1,2)] in \<open>simp add: begun_eq\<close>)

text \<open>Nothing arrives for a stream that has not begun on the other side.\<close>

lemma net_silent:
  fixes n :: "('fc, 'dc, 'ac) net"
  assumes "net_limits cfg log" "net_run B F D A (net_new F A cfg) log n" "sid \<noteq> 0"
    and "begun (at_client b) sid (events_of b log) = 0"
  shows "bytes_written sid (events_of b log) = []" "of_stream sid (departed (events_of b log)) = []"
    "of_stream sid (arrived (events_of (other b) log)) = []"
proof -
  have lim: "limits_ok (cfg b) (events_of b log)" using assms(1) by (simp add: net_limits_def)
  from assms(4) have "begun (at_client b) sid (events_of b log) \<le> 1" by simp
  then obtain fs where fs: "prefix (departed (events_of b log)) fs"
    "said (config_version (cfg b)) sid (Opens sid \<in> set (events_of b log))
       (begun (at_client b) sid (events_of b log) \<noteq> 0) (bytes_written sid (events_of b log))
       (of_stream sid fs) (filter_mset (\<lambda>r. part_id r = sid) (parts A (side n b)))"
    using run_sent [OF lim net_side_state(1) [OF assms(1,2)] assms(3)] by blast
  from fs(2) assms(4) show "bytes_written sid (events_of b log) = []"
    by (simp add: said_def)
  from fs(2) assms(4) have "of_stream sid fs = []" by (simp add: said_def)
  with prefix_of_stream [OF fs(1), of sid] show d: "of_stream sid (departed (events_of b log)) = []"
    by simp
  obtain gs where "departed (events_of b log) = arrived (events_of (other b) log) @ gs"
    using net_arrived [OF assms(1,2), of "other b"] by auto
  with d show "of_stream sid (arrived (events_of (other b) log)) = []" by simp
qed

text \<open>What the arrived frames feed into a stream.\<close>

lemma fed_peer:
  assumes "Opens sid \<notin> set es"
  shows "fed c sid es = fold (feed_frame c) (of_stream sid (arrived es)) Unborn"
  using assms
proof (induction es rule: rev_induct)
  case (snoc e es)
  then show ?case by (cases e) (auto simp: of_stream_def)
qed (simp add: of_stream_def)

lemma net_fed_own:
  fixes n :: "('fc, 'dc, 'ac) net"
  assumes "net_limits cfg log" "net_run B F D A (net_new F A cfg) log n"
    and "sid \<noteq> 0" "\<not> peer_id (at_client b) sid"
  shows "fed (at_client b) sid (events_of b log) =
         (if begun (at_client b) sid (events_of b log) = 0 then Unborn
          else fold (feed_frame (at_client b)) (of_stream sid (arrived (events_of b log))) (Live []))"
  using assms(1,2)
proof (induction rule: net_run_induct)
  case start
  show ?case by simp
next
  case (step log n l n')
  let ?es = "events_of b log"
  have lim: "net_limits cfg log" by (rule net_limits_prefix [OF step(2)])
  have silent: "of_stream sid (arrived (events_of b log)) = []"
    if "begun (at_client b) sid (events_of b log) = 0"
      "net_limits cfg log" "net_run B F D A (net_new F A cfg) log n"
    for log and n :: "('fc, 'dc, 'ac) net"
  proof -
    have "of_stream sid (arrived (events_of (other b) log)) = []"
      using net_silent(3) [OF that(2,3) assms(3) that(1)] .
    then have "begun (at_client (other b)) sid (events_of (other b) log) = 0"
      using net_opened(2) [OF that(2,3), of "other b" sid] assms(3,4)
      by (simp add: begun_eq syns_def peer_id_def)
    from net_silent(3) [OF that(2,3) assms(3) this] show ?thesis by simp
  qed
  from net_step_side [OF step(3), of b] show ?case
  proof (elim disjE conjE exE)
    fix e assume e: "events_of b l = [e]"
    show ?thesis
    proof (cases e)
      case (Arrives f)
      have "begun (at_client b) sid ?es \<noteq> 0" if "frame_stream_id f = sid"
      proof
        assume "begun (at_client b) sid ?es = 0"
        then have "begun (at_client b) sid (events_of b (log @ l)) = 0" using e Arrives assms(4) by simp
        from silent [OF this step(2,4)] e Arrives that show False by (simp add: of_stream_def)
      qed
      with step(5) e Arrives assms(4) show ?thesis by (auto simp: of_stream_def)
    next
      case (Opens sid')
      show ?thesis
      proof (cases "sid' = sid")
        case True
        have "begun (at_client b) sid ?es = 0"
          using net_begun [OF step(2,4) assms(3), of b] e Opens True by simp
        with silent [OF _ lim step(1)] e Opens True show ?thesis by simp
      qed (use step(5) e Opens in simp)
    qed (use step(5) e in simp_all)
  qed (use step(5) in simp)
qed

text \<open>The two cases of \<open>net_departed\<close> as one: the frames are a prefix of a line, with or without SYN.\<close>

lemma net_arrived_line:
  fixes n :: "('fc, 'dc, 'ac) net"
  assumes "net_limits cfg log" "net_run B F D A (net_new F A cfg) log n" "sid \<noteq> 0"
  obtains here ps where "concat ps = bytes_written sid (events_of (other b) log)"
    "here \<Longrightarrow> Opens sid \<in> set (events_of (other b) log)"
    "prefix (of_stream sid (arrived (events_of b log)))
       ((if here then [new_syn (config_version (cfg (other b))) sid] else []) @
        map (new_psh 1 sid) ps @ [new_fin 1 sid])"
proof -
  let ?w = "bytes_written sid (events_of (other b) log)"
  obtain fs where "departed (events_of (other b) log) = arrived (events_of b log) @ fs"
    using net_arrived [OF assms(1,2)] by metis
  then have pre: "prefix (of_stream sid (arrived (events_of b log)))
      (of_stream sid (departed (events_of (other b) log)))" by (simp add: prefix_of_stream)
  show thesis
  proof (rule net_departed [OF assms net_begun [OF assms, of "other b"]])
    fix ps assume "concat ps = ?w" "prefix (of_stream sid (departed (events_of (other b) log)))
      ((if Opens sid \<in> set (events_of (other b) log) then [new_syn (config_version (cfg (other b))) sid]
        else []) @ map (new_psh 1 sid) ps @ [new_fin 1 sid])"
    with pre that [of ps "Opens sid \<in> set (events_of (other b) log)"] show thesis
      by (meson prefix_order.trans)
  next
    assume "?w = []" "prefix (of_stream sid (departed (events_of (other b) log))) [new_fin 1 sid]"
    with pre that [of "[]" False] show thesis by (auto intro: prefix_order.trans)
  qed
qed

lemma net_fed:
  fixes n :: "('fc, 'dc, 'ac) net"
  assumes "net_limits cfg log" "net_run B F D A (net_new F A cfg) log n" "sid \<noteq> 0"
  shows "fed (at_client b) sid (events_of b log) =
         (if begun (at_client b) sid (events_of b log) = 0 then Unborn
          else fold (feed_frame (at_client b)) (of_stream sid (arrived (events_of b log)))
                 (if peer_id (at_client b) sid then Unborn else Live []))"
proof (cases "peer_id (at_client b) sid")
  case True
  with net_opened(2) [OF assms(1,2) True] have "Opens sid \<notin> set (events_of b log)"
    by (auto simp: count_list_0_iff set_opened_ids)
  from fed_peer [OF this] fed_Unborn_iff [of "at_client b" sid "events_of b log"] True show ?thesis by simp
qed (use net_fed_own [OF assms] in simp)

lemma net_carries:
  fixes n :: "('fc, 'dc, 'ac) net"
  assumes "net_limits cfg log" "net_run B F D A (net_new F A cfg) log n" "sid \<noteq> 0"
  shows "carries (fed (at_client b) sid (events_of b log)) (bytes_written sid (events_of (other b) log))"
proof (cases "begun (at_client b) sid (events_of b log) = 0")
  case True
  with net_fed [OF assms, of b] show ?thesis by (simp add: carries_def)
next
  case False
  obtain here ps where ps: "concat ps = bytes_written sid (events_of (other b) log)"
    "here \<Longrightarrow> Opens sid \<in> set (events_of (other b) log)"
    "prefix (of_stream sid (arrived (events_of b log)))
       ((if here then [new_syn (config_version (cfg (other b))) sid] else []) @
        map (new_psh 1 sid) ps @ [new_fin 1 sid])"
    using net_arrived_line [OF assms] by metis
  have "\<not> here" if "\<not> peer_id (at_client b) sid"
  proof
    assume here
    have "peer_id (at_client (other b)) sid" using that assms(3) by (simp add: peer_id_def)
    with net_opened(2) [OF assms(1,2) this] ps(2) [OF \<open>here\<close>] show False
      by (auto simp: count_list_0_iff set_opened_ids)
  qed
  with carries_line [OF ps(3), of "if peer_id (at_client b) sid then Unborn else Live []" "at_client b"]
    net_fed [OF assms, of b] ps(1) False
  show ?thesis by auto
qed

end

section \<open>Nothing under way\<close>

text \<open>
  No frame is under way to a side: the other side's send task is alive and has sent everything, the
  transport has carried it, and everything that came in has been handled.
\<close>

definition settled ::
    "('fc, frame) flume_api \<Rightarrow> ('fc, 'dc, 'ac) net \<Rightarrow> peer \<Rightarrow> bool" where
  "settled F n b \<longleftrightarrow>
     send_at (side n (other b)) \<notin> {S_exit, S_done} \<and> queued F (side n (other b)) = [] \<and>
     carried n (other b) = length (wire (side n (other b))) \<and> inbuf n b = []"

context session_env
begin

text \<open>The frames that were put into the frame channel feed the other side with all that was written.\<close>

lemma net_feed_sent:
  fixes n :: "('fc, 'dc, 'ac) net"
  assumes "net_limits cfg log" "net_run B F D A (net_new F A cfg) log n" "sid \<noteq> 0"
    and "send_at (side n (other b)) \<notin> {S_exit, S_done}"
  shows "feed_bytes (fold (feed_frame (at_client b))
           (of_stream sid (departed (events_of (other b) log) @ queued F (side n (other b))))
           (if peer_id (at_client b) sid then Unborn else Live [])) =
         bytes_written sid (events_of (other b) log)"
proof -
  let ?es = "events_of (other b) log"
  let ?bg = "begun (at_client (other b)) sid ?es \<noteq> 0" and ?here = "Opens sid \<in> set ?es"
  have lim: "limits_ok (cfg (other b)) ?es" using assms(1) by (simp add: net_limits_def)
  obtain fs where fs: "fs = departed ?es @ queued F (side n (other b))"
    "said (config_version (cfg (other b))) sid ?here ?bg (bytes_written sid ?es)
       (of_stream sid fs) (filter_mset (\<lambda>r. part_id r = sid) (parts A (side n (other b))))"
    using run_sent [OF lim net_side_state(1) [OF assms(1,2)] assms(3) net_begun [OF assms(1-3)]] assms(4)
    by blast
  have "?here = ?bg" if "peer_id (at_client b) sid"
  proof -
    from that have "\<not> peer_id (at_client (other b)) sid" by (auto simp: peer_id_def)
    then show ?thesis by (simp add: begun_eq count_list_0_iff set_opened_ids)
  qed
  moreover have "\<not> ?here" if "\<not> peer_id (at_client b) sid"
  proof -
    have "peer_id (at_client (other b)) sid" using that assms(3) by (simp add: peer_id_def)
    from net_opened(2) [OF assms(1,2) this] show ?thesis by (simp add: count_list_0_iff set_opened_ids)
  qed
  ultimately show ?thesis
    using feed_said [OF fs(2), of "if peer_id (at_client b) sid then Unborn else Live []" "at_client b"] fs(1)
    by auto
qed

lemma net_settled:
  fixes n :: "('fc, 'dc, 'ac) net"
  assumes "net_limits cfg log" "net_run B F D A (net_new F A cfg) log n" "sid \<noteq> 0" "settled F n b"
    and "begun (at_client b) sid (events_of b log) \<noteq> 0"
  shows "feed_bytes (fed (at_client b) sid (events_of b log)) = bytes_written sid (events_of (other b) log)"
proof -
  obtain gs where gs: "departed (events_of (other b) log) = arrived (events_of b log) @ gs"
    "inbuf n b @ drop (carried n (other b)) (wire (side n (other b))) = concat (map wire_bytes gs)"
    using net_arrived [OF assms(1,2), of b] by blast
  have "gs = []"
  proof (cases gs)
    case (Cons g gs')
    with gs(2) assms(4) have "length (wire_bytes g) = 0" by (simp add: settled_def)
    then show ?thesis by (simp add: length_wire_bytes HEADER_SIZE_def)
  qed simp
  with net_feed_sent [OF assms(1-3), of b] net_fed [OF assms(1-3), of b] gs(1) assms(4,5)
  show ?thesis by (simp add: settled_def)
qed

end

section \<open>Executions of a network\<close>

datatype net_action = At peer action | Carry peer | Deliver peer

fun net_perform ::
    "bytes_api \<Rightarrow> ('fc, frame) flume_api \<Rightarrow> ('dc, bytes) flume_api \<Rightarrow> ('ac, stream) flume_api
     \<Rightarrow> net_action \<Rightarrow> ('fc, 'dc, 'ac) net \<Rightarrow> ((peer \<times> event) list \<times> ('fc, 'dc, 'ac) net) option" where
  "net_perform B F D A (At b a) n =
     (case perform B F D A a (side n b) of
        None \<Rightarrow> None
      | Some (e, s) \<Rightarrow> if is_arrival e then None else Some ([(b, e)], n\<lparr>side := (side n)(b := s)\<rparr>))"
| "net_perform B F D A (Carry b) n =
     (let k = length (wire (side n b)) - carried n b in if 0 < k then Some ([], carry b k n) else None)"
| "net_perform B F D A (Deliver b) n =
     (case decode B (codec_at n b) (inbuf n b) of
        (rest, Inr (Some f)) \<Rightarrow>
          (case perform B F D A (Do_arrive f) (side n b) of
             None \<Rightarrow> None
           | Some (e, s) \<Rightarrow>
               Some ([(b, Arrives f)], n\<lparr>side := (side n)(b := s), inbuf := (inbuf n)(b := rest)\<rparr>))
      | _ \<Rightarrow> None)"

fun net_execute ::
    "bytes_api \<Rightarrow> ('fc, frame) flume_api \<Rightarrow> ('dc, bytes) flume_api \<Rightarrow> ('ac, stream) flume_api
     \<Rightarrow> net_action list \<Rightarrow> ('fc, 'dc, 'ac) net \<Rightarrow> ((peer \<times> event) list \<times> ('fc, 'dc, 'ac) net) option" where
  "net_execute B F D A [] n = Some ([], n)"
| "net_execute B F D A (a # as) n =
     (case net_perform B F D A a n of
        None \<Rightarrow> None
      | Some (l, n') \<Rightarrow> map_option (apfst ((@) l)) (net_execute B F D A as n'))"

lemma perform_arrive: "perform B F D A (Do_arrive f) s = Some (e, s') \<Longrightarrow> e = Arrives f"
  by (auto split: recv_pc.splits prod.splits)

lemma net_perform_step: "net_perform B F D A a n = Some (l, n') \<Longrightarrow> net_step B F D A n l n'"
proof (cases a)
  case (At b x)
  assume "net_perform B F D A a n = Some (l, n')"
  with At show ?thesis
    by (auto split: option.splits if_splits intro!: net_local perform_step)
next
  case (Carry b)
  assume "net_perform B F D A a n = Some (l, n')"
  with Carry show ?thesis by (auto simp: Let_def split: if_splits intro!: net_carry)
next
  case (Deliver b)
  assume "net_perform B F D A a n = Some (l, n')"
  with Deliver obtain rest f e s where "decode B (codec_at n b) (inbuf n b) = (rest, Inr (Some f))"
    "perform B F D A (Do_arrive f) (side n b) = Some (e, s)" "l = [(b, Arrives f)]"
    "n' = n\<lparr>side := (side n)(b := s), inbuf := (inbuf n)(b := rest)\<rparr>"
    by (auto simp del: perform.simps split: prod.splits sum.splits option.splits)
  with perform_arrive [OF this(2)] perform_step [OF this(2)] show ?thesis
    by (simp add: net_arrives del: perform.simps)
qed

lemma net_run_append:
  "\<lbrakk>net_run B F D A n log n'; net_run B F D A n' log' n''\<rbrakk> \<Longrightarrow> net_run B F D A n (log @ log') n''"
proof (rotate_tac, induction rule: net_run.induct)
  case (net_snoc n' log' n1 l n'')
  then show ?case using net_run.net_snoc by (metis append_assoc)
qed simp

lemma net_execute_run: "net_execute B F D A as n = Some (log, n') \<Longrightarrow> net_run B F D A n log n'"
proof (induction as arbitrary: n log)
  case (Cons a as)
  then obtain l n1 log1 where "net_perform B F D A a n = Some (l, n1)" "log = l @ log1"
    "net_execute B F D A as n1 = Some (log1, n')"
    by (auto simp del: net_perform.simps split: option.splits)
  with net_run_append [OF net_snoc [OF net_nil net_perform_step]] Cons.IH show ?case by fastforce
qed (simp add: net_nil)

type_synonym list_net = "(frame lchan, bytes lchan, stream lchan) net"

abbreviation demo_net :: "config \<Rightarrow> list_net" where
  "demo_net cfg \<equiv> net_new list_chan list_chan (\<lambda>b. cfg)"

abbreviation demo_net_run :: "list_net \<Rightarrow> (peer \<times> event) list \<Rightarrow> list_net \<Rightarrow> bool" where
  "demo_net_run \<equiv> net_run list_bytes list_chan list_chan list_chan"

abbreviation demo_net_execute ::
    "net_action list \<Rightarrow> list_net \<Rightarrow> ((peer \<times> event) list \<times> list_net) option" where
  "demo_net_execute \<equiv> net_execute list_bytes list_chan list_chan list_chan"

lemma all_peers: "(\<forall>b. P b) \<longleftrightarrow> P Client \<and> P Server"
  using enum_all_peer_def [of P] by simp

lemmas net_exec_simps =
  exec_simps net_new_def carry_def codec_at_def decode_def decode_header_def u16_from_le_bytes_def
  u32_from_le_bytes_def from_byte_def HEADER_SIZE_def

section \<open>Properties\<close>

text \<open>
  End to end: between a client and a server joined by a transport, however the steps of the two
  sides, of the transport and of the two applications interleave, what a side reads from a stream is a
  prefix of what the other side wrote to it, in both directions; and a reader that is told of the end
  of the stream has got everything that was written.
\<close>

lemma reader_gets_what_was_written:
  fixes n :: "('fc, 'dc, 'ac) net"
  assumes "session_env B F D A" "net_limits cfg log" "net_run B F D A (net_new F A cfg) log n"
    and "sid \<noteq> 0" "\<not> list_ex (empty_read sid) (events_of b log)"
  shows "prefix (bytes_read sid (events_of b log)) (bytes_written sid (events_of (other b) log)) \<and>
         (end_seen sid (events_of b log) \<longrightarrow>
            bytes_read sid (events_of b log) = bytes_written sid (events_of (other b) log))"
proof -
  have lim: "limits_ok (cfg b) (events_of b log)" using assms(2) by (simp add: net_limits_def)
  from session_env.run_told [OF assms(1) lim session_env.net_side_state(1) [OF assms(1-3)]
      session_env.net_begun [OF assms(1-4)] assms(5)]
  have "prefix (bytes_read sid (events_of b log)) (feed_bytes (fed (at_client b) sid (events_of b log)))"
    "end_seen sid (events_of b log) \<Longrightarrow>
     fed (at_client b) sid (events_of b log) = Ended (bytes_read sid (events_of b log))"
    by (simp_all add: told_def)
  with session_env.net_carries [OF assms(1-4), of b] show ?thesis
    by (auto simp: carries_def intro: prefix_order.trans)
qed

lemma reader_gets_what_was_written_witness:
  "\<exists>log n. demo_net_run (demo_net config_default) log n \<and>
     bytes_written 1 (events_of Client log) = [5, 6, 7] \<and> bytes_read 1 (events_of Server log) = [5, 6, 7]"
proof -
  obtain log n where x: "demo_net_execute [At Client Do_open, At Client (Do_open_send 0),
      At Client Do_send, At Client Do_send, At Client Do_send, Carry Client, At Server Do_recv,
      Deliver Server, At Server Do_accept, At Server (Do_accept_select 0), At Server (Do_accept_poll 0),
      At Client (Do_write 0 [5, 6, 7]), At Client (Do_op 0 Op_shutdown), At Client Do_send,
      At Client Do_send, At Client Do_send, At Client Do_send, At Client Do_send, At Client Do_send, Carry Client,
      At Server Do_recv, Deliver Server, At Server (Do_read 0 2), At Server Do_recv, Deliver Server,
      At Server (Do_read 0 4), At Server (Do_read 0 4)] (demo_net config_default) = Some (log, n)"
    and s: "net_limits (\<lambda>b. config_default) log" "\<not> list_ex (empty_read 1) (events_of Server log)"
      "end_seen 1 (events_of Server log)" "bytes_read 1 (events_of Server log) = [5, 6, 7]"
    by (simp add: net_exec_simps net_limits_def all_peers limits_ok_def traffic_def id_limit_def
        end_seen_def bytes_read_def)
  note r = net_execute_run [OF x]
  from reader_gets_what_was_written [OF lse.session_env_axioms s(1) r, of 1 Server] r s(2-4)
  show ?thesis by auto
qed

end
