(* ===== verification/Pipes.thy ===== *)
theory Pipes
  imports Transfers
begin

text \<open>
  What a pair of connected sessions is meant to be, as an abstract machine: for every stream and each of
  its two directions a pipe of bytes. Writing puts bytes in at one end, reading takes them out at the other
  end in the same order, and the reader is told of the end only when the pipe is empty, after which nothing
  more is written. Every run of a network is accepted by this machine.
\<close>

section \<open>Pipes\<close>

record pipe =
  in_pipe :: bytes
  ended :: bool

definition pipe_new :: pipe where
  "pipe_new = \<lparr>in_pipe = [], ended = False\<rparr>"

text \<open>The pipe of a stream from the side \<open>w\<close> to the other one; what the machine does not allow is \<open>None\<close>.\<close>

fun pipe_step :: "peer \<Rightarrow> u32 \<Rightarrow> peer \<times> event \<Rightarrow> pipe \<Rightarrow> pipe option" where
  "pipe_step w sid (c, Writes sid' bs) p =
     (if c \<noteq> w \<or> sid' \<noteq> sid then Some p
      else if ended p \<and> bs \<noteq> [] then None
      else Some (p\<lparr>in_pipe := in_pipe p @ bs\<rparr>))"
| "pipe_step w sid (c, Reads sid' n r) p =
     (if c = w \<or> sid' \<noteq> sid then Some p
      else if end_event sid (Reads sid' n r) then
        (if in_pipe p = [] then Some (p\<lparr>ended := True\<rparr>) else None)
      else if prefix (poll_data r) (in_pipe p) then
        Some (p\<lparr>in_pipe := drop (length (poll_data r)) (in_pipe p)\<rparr>)
      else None)"
| "pipe_step w sid (c, e) p = Some p"

fun pipe_run :: "peer \<Rightarrow> u32 \<Rightarrow> (peer \<times> event) list \<Rightarrow> pipe \<Rightarrow> pipe option" where
  "pipe_run w sid [] p = Some p"
| "pipe_run w sid (x # log) p = Option.bind (pipe_step w sid x p) (pipe_run w sid log)"

lemma pipe_run_append: "pipe_run w sid (log @ log') p = Option.bind (pipe_run w sid log p) (pipe_run w sid log')"
  by (induction log arbitrary: p) (simp_all split: Option.bind_split)

text \<open>The abstraction: what has been written and not been read is in the pipe.\<close>

definition pipe_of :: "peer \<Rightarrow> u32 \<Rightarrow> (peer \<times> event) list \<Rightarrow> pipe \<Rightarrow> bool" where
  "pipe_of w sid log p \<longleftrightarrow>
     bytes_written sid (events_of w log) = bytes_read sid (events_of (other w) log) @ in_pipe p \<and>
     (ended p \<longleftrightarrow> end_seen sid (events_of (other w) log))"

lemma prefix_append_drop [simp]: "prefix xs ys \<Longrightarrow> xs @ drop (length xs) ys = ys"
  by (auto simp: prefix_def)

text \<open>A step keeps it, if what has been read stays a part of what has been written.\<close>

lemma pipe_step_of:
  assumes "pipe_of w sid log p"
    and "prefix (bytes_read sid (events_of (other w) (log @ [x]))) (bytes_written sid (events_of w (log @ [x])))"
    and "end_seen sid (events_of (other w) (log @ [x])) \<longrightarrow>
         bytes_read sid (events_of (other w) (log @ [x])) = bytes_written sid (events_of w (log @ [x]))"
  shows "\<exists>p'. pipe_step w sid x p = Some p' \<and> pipe_of w sid (log @ [x]) p'"
proof (cases x)
  case (Pair c e)
  with assms show ?thesis
    by (cases rule: peer_cases [of c w]; cases e) (auto simp: pipe_of_def)
qed

section \<open>Properties\<close>

text \<open>
  C3. A pair of connected sessions is a family of pipes: for every identifier other than zero and each
  direction, as long as the reading side has not polled a stream of this identifier with an empty buffer
  (which can lose data, as the theorem \<open>read_zero_loses_held_chunk\<close> shows) and the run stays within the
  limits on traffic, identifiers and frame sizes, every step of the two sides, of the transport and of the two applications, in whatever way they
  interleave, is one that the abstract pipe allows. Its content is at every moment what was written and not
  yet read, its reader is told of the end only after it has read everything, and nothing is written after
  that.
\<close>

lemma networks_refine_pipes:
  fixes n :: "('fc, 'dc, 'ac) net"
  assumes "session_env B F D A" "net_run B F D A (net_new F A cfg) log n" "net_limits cfg log"
    and "sid \<noteq> 0" "\<not> list_ex (empty_read sid) (events_of (other w) log)"
  shows "\<exists>p. pipe_run w sid log pipe_new = Some p \<and>
           bytes_written sid (events_of w log) = bytes_read sid (events_of (other w) log) @ in_pipe p \<and>
           (ended p \<longleftrightarrow> end_seen sid (events_of (other w) log))"
proof -
  have "\<exists>p. pipe_run w sid log pipe_new = Some p \<and> pipe_of w sid log p"
    using assms(2,3,5)
  proof (induction "net_new F A cfg :: ('fc, 'dc, 'ac) net" log n rule: net_run.induct)
    case (net_snoc log n l n')
    note run = net_run.net_snoc [OF net_snoc(1,3)]
    from net_snoc obtain p where p: "pipe_run w sid log pipe_new = Some p" "pipe_of w sid log p"
      using net_limits_prefix by auto
    show ?case
    proof (cases l)
      case Nil
      with p show ?thesis by simp
    next
      case (Cons x xs)
      with net_snoc(3) have l: "l = [x]" by (auto elim: net_step.cases)
      from reader_gets_what_was_written [OF assms(1) net_snoc.prems(1) run assms(4), of "other w"] net_snoc.prems(2) l
      show ?thesis using p pipe_step_of [OF p(2), of x] by (auto simp: pipe_run_append)
    qed
  qed (simp add: pipe_of_def pipe_new_def bytes_read_def bytes_written_def end_seen_def)
  then show ?thesis by (auto simp: pipe_of_def)
qed

lemma networks_refine_pipes_witness:
  "\<exists>log n. demo_net_run (demo_net config_default) log n \<and>
     pipe_run Client 1 log pipe_new = Some \<lparr>in_pipe = [7], ended = False\<rparr>"
proof -
  obtain log n where x: "demo_net_execute [At Client Do_open, At Client (Do_open_send 0),
      At Client (Do_write 0 [5, 6, 7]), At Client Do_send, At Client Do_send, At Client Do_send,
      At Client Do_send, At Client Do_send, At Client Do_send, Carry Client, At Server Do_recv,
      Deliver Server, At Server Do_accept, At Server (Do_accept_select 0), At Server (Do_accept_poll 0),
      At Server Do_recv, Deliver Server, At Server (Do_read 0 2)] (demo_net config_default) = Some (log, n)"
    and s: "net_limits (\<lambda>b. config_default) log" "\<not> list_ex (empty_read 1) (events_of (other Client) log)"
      "\<not> end_seen 1 (events_of Server log)" "bytes_read 1 (events_of Server log) = [5, 6]"
      "bytes_written 1 (events_of Client log) = [5, 6, 7]"
    by (simp add: net_exec_simps net_limits_def all_peers limits_ok_def traffic_def id_limit_def
        end_seen_def bytes_read_def bytes_written_def)
  note r = net_execute_run [OF x]
  from networks_refine_pipes [OF lse.session_env_axioms r s(1) _ s(2)] obtain p where
    "pipe_run Client 1 log pipe_new = Some p" "[5, 6, 7] = [5, 6] @ in_pipe p" "\<not> ended p"
    using s(3-5) by auto
  moreover from this(2,3) have "p = \<lparr>in_pipe = [7], ended = False\<rparr>" by simp
  ultimately show ?thesis using r by blast
qed

end
