(* ===== verification/Conformance.thy ===== *)
theory Conformance
  imports Transfers
begin

text \<open>
  What may be in the frame channel: under a configuration whose frame size the header's length field can
  express, every frame that a stream or a task puts there is acceptable and fits, so the encoder never
  refuses one, and the codec of a peer with the same limits reads it back.
\<close>

section \<open>The frames of a step\<close>

definition wire_config :: "config \<Rightarrow> bool" where
  "wire_config cfg \<longleftrightarrow>
     config_version cfg \<noteq> 0 \<and> HEADER_SIZE \<le> max_frame_size cfg \<and>
     max_frame_size cfg \<le> HEADER_SIZE + 65535"

lemma encodable_new:
  assumes "wire_config cfg"
  shows "encodable cfg (new_nop (config_version cfg))"
    "sid \<noteq> 0 \<Longrightarrow> encodable cfg (new_syn (config_version cfg) sid)"
    "sid \<noteq> 0 \<Longrightarrow> encodable cfg (new_fin 1 sid)"
    "\<lbrakk>sid \<noteq> 0; length bs \<le> max_frame_size cfg - HEADER_SIZE\<rbrakk> \<Longrightarrow> encodable cfg (new_psh 1 sid bs)"
  using assms
  by (auto simp: wire_config_def encodable_def frame_valid_def frame_new_defs wire_payload_def)

lemma part_step_frames:
  assumes "part_step c v e fs W W'" "f \<in> set fs"
  obtains "f = new_nop v"
  | r where "r \<in># W" "f = new_syn v (part_id r)"
  | r where "r \<in># W" "f = new_fin 1 (part_id r)"
  | r bs where "r \<in># W" "f = new_psh 1 (part_id r) bs" "e = Writes (part_id r) bs"
  using assms by (cases rule: part_step.cases) force+

lemma part_step_ids:
  assumes "part_step c v e fs W W'" "\<forall>r \<in># W. part_id r \<noteq> 0" "0 \<notin> set (opened_event e)"
  shows "\<forall>r \<in># W'. part_id r \<noteq> 0"
  using assms
  by (induction rule: part_step.induct) (auto simp: peer_id_def dest!: in_diffD)

context session_env
begin

lemma step_writes:
  assumes "step B F D A s (Writes sid bs) s'"
  shows "length bs \<le> max_frame_size (session_config (inner s)) - HEADER_SIZE"
proof -
  have app: "app_step B F D A s (Writes sid bs) s'"
    using assms by (auto simp: step_def elim: recv_step.cases send_step.cases keep_step.cases)
  have "length (accepted_bytes buf r) \<le> max_frame_size cfg - HEADER_SIZE"
    if "poll_write F cfg st fc ss buf = (fc', r)" for cfg st fc ss buf fc' r
    using that by (auto simp: poll_write_def Let_def split: if_splits prod.splits send_result.splits)
  with app show ?thesis by (auto elim!: app_step.cases)
qed

lemma run_conforms:
  fixes s :: "('fc, 'dc, 'ac) system"
  assumes "limits_ok cfg es" "logged_run B F D A (system_new F A cfg client) es fs s"
    and "wire_config cfg" "length (opened_ids es) < id_limit"
  shows "(\<forall>f \<in> set fs. encodable cfg f) \<and> (\<forall>r \<in># parts A s. part_id r \<noteq> 0)"
  using assms(1,2,4)
proof (induction rule: logged_new_induct)
  case start
  show ?case by (simp add: parts_new)
next
  case (step es fs s e s')
  have IH: "\<forall>f \<in> set fs. encodable cfg f" "\<forall>r \<in># parts A s. part_id r \<noteq> 0"
    using step(7,8) by simp_all
  have pos: "0 < max_receive_channel_buffer_size cfg" using step(2) by (simp add: limits_ok_def)
  have cfg: "session_config (inner s) = cfg" using step(4) by (simp add: run_state_def)
  have ps: "part_step client (config_version cfg) e (added F s s') (parts A s) (parts A s')"
    using step_parts [OF step(3,4,6) pos refl] by blast
  have "encodable cfg f" if "f \<in> set (added F s s')" for f
    using part_step_frames [OF ps that]
  proof cases
    case (4 r bs)
    with step_writes [of s "part_id r" bs s'] step(3) cfg encodable_new(4) [OF assms(3)] IH(2)
    show ?thesis by simp
  qed (use encodable_new [OF assms(3)] IH(2) in simp_all)
  moreover have "0 \<notin> set (opened_event e)"
    using run_ids_distinct [OF step(2) run_snoc [OF step(1,3)] step(8)] by auto
  ultimately show ?case using IH part_step_ids [OF ps IH(2)] by auto
qed

lemma queued_conforms:
  fixes s :: "('fc, 'dc, 'ac) system"
  assumes "limits_ok cfg es" "run B F D A (system_new F A cfg client) es s"
    and "wire_config cfg" "length (opened_ids es) < id_limit"
    and "send_at s \<notin> {S_exit, S_done}" "f \<in> set (queued F s)"
  shows "encodable cfg f"
proof -
  obtain fs where fs: "logged_run B F D A (system_new F A cfg client) es fs s"
    using run_logged [OF assms(2)] by blast
  from run_conforms [OF assms(1) fs assms(3,4)] run_log [OF assms(1) fs] assms(5,6)
  show ?thesis by auto
qed

end

section \<open>Properties\<close>

text \<open>
  C16. Frames are well typed: in every run under a configuration whose version is not zero and whose
  frame size the header can express, and with fewer than 2147483646 streams opened, each frame that is
  queued or being sent is acceptable; the encoder writes it in full, and a decoder of the same
  configuration reads exactly this frame back and leaves the bytes behind it alone.
\<close>

lemma queued_frames_fit_the_format:
  fixes s :: "('fc, 'dc, 'ac) system"
  assumes "session_env B F D A" "limits_ok cfg es"
    and "run B F D A (system_new F A cfg client) es s"
    and "wire_config cfg" "length (opened_ids es) < id_limit"
    and "send_at s \<notin> {S_exit, S_done}" "f \<in> set (queued F s)"
  shows "frame_validate f cfg = Inr () \<and>
         encode B (codec_new cfg) f dst = (dst @ wire_bytes f, Inr ()) \<and>
         decode B (codec_new cfg) (wire_bytes f @ rest) = (rest, Inr (Some f))"
proof -
  have enc: "encodable cfg f" by (rule session_env.queued_conforms [OF assms])
  have "bytes_crate B" by (rule session_env.axioms(1) [OF assms(1), THEN stream_env.axioms(1)])
  from bytes_crate.encode_encodable [OF this enc] bytes_crate.decode_wire_bytes [OF this enc] enc
  show ?thesis by (simp add: frame_validate_Inr_iff encodable_def)
qed

lemma queued_frames_fit_the_format_witness:
  "\<exists>es s. demo_run (demo config_default) es s \<and>
     queued list_chan s = [new_syn 1 1, new_psh 1 1 [1, 2, 3], new_fin 1 1] \<and>
     frame_validate (new_psh 1 1 [1, 2, 3]) config_default = Inr ()"
proof -
  obtain es s where x: "demo_execute [Do_open, Do_open_send 0, Do_send, Do_send, Do_write 0 [1, 2, 3],
      Do_op 0 Op_shutdown] (demo config_default) = Some (es, s)"
    and s: "limits_ok config_default es" "length (opened_ids es) < id_limit" "send_at s \<notin> {S_exit, S_done}"
      "queued list_chan s = [new_syn 1 1, new_psh 1 1 [1, 2, 3], new_fin 1 1]"
    by (simp add: exec_simps limits_ok_def traffic_def id_limit_def queued_def)
  note r = execute_run [OF x]
  have c: "wire_config config_default" by (simp add: wire_config_def config_default_def HEADER_SIZE_def)
  have f: "new_psh 1 1 [1, 2, 3] \<in> set (queued list_chan s)" by (simp add: s(4))
  from queued_frames_fit_the_format [OF lse.session_env_axioms s(1) r [unfolded demo_def] c s(2,3) f] r s(4)
  show ?thesis by blast
qed

end
