(* ===== verification/Progress.thy ===== *)
theory Progress
  imports Conformance
begin

text \<open>
  The machines of a network on their own: the tasks of both sides and the transport, without the
  applications, the clock and failures. They do a bounded amount of work and then rest, and when they
  rest, what was written on one side is at the reader on the other.
\<close>

section \<open>Machine steps\<close>

fun automatic :: "event \<Rightarrow> bool" where
  "automatic Internal = True"
| "automatic (Arrives f) = True"
| "automatic (Departs f) = True"
| "automatic _ = False"

lemma app_not_automatic: "app_step B F D A s e s' \<Longrightarrow> \<not> automatic e"
  by (auto elim: app_step.cases)

definition machine_step ::
    "bytes_api \<Rightarrow> ('fc, frame) flume_api \<Rightarrow> ('dc, bytes) flume_api \<Rightarrow> ('ac, stream) flume_api
     \<Rightarrow> ('fc, 'dc, 'ac) net \<Rightarrow> (peer \<times> event) list \<Rightarrow> ('fc, 'dc, 'ac) net \<Rightarrow> bool" where
  "machine_step B F D A n l n' \<longleftrightarrow>
     net_step B F D A n l n' \<and> list_all (\<lambda>x. automatic (snd x)) l \<and> n' \<noteq> n"

inductive machine_run ::
    "bytes_api \<Rightarrow> ('fc, frame) flume_api \<Rightarrow> ('dc, bytes) flume_api \<Rightarrow> ('ac, stream) flume_api
     \<Rightarrow> ('fc, 'dc, 'ac) net \<Rightarrow> nat \<Rightarrow> (peer \<times> event) list \<Rightarrow> ('fc, 'dc, 'ac) net \<Rightarrow> bool"
  for B :: bytes_api and F :: "('fc, frame) flume_api" and D :: "('dc, bytes) flume_api"
    and A :: "('ac, stream) flume_api" where
  machine_nil: "machine_run B F D A n 0 [] n"
| machine_snoc:
    "\<lbrakk>machine_run B F D A n k log n'; machine_step B F D A n' l n''\<rbrakk>
     \<Longrightarrow> machine_run B F D A n (Suc k) (log @ l) n''"

text \<open>Nothing is left to do.\<close>

definition resting ::
    "bytes_api \<Rightarrow> ('fc, frame) flume_api \<Rightarrow> ('dc, bytes) flume_api \<Rightarrow> ('ac, stream) flume_api
     \<Rightarrow> ('fc, 'dc, 'ac) net \<Rightarrow> bool" where
  "resting B F D A n \<longleftrightarrow> (\<forall>l n'. \<not> machine_step B F D A n l n')"

section \<open>The work that is left\<close>

text \<open>
  A queued frame is taken out, written, carried and received: each of its bytes counts twice until it
  is carried and once in the buffer of the receiver, whose eight bytes of header or more pay for the
  steps of the receive task.
\<close>

definition frame_work :: "frame \<Rightarrow> nat" where
  "frame_work f = 2 * length (wire_bytes f) + 3"

fun recv_work :: "recv_pc \<Rightarrow> nat" where
  "recv_work R_done = 0"
| "recv_work (R_select g) = 1"
| "recv_work R_top = 2"
| "recv_work _ = 3"

fun keep_work :: "keep_pc \<Rightarrow> nat" where
  "keep_work K_done = 0"
| "keep_work (K_select g) = 1"
| "keep_work K_top = 2"
| "keep_work (K_ping f) = 3 + frame_work f"

definition queue_work :: "frame list \<Rightarrow> nat" where
  "queue_work fs = sum_list (map frame_work fs)"

fun send_work :: "send_pc \<Rightarrow> nat \<Rightarrow> nat" where
  "send_work S_done q = 0"
| "send_work S_exit q = 1"
| "send_work (S_select g) q = 2 + q"
| "send_work S_top q = 3 + q"
| "send_work (S_sending f) q = 1 + frame_work f + q"

definition system_work :: "('fc, frame) flume_api \<Rightarrow> ('fc, 'dc, 'ac) system \<Rightarrow> nat" where
  "system_work F s =
     recv_work (recv_at s) + keep_work (keep_at s) +
     send_work (send_at s) (queue_work (contents F (frame_ch (inner s))))"

definition peer_work :: "('fc, frame) flume_api \<Rightarrow> ('fc, 'dc, 'ac) net \<Rightarrow> peer \<Rightarrow> nat" where
  "peer_work F n b =
     system_work F (side n b) + 2 * (length (wire (side n b)) - carried n b) + length (inbuf n b)"

definition net_work :: "('fc, frame) flume_api \<Rightarrow> ('fc, 'dc, 'ac) net \<Rightarrow> nat" where
  "net_work F n = peer_work F n Client + peer_work F n Server"

lemma net_work_peer: "net_work F n = peer_work F n b + peer_work F n (other b)"
  by (cases b) (simp_all add: net_work_def)

lemma bytes_read_append: "bytes_read sid (es @ es') = bytes_read sid es @ bytes_read sid es'"
  by (simp add: bytes_read_def)

lemma send_work_mono: "q \<le> q' \<Longrightarrow> send_work pc q \<le> send_work pc q'"
  by (cases pc) simp_all

lemma send_work_add: "send_work pc (q + d) \<le> send_work pc q + d"
  by (cases pc) simp_all

lemma queue_work_simps [simp]:
  "queue_work [] = 0" "queue_work (f # fs) = frame_work f + queue_work fs"
  "queue_work (fs @ gs) = queue_work fs + queue_work gs"
  by (simp_all add: queue_work_def)

text \<open>
  The bounds of a network from a state on: the receive buffers, the traffic so far and the work that
  is left, which bounds the traffic to come, stay below the token counter's overflow.
\<close>

definition net_room ::
    "('fc, frame) flume_api \<Rightarrow> (peer \<Rightarrow> config) \<Rightarrow> (peer \<times> event) list \<Rightarrow> ('fc, 'dc, 'ac) net \<Rightarrow> bool" where
  "net_room F cfg log n \<longleftrightarrow>
     (\<forall>b. 0 < max_receive_channel_buffer_size (cfg b) \<and> 0 < max_receive_buffer (cfg b) \<and>
          max_receive_buffer (cfg b) + traffic (events_of b log) + net_work F n < 2 ^ 63 \<and>
          max_frame_size (cfg b) \<le> HEADER_SIZE + 65535 \<and>
          length (opened_ids (events_of b log)) < id_limit)"

lemma net_room_limits: "net_room F cfg log n \<Longrightarrow> net_limits cfg log"
  by (auto simp: net_room_def net_limits_def limits_ok_def intro: le_less_trans [OF le_add1])

lemma traffic_single: "traffic [e] = event_bytes e" "traffic [] = 0"
  by (simp_all add: traffic_def)

context session_env
begin

text \<open>The steps of the three tasks.\<close>

lemma recv_step_work:
  assumes "recv_step F D A s e s'" "run_state F D A cfg c s" "run_state F D A cfg c s'"
  shows "system_work F s' \<le> system_work F s + 2"
    "\<lbrakk>automatic e; \<not> is_arrival e; s' \<noteq> s\<rbrakk> \<Longrightarrow> system_work F s' < system_work F s"
proof -
  have ch: "frame_ch (inner s') = frame_ch (inner s)"
    using recv_step_frame_ch [OF assms(1)] assms(2) by (simp add: run_state_def)
  have same: "send_at s' = send_at s" "keep_at s' = keep_at s"
    using assms(1) by (auto elim: recv_step.cases)
  have after: "recv_work (recv_after out) \<le> 3" for out by (cases out) simp_all
  have recv: "recv_work (recv_at s') \<le> recv_work (recv_at s) + 2"
    using assms(1)
    by (induction rule: recv_step.induct) (auto intro: order_trans [OF after])
  with ch same show "system_work F s' \<le> system_work F s + 2" by (simp add: system_work_def)
  have "recv_work (recv_at s') < recv_work (recv_at s)"
    if "automatic e" "\<not> is_arrival e" "s' \<noteq> s"
    using assms(1-2) that
  proof (induction rule: recv_step.induct)
    case (recv_accept s st i out)
    have wf: "session_wf D A (inner s)" using recv_accept(3) by (simp add: run_state_def system_wf_def)
    from syn_send_cases [OF wf recv_accept(2)] recv_accept(1,6) show ?case
      by (auto split: if_splits)
  qed (auto simp: run_state_def system_wf_def recv_ok_def)
  with ch same show "system_work F s' < system_work F s" if "automatic e" "\<not> is_arrival e" "s' \<noteq> s"
    using that by (simp add: system_work_def)
qed

lemma send_step_work:
  assumes "send_step B F s e s'" "automatic e"
  shows "system_work F s' + 2 * length (wire s') < system_work F s + 2 * length (wire s)"
  using assms
proof (induction rule: send_step.induct)
  case (send_frame s g fc f)
  then show ?case
    by (cases rule: frames.recv_cases [of "frame_ch (inner s)"])
      (auto simp: system_work_def)
next
  case (send_write s f bs)
  then have "bs = wire_bytes f" by (auto simp: bytes.encode_eq frame_validate_Inr_iff split: if_splits)
  with send_write show ?case by (simp add: system_work_def frame_work_def)
qed (auto simp: system_work_def send_end_def send_return_def frame_work_def)

lemma keep_step_work:
  assumes "keep_step F s e s'" "automatic e" "capacity F (frame_ch (inner s)) \<noteq> Some 0"
  shows "system_work F s' < system_work F s"
  using assms
proof (induction rule: keep_step.induct)
  case (keep_sends s f fc sent)
  have "queue_work (contents F fc) \<le> queue_work (contents F (frame_ch (inner s))) + frame_work f"
    by (cases rule: frames.send_cases [OF keep_sends(4), of f])
      (use keep_sends(2) in \<open>auto simp: send_async_def\<close>)
  then have "send_work (send_at s) (queue_work (contents F fc)) \<le>
      send_work (send_at s) (queue_work (contents F (frame_ch (inner s)))) + frame_work f"
    using send_work_mono send_work_add le_trans by blast
  with keep_sends(1) show ?case by (simp add: system_work_def)
qed (auto simp: system_work_def)

lemma automatic_step_work:
  assumes "step B F D A s e s'" "automatic e" "\<not> is_arrival e" "s' \<noteq> s"
    and "run_state F D A cfg c s" "run_state F D A cfg c s'" "0 < max_receive_channel_buffer_size cfg"
  shows "system_work F s' + 2 * length (wire s') < system_work F s + 2 * length (wire s)"
proof -
  have cap: "capacity F (frame_ch (inner s)) \<noteq> Some 0"
    using assms(5,7) by (simp add: run_state_def system_wf_def)
  have "\<not> app_step B F D A s e s'" using app_not_automatic assms(2) by blast
  moreover have ?thesis if "recv_step F D A s e s'"
  proof -
    have "wire s' = wire s" using that by (auto elim: recv_step.cases)
    with recv_step_work(2) [OF that assms(5,6,2-4)] show ?thesis by simp
  qed
  moreover have ?thesis if "keep_step F s e s'"
  proof -
    have "wire s' = wire s" using that by (auto elim: keep_step.cases)
    with keep_step_work [OF that assms(2) cap] show ?thesis by simp
  qed
  ultimately show ?thesis using assms(1) send_step_work [OF _ assms(2)] unfolding step_def by blast
qed

text \<open>A step of the network.\<close>

lemma net_arrives_work:
  assumes "decode B (codec_at n b) (inbuf n b) = (rest, Inr (Some f))"
  shows "length rest + 8 + length (frame_data f) \<le> length (inbuf n b)"
proof -
  have enc: "encodable (session_config (inner (side n b))) f" "inbuf n b = wire_bytes f @ rest"
    using assms by (simp_all add: codec_at_def bytes.decode_Some_iff)
  have "length (frame_data f) \<le> length (wire_payload f)"
    using enc(1) by (cases "frame_cmd f") (auto simp: wire_payload_def encodable_def frame_valid_def)
  with enc(2) show ?thesis by (simp add: length_wire_bytes HEADER_SIZE_def)
qed

lemma machine_step_work:
  fixes n :: "('fc, 'dc, 'ac) net"
  assumes "machine_step B F D A n l n'"
    and "net_run B F D A (net_new F A cfg) log n" "net_limits cfg log" "net_limits cfg (log @ l)"
  shows "net_work F n' + traffic (events_of b l) < net_work F n"
proof -
  have step: "net_step B F D A n l n'" and auto: "list_all (\<lambda>x. automatic (snd x)) l" and "n' \<noteq> n"
    using assms(1) by (simp_all add: machine_step_def)
  note st = net_side_state(2) [OF assms(3,2)] net_side_state(2) [OF assms(4) net_snoc [OF assms(2) step]]
  have pos: "0 < max_receive_channel_buffer_size (cfg c)" for c
    using assms(3) by (simp add: net_limits_def limits_ok_def)
  from step show ?thesis
  proof cases
    case (net_local c e s)
    have "s \<noteq> side n c" using \<open>n' \<noteq> n\<close> net_local(2) by (auto simp: fun_upd_triv)
    with automatic_step_work [OF net_local(3) _ net_local(4) _ st(1) _ pos] st(2) [of c] net_local(1,2) auto
    have "system_work F s + 2 * length (wire s) < system_work F (side n c) + 2 * length (wire (side n c))"
      by simp
    moreover have "carried n c \<le> length (wire (side n c))"
      using net_flow [OF assms(3,2), of "other c"] by (simp add: flow_def)
    moreover have "length (wire (side n c)) \<le> length (wire s)"
      using step_wire [OF net_local(3)] by auto
    moreover have "traffic (events_of b l) = 0"
      using net_local(1,4) auto by (cases e) (auto simp: traffic_def)
    ultimately show ?thesis
      by (simp add: net_work_peer [of F _ c] peer_work_def net_local(2))
  next
    case (net_carry k c)
    then show ?thesis
      by (simp add: net_work_peer [of F _ c] peer_work_def carry_def traffic_single)
  next
    case (net_arrives c rest f s)
    have recv: "recv_step F D A (side n c) (Arrives f) s"
      using net_arrives(4) by (rule arrival_step)
    then have "wire s = wire (side n c)" by (auto elim: recv_step.cases)
    moreover have "system_work F s \<le> system_work F (side n c) + 2"
      using recv_step_work(1) [OF recv st(1)] st(2) [of c] net_arrives(2) by simp
    moreover have "traffic (events_of b l) \<le> length (frame_data f)"
      using net_arrives(1) by (simp add: traffic_def)
    ultimately show ?thesis
      using net_arrives_work [OF net_arrives(3)]
      by (simp add: net_work_peer [of F _ c] peer_work_def net_arrives(2))
  qed
qed

lemma automatic_log:
  "list_all (\<lambda>x. automatic (snd x)) l \<Longrightarrow> opened_ids (events_of b l) = []"
  "list_all (\<lambda>x. automatic (snd x)) l \<Longrightarrow> bytes_written sid (events_of b l) = []"
proof (induction l)
  case (Cons x l)
  obtain c e where x: "x = (c, e)" by fastforce
  { case 1
    with Cons x show ?case by (cases e) auto
  next
    case 2
    with Cons x show ?case by (cases e) (auto simp: bytes_written_def) }
qed simp_all

lemma machine_step_room:
  fixes n :: "('fc, 'dc, 'ac) net"
  assumes "machine_step B F D A n l n'" "net_run B F D A (net_new F A cfg) log n" "net_room F cfg log n"
  shows "net_room F cfg (log @ l) n'" "net_work F n' < net_work F n"
    "bytes_written sid (events_of b (log @ l)) = bytes_written sid (events_of b log)"
    "opened_ids (events_of b (log @ l)) = opened_ids (events_of b log)"
proof -
  have step: "net_step B F D A n l n'" and auto: "list_all (\<lambda>x. automatic (snd x)) l"
    using assms(1) by (simp_all add: machine_step_def)
  have "traffic (events_of c l) \<le> net_work F n" for c
    using step auto
  proof cases
    case (net_local d e s)
    then show ?thesis using auto by (cases e) (auto simp: traffic_def)
  next
    case (net_arrives d rest f s)
    with net_arrives_work [OF net_arrives(3)] show ?thesis
      by (cases "d = c") (simp_all add: traffic_def net_work_peer [of F _ d] peer_work_def)
  qed (simp add: traffic_def)
  moreover have room: "max_receive_buffer (cfg c) + traffic (events_of c log) + net_work F n < 2 ^ 63" for c
    using assms(3) by (simp add: net_room_def)
  ultimately have "max_receive_buffer (cfg c) + traffic (events_of c (log @ l)) < 2 ^ 63" for c
    using room [of c] by (metis (no_types, lifting) add.assoc add_le_cancel_left events_of_simps(2) order_le_less_trans traffic_append)
  with assms(3) automatic_log(1) [OF auto] have "net_limits cfg (log @ l)"
    by (simp add: net_limits_def net_room_def limits_ok_def)
  note work = machine_step_work [OF assms(1,2) net_room_limits [OF assms(3)] this]
  from work [of Client] show "net_work F n' < net_work F n" by simp
  have "max_receive_buffer (cfg c) + traffic (events_of c (log @ l)) + net_work F n' < 2 ^ 63" for c
    using work [of c] room [of c] by simp
  with assms(3) automatic_log(1) [OF auto] show "net_room F cfg (log @ l) n'"
    by (simp add: net_room_def)
  show "bytes_written sid (events_of b (log @ l)) = bytes_written sid (events_of b log)"
    using automatic_log(2) [OF auto, of sid b] by (simp add: bytes_written_def)
  show "opened_ids (events_of b (log @ l)) = opened_ids (events_of b log)"
    using automatic_log(1) [OF auto] by simp
qed

lemma machine_run_room:
  fixes n :: "('fc, 'dc, 'ac) net"
  assumes "machine_run B F D A n k log' n'" "net_run B F D A (net_new F A cfg) log n"
    and "net_room F cfg log n"
  shows "net_run B F D A (net_new F A cfg) (log @ log') n' \<and> net_room F cfg (log @ log') n' \<and>
         k + net_work F n' \<le> net_work F n \<and>
         (\<forall>b sid. bytes_written sid (events_of b (log @ log')) = bytes_written sid (events_of b log))"
  using assms
proof (induction rule: machine_run.induct)
  case (machine_snoc n k log' n' l n'')
  then have IH: "net_run B F D A (net_new F A cfg) (log @ log') n'" "net_room F cfg (log @ log') n'"
    "k + net_work F n' \<le> net_work F n"
    "\<forall>b sid. bytes_written sid (events_of b (log @ log')) = bytes_written sid (events_of b log)"
    by simp_all
  have "net_step B F D A n' l n''" using machine_snoc(2) by (simp add: machine_step_def)
  with IH(1) have "net_run B F D A (net_new F A cfg) ((log @ log') @ l) n''" by (rule net_snoc)
  with IH machine_step_room [OF machine_snoc(2) IH(1,2)] show ?case by fastforce
qed simp

text \<open>Machine steps close nothing.\<close>

lemma automatic_step_open:
  assumes "step B F D A s e s'" "automatic e" "run_state F D A cfg c s" "\<not> closed (shared (inner s))"
    and "\<And>f. send_at s = S_sending f \<Longrightarrow> encodable cfg f"
  shows "\<not> closed (shared (inner s'))"
proof -
  have wf: "session_wf D A (inner s)" "notified_ok (shared (inner s))"
    "recv_ok (recv_at s) (shared (inner s))" "\<not> waits_for_tokens (recv_at s)"
    "send_ok F (send_at s) (shared (inner s)) (frame_ch (inner s))" "session_config (inner s) = cfg"
    using assms(3) by (simp_all add: run_state_def system_wf_def)
  have die: "die_notified (shared (inner s)) = 0" using wf(2) assms(4) by (simp add: notified_ok_def)
  have ?thesis if "recv_step F D A s e s'"
    using that wf assms(2,4) die
  proof (induction rule: recv_step.induct)
    case (recv_arrives s g f i out)
    let ?i = "(inner s)\<lparr>shared := mark_data_received (shared (inner s))\<rparr>"
    have "handle_frame F D A f ?i = (i, out)" "session_wf D A ?i"
      using recv_arrives(2,3) by (auto simp: recv_frame_def intro: session_wf_fields)
    from handle_frame_keeps(5) [OF this(2,1)] recv_arrives show ?case by (simp add: mark_data_received_def)
  next
    case (recv_accept s st i out)
    from syn_send_cases [OF recv_accept(3,2)] have "i = (inner s)\<lparr>accept_ch := accept_ch i\<rparr>" by blast
    then have "shared i = shared (inner s)"
      by (metis session_inner.select_convs(7) session_inner.surjective session_inner.update_convs(3))
    with recv_accept show ?case by simp
  qed (auto simp: recv_ok_def)
  moreover have ?thesis if "send_step B F s e s'"
    using that wf assms(2,4,5) die
  proof (induction rule: send_step.induct)
    case (send_none s g fc)
    then show ?case
      by (cases rule: frames.recv_cases [of "frame_ch (inner s)"]) (auto simp: send_ok_def)
  next
    case (send_refused s f bs e)
    then have "encodable cfg f" by simp
    with send_refused show ?case by (simp add: bytes.encode_encodable)
  qed (auto simp: send_ok_def send_return_def)
  moreover have ?thesis if "keep_step F s e s'"
    using that assms(2,4) by (induction rule: keep_step.induct) auto
  moreover have "\<not> app_step B F D A s e s'" using app_not_automatic assms(2) by blast
  ultimately show ?thesis using assms(1) unfolding step_def by blast
qed

lemma machine_run_open:
  fixes n :: "('fc, 'dc, 'ac) net"
  assumes "machine_run B F D A n k log' n'" "net_run B F D A (net_new F A cfg) log n"
    and "net_room F cfg log n" "\<forall>b. wire_config (cfg b)" "\<forall>b. \<not> closed (shared (inner (side n b)))"
  shows "\<not> closed (shared (inner (side n' b)))"
  using assms
proof (induction arbitrary: b rule: machine_run.induct)
  case (machine_snoc n k log' n' l n'')
  have open': "\<not> closed (shared (inner (side n' c)))" for c
    using machine_snoc.IH machine_snoc.prems by blast
  note room = machine_run_room [OF machine_snoc(1) machine_snoc.prems(1,2)]
  have lim: "net_limits cfg (log @ log')" using room net_room_limits by blast
  have run: "net_run B F D A (net_new F A cfg) (log @ log') n'" using room by blast
  have "encodable (cfg c) f" if "send_at (side n' c) = S_sending f" for c f
    using lim machine_snoc.prems(3) that
    by (intro queued_conforms [OF _ net_side_state(1) [OF lim run]]) (auto simp: net_limits_def queued_def)
  note keeps = automatic_step_open [OF _ _ net_side_state(2) [OF lim run] open' this]
  from machine_snoc(2) have step: "net_step B F D A n' l n''" and auto: "list_all (\<lambda>x. automatic (snd x)) l"
    by (simp_all add: machine_step_def)
  from step show ?case
  proof cases
    case (net_local c e s)
    with keeps [OF net_local(3)] auto open' show ?thesis by simp
  next
    case (net_carry k c)
    with open' show ?thesis by (simp add: carry_def)
  next
    case (net_arrives c rest f s)
    with keeps [OF net_arrives(4)] open' show ?thesis by simp
  qed
qed simp

lemma machine_rests:
  fixes n :: "('fc, 'dc, 'ac) net"
  assumes "net_run B F D A (net_new F A cfg) log n" "net_room F cfg log n"
  shows "\<exists>k log' n'. machine_run B F D A n k log' n' \<and> resting B F D A n'"
proof -
  have "\<exists>k n'. (\<exists>log'. machine_run B F D A n k log' n') \<and> resting B F D A n'"
  proof (rule bounded_run_ends)
    show "\<exists>log'. machine_run B F D A n 0 log' n" using machine_nil by blast
  next
    fix k n' assume "\<exists>log'. machine_run B F D A n k log' n'"
    with machine_run_room [OF _ assms] show "k \<le> net_work F n" by fastforce
  next
    fix k n' assume "\<exists>log'. machine_run B F D A n k log' n'" "\<not> resting B F D A n'"
    with machine_snoc show "\<exists>n''. \<exists>log'. machine_run B F D A n (Suc k) log' n''"
      unfolding resting_def by blast
  qed
  then show ?thesis by blast
qed

section \<open>A network that rests has delivered\<close>

lemma restingD:
  "\<lbrakk>resting B F D A n; net_step B F D A n l n'; list_all (\<lambda>x. automatic (snd x)) l\<rbrakk> \<Longrightarrow> n' = n"
  by (auto simp: resting_def machine_step_def)

lemma resting_side:
  assumes "resting B F D A n" "step B F D A (side n b) e s" "automatic e" "\<not> is_arrival e"
  shows "s = side n b"
proof -
  have "n\<lparr>side := (side n)(b := s)\<rparr> = n"
    by (rule restingD [OF assms(1) net_local [OF assms(2,4)]]) (simp add: assms(3))
  then show ?thesis by (metis fun_upd_same net.select_convs(1) net.surjective net.update_convs(1))
qed

lemma resting_accept:
  fixes n :: "('fc, 'dc, 'ac) net"
  assumes "resting B F D A n" "run_state F D A cfg c (side n b)" "recv_at (side n b) = R_accept st"
  shows "16 \<le> length (contents A (accept_ch (inner (side n b))))"
proof -
  have wf: "session_wf D A (inner (side n b))" using assms(2) by (simp add: run_state_def system_wf_def)
  obtain i out where send: "syn_send F D A st (inner (side n b)) = (i, out)" by fastforce
  have "step B F D A (side n b) Internal ((side n b)\<lparr>inner := i, recv_at := recv_after out\<rparr>)"
    using recv_accept [OF assms(3) send] by (simp add: step_def)
  from resting_side [OF assms(1) this] have "recv_after out = R_accept st"
    using assms(3) by (auto dest: arg_cong [of _ _ recv_at])
  with syn_send_cases [OF wf send] have "\<not> has_room A (accept_ch (inner (side n b)))"
    by (auto split: if_splits)
  with wf show ?thesis by (simp add: session_wf_def accept_wf_def has_room_def)
qed

text \<open>Everything written has been carried, and no frame that came in is still to be received.\<close>

lemma resting_carried:
  assumes "resting B F D A n" "carried n b \<le> length (wire (side n b))"
  shows "carried n b = length (wire (side n b))"
proof (rule ccontr)
  assume "carried n b \<noteq> length (wire (side n b))"
  with assms(2) have "carried n b + 1 \<le> length (wire (side n b))" by simp
  from restingD [OF assms(1) net_carry [OF _ this]] have "carry b 1 n = n" by simp
  then have "carried (carry b 1 n) b = carried n b" by simp
  then show False by (simp add: carry_def)
qed

lemma resting_decoded:
  fixes n :: "('fc, 'dc, 'ac) net"
  assumes "resting B F D A n" "run_state F D A cfg c (side n b)" "recv_at (side n b) \<noteq> R_done"
    and "\<forall>st. recv_at (side n b) \<noteq> R_accept st"
  shows "decode B (codec_at n b) (inbuf n b) \<noteq> (rest, Inr (Some f))"
proof
  assume dec: "decode B (codec_at n b) (inbuf n b) = (rest, Inr (Some f))"
  have "recv_at (side n b) \<noteq> R_top"
  proof
    assume top: "recv_at (side n b) = R_top"
    from resting_side [OF assms(1), of b Internal] recv_top [OF top, of F D A] top show False
      by (fastforce simp: step_def dest: arg_cong [of _ _ recv_at])
  qed
  moreover have "recv_ok (recv_at (side n b)) (shared (inner (side n b)))" "\<not> waits_for_tokens (recv_at (side n b))"
    using assms(2) by (simp_all add: run_state_def system_wf_def)
  ultimately obtain g where g: "recv_at (side n b) = R_select g"
    using assms(3,4) by (cases "recv_at (side n b)") (auto simp: recv_ok_def)
  obtain i out where "recv_frame F D A f (inner (side n b)) = (i, out)" by fastforce
  from recv_arrives [OF g this] have "step B F D A (side n b) (Arrives f)
      ((side n b)\<lparr>inner := i, recv_at := recv_after out\<rparr>)" by (simp add: step_def)
  from restingD [OF assms(1) net_arrives [OF dec this]] have "inbuf n b = rest"
    by simp (metis fun_upd_same net.select_convs(2) net.surjective net.update_convs(2))
  with net_arrives_work [OF dec] show False by simp
qed

lemma resting_settled:
  fixes n :: "('fc, 'dc, 'ac) net"
  assumes "net_run B F D A (net_new F A cfg) log n" "net_limits cfg log" "resting B F D A n"
    and "\<forall>b. \<not> closed (shared (inner (side n b)))"
    and "max_frame_size (cfg (other b)) \<le> max_frame_size (cfg b)"
    and "\<forall>st. recv_at (side n b) \<noteq> R_accept st"
  shows "settled F n b"
proof -
  let ?s = "side n (other b)"
  have st: "run_state F D A (cfg c) (at_client c) (side n c)" for c
    by (rule net_side_state(2) [OF assms(2,1)])
  have so: "send_ok F (send_at ?s) (shared (inner ?s)) (frame_ch (inner ?s))"
    using st [of "other b"] by (simp add: run_state_def system_wf_def)
  have alive: "send_at ?s \<notin> {S_exit, S_done}" using so assms(4) by (auto simp: send_ok_def)
  have stop: "s' = ?s" if "send_step B F ?s e s'" "automatic e" "\<not> is_arrival e" for e s'
    using resting_side [OF assms(3), of "other b" e s'] that by (simp add: step_def)
  obtain g where g: "send_at ?s = S_select g"
  proof (cases "send_at ?s")
    case S_top
    from stop [OF send_top [OF this]] S_top have False by (auto dest: arg_cong [of _ _ send_at])
    then show ?thesis ..
  next
    case (S_sending f)
    obtain bs r where e: "encode B (codec_new (session_config (inner ?s))) f [] = (bs, r)" by fastforce
    have False
    proof (cases r)
      case (Inl x)
      from stop [OF send_refused [OF S_sending e [unfolded Inl]]] S_sending show False
        by (auto dest: arg_cong [of _ _ send_at])
    next
      case (Inr u)
      have "encode B (codec_new (session_config (inner ?s))) f [] = (bs, Inr ())" using e Inr by simp
      from stop [OF send_write [OF S_sending this]] S_sending show False
        by (auto dest: arg_cong [of _ _ send_at])
    qed
    then show ?thesis ..
  qed (use alive that in auto)
  have queue: "contents F (frame_ch (inner ?s)) = []"
  proof (cases rule: frames.recv_cases [of "frame_ch (inner ?s)"])
    case (message f fs fc)
    from stop [OF send_frame [OF g message(2)]] g have False by (auto dest: arg_cong [of _ _ send_at])
    then show ?thesis ..
  qed simp_all
  have fl: "carried n (other b) \<le> length (wire ?s)"
    using net_flow [OF assms(2,1), of b] by (simp add: flow_def)
  have carried: "carried n (other b) = length (wire ?s)" by (rule resting_carried [OF assms(3) fl])
  have "inbuf n b = []"
  proof (rule ccontr)
    assume ne: "inbuf n b \<noteq> []"
    obtain fs where fs: "departed (events_of (other b) log) = arrived (events_of b log) @ fs"
      "inbuf n b = concat (map wire_bytes fs)"
      "\<forall>f \<in> set (departed (events_of (other b) log)). encodable (cfg (other b)) f"
      using net_arrived [OF assms(2,1), of b] carried by auto
    from ne fs(2) obtain f fs' where f: "fs = f # fs'" by (cases fs) auto
    then have "encodable (cfg b) f" using fs(1,3) encodable_larger [OF _ assms(5)] by simp
    moreover have cfg: "session_config (inner (side n b)) = cfg b" using st [of b] by (simp add: run_state_def)
    ultimately have dec: "decode B (codec_at n b) (inbuf n b) = (concat (map wire_bytes fs'), Inr (Some f))"
      using fs(2) f by (simp add: codec_at_def bytes.decode_wire_bytes)
    have "recv_at (side n b) \<noteq> R_done"
      using st [of b] assms(4) by (auto simp: run_state_def system_wf_def recv_ok_def)
    from resting_decoded [OF assms(3) st this assms(6)] dec show False by blast
  qed
  with alive queue g carried show ?thesis by (simp add: settled_def queued_def)
qed

lemma automatic_reads:
  assumes "machine_run B F D A n k log n'"
  shows "bytes_read sid (events_of b log) = []" "list_ex (empty_read sid) (events_of b log) = False"
proof -
  have one: "bytes_read sid (events_of b l) = [] \<and> \<not> list_ex (empty_read sid) (events_of b l)"
    if "list_all (\<lambda>x. automatic (snd x)) l" for l
    using that
  proof (induction l)
    case (Cons x l)
    obtain c e where "x = (c, e)" by fastforce
    with Cons show ?case by (cases e) (auto simp: bytes_read_def)
  qed simp
  have "bytes_read sid (events_of b log) = [] \<and> \<not> list_ex (empty_read sid) (events_of b log)"
    using assms
  proof (induction rule: machine_run.induct)
    case (machine_snoc n k log n' l n'')
    with one [of l] show ?case by (simp add: machine_step_def bytes_read_def)
  qed simp
  then show "bytes_read sid (events_of b log) = []" "list_ex (empty_read sid) (events_of b log) = False"
    by simp_all
qed

lemma net_handle:
  fixes n :: "('fc, 'dc, 'ac) net"
  assumes "net_run B F D A (net_new F A cfg) log n" "net_limits cfg log" "wire_config (cfg b)"
    and "(st, closing) \<in> set (handles (side n b))"
    and "\<not> list_ex (empty_read (stream_id st)) (events_of b log)"
  shows "stream_id st \<noteq> 0" "begun (at_client b) (stream_id st) (events_of b log) \<noteq> 0"
    "bytes_read (stream_id st) (events_of b log) @ unread D st (data_chs (inner (side n b)) ! data_rx st) =
     feed_bytes (fed (at_client b) (stream_id st) (events_of b log))"
proof -
  have lim: "limits_ok (cfg b) (events_of b log)" "length (opened_ids (events_of b log)) < id_limit"
    using assms(2) by (simp_all add: net_limits_def)
  note run = net_side_state(1) [OF assms(2,1), of b]
  obtain fs where "logged_run B F D A (system_new F A (cfg b) (at_client b)) (events_of b log) fs (side n b)"
    using run_logged [OF run] by blast
  from run_conforms [OF lim(1) this assms(3) lim(2)]
  have "\<forall>r \<in># parts A (side n b). part_id r \<noteq> 0" by blast
  moreover have "owning (st, closing) \<in># parts A (side n b)" using assms(4) by (force simp: parts_def)
  ultimately show sid: "stream_id st \<noteq> 0" by (fastforce simp: owning_def)
  from run_handle [OF lim(1) run net_begun [OF assms(2,1) sid] assms(5,4)]
  show "begun (at_client b) (stream_id st) (events_of b log) \<noteq> 0"
    "bytes_read (stream_id st) (events_of b log) @ unread D st (data_chs (inner (side n b)) ! data_rx st) =
     feed_bytes (fed (at_client b) (stream_id st) (events_of b log))"
    by (simp_all add: fed_Unborn_iff)
qed

lemma settled_delivered:
  fixes n :: "('fc, 'dc, 'ac) net"
  assumes "net_run B F D A (net_new F A cfg) log n" "net_limits cfg log" "wire_config (cfg b)"
    and "settled F n b" "(st, closing) \<in> set (handles (side n b))"
    and "\<not> list_ex (empty_read (stream_id st)) (events_of b log)"
  shows "bytes_read (stream_id st) (events_of b log) @
           unread D st (data_chs (inner (side n b)) ! data_rx st) =
         bytes_written (stream_id st) (events_of (other b) log)"
proof -
  note handle = net_handle [OF assms(1-3,5,6)]
  show ?thesis using handle(3) net_settled [OF assms(2,1) handle(1) assms(4) handle(2)] by simp
qed

text \<open>A network in which every task waits or has ended and no byte is under way rests.\<close>

lemma idle_rests:
  assumes "\<And>b. recv_at (side n b) \<in> {R_select (die_notified (shared (inner (side n b)))), R_done}"
    and "\<And>b. send_at (side n b) \<in> {S_select (die_notified (shared (inner (side n b)))), S_done}"
    and "\<And>b. keep_at (side n b) \<in> {K_select (die_notified (shared (inner (side n b)))), K_done}"
    and "\<And>b. send_at (side n b) = S_done \<or>
           contents F (frame_ch (inner (side n b))) = [] \<and> \<not> senders_gone F (frame_ch (inner (side n b)))"
    and "\<And>b. inbuf n b = [] \<or> recv_at (side n b) = R_done" "\<And>b. carried n b = length (wire (side n b))"
  shows "resting B F D A n"
  unfolding resting_def
proof (intro allI notI)
  fix l n' assume "machine_step B F D A n l n'"
  then have step: "net_step B F D A n l n'" and auto: "list_all (\<lambda>x. automatic (snd x)) l"
    by (simp_all add: machine_step_def)
  from step show False
  proof cases
    case (net_local b e s)
    then have e: "automatic e" "\<not> is_arrival e" using auto by simp_all
    have "\<not> recv_step F D A (side n b) e s" using assms(1) [of b] e by (auto elim!: recv_step.cases)
    moreover have "\<not> send_step B F (side n b) e s"
      using assms(2) [of b] frames.recv_empty [of "frame_ch (inner (side n b))"] assms(4) [of b]
      by (auto elim!: send_step.cases)
    moreover have "\<not> keep_step F (side n b) e s" using assms(3) [of b] e by (auto elim!: keep_step.cases)
    moreover have "\<not> app_step B F D A (side n b) e s" using app_not_automatic e(1) by blast
    ultimately show False using net_local(3) unfolding step_def by blast
  next
    case (net_carry k b)
    then show False using assms(6) [of b] by simp
  next
    case (net_arrives b rest f s)
    have "recv_at (side n b) \<noteq> R_done"
      using arrival_step [OF net_arrives(4)] by (auto elim: recv_step.cases)
    with net_arrives_work [OF net_arrives(3)] assms(5) [of b] show False by simp
  qed
qed

end

section \<open>Properties\<close>

text \<open>
  C10. The machines come to rest: from every state of a network the two sides' tasks and the transport
  can take only boundedly many steps of their own, at most the work that is left, however they are
  scheduled; so every schedule of them ends, and ends in a state in which none of them can move.
\<close>

lemma machines_come_to_rest:
  fixes n :: "('fc, 'dc, 'ac) net"
  assumes "session_env B F D A" "net_run B F D A (net_new F A cfg) log n" "net_room F cfg log n"
  shows "(\<forall>k log' n'. machine_run B F D A n k log' n' \<longrightarrow> k \<le> net_work F n) \<and>
         (\<exists>k log' n'. machine_run B F D A n k log' n' \<and> resting B F D A n')"
  using session_env.machine_run_room [OF assms(1) _ assms(2,3)] session_env.machine_rests [OF assms]
  by fastforce

lemma machines_come_to_rest_witness:
  "\<exists>k log n. machine_run list_bytes list_chan list_chan list_chan (demo_net config_default) k log n \<and>
     resting list_bytes list_chan list_chan list_chan n \<and> k \<le> 14"
proof -
  have room: "net_room list_chan (\<lambda>b. config_default) [] (demo_net config_default)"
    "net_work list_chan (demo_net config_default) = 14"
    by (simp_all add: net_room_def net_work_def peer_work_def system_work_def net_new_def demo_defs
        HEADER_SIZE_def id_limit_def traffic_def)
  from machines_come_to_rest [OF lse.session_env_axioms net_nil room(1)] room(2) show ?thesis by metis
qed

text \<open>
  What was written is delivered: when the machines of a network whose sessions are open come to
  rest, both sessions are still open; and unless the receive task of a side waits because 16 streams
  wait there to be accepted, what the owner of a stream there has read and what is ready for it to read are together
  exactly what the other side wrote to the stream.
\<close>

lemma written_data_is_delivered:
  fixes n :: "('fc, 'dc, 'ac) net"
  assumes "session_env B F D A" "net_run B F D A (net_new F A cfg) log n" "net_room F cfg log n"
    and "\<forall>b. wire_config (cfg b)" "max_frame_size (cfg (other b)) \<le> max_frame_size (cfg b)"
    and "\<forall>b. \<not> session_is_closed (inner (side n b))"
    and "machine_run B F D A n k log' n'" "resting B F D A n'"
  shows "(\<forall>b. \<not> session_is_closed (inner (side n' b))) \<and>
         ((\<exists>st. recv_at (side n' b) = R_accept st) \<and>
            16 \<le> length (contents A (accept_ch (inner (side n' b)))) \<or>
          (\<forall>(st, closing) \<in> set (handles (side n' b)).
             \<not> list_ex (empty_read (stream_id st)) (events_of b log) \<longrightarrow>
             bytes_read (stream_id st) (events_of b log) @
               unread D st (data_chs (inner (side n' b)) ! data_rx st) =
             bytes_written (stream_id st) (events_of (other b) log)))"
proof -
  note room = session_env.machine_run_room [OF assms(1,7,2,3)]
  have run: "net_run B F D A (net_new F A cfg) (log @ log') n'" and lim: "net_limits cfg (log @ log')"
    using room net_room_limits by blast+
  have "\<forall>b. \<not> closed (shared (inner (side n b)))"
    using assms(6) by (simp add: session_is_closed_def is_closed_def)
  then have open': "\<forall>b. \<not> closed (shared (inner (side n' b)))"
    using session_env.machine_run_open [OF assms(1,7,2,3,4)] by blast
  note quiet = session_env.automatic_reads [OF assms(1,7)]
  have "bytes_read (stream_id st) (events_of b log) @
          unread D st (data_chs (inner (side n' b)) ! data_rx st) =
        bytes_written (stream_id st) (events_of (other b) log)"
    if "\<nexists>st. recv_at (side n' b) = R_accept st" "(st, closing) \<in> set (handles (side n' b))"
      "\<not> list_ex (empty_read (stream_id st)) (events_of b log)" for st closing
  proof -
    have settled: "settled F n' b"
      using session_env.resting_settled [OF assms(1) run lim assms(8) open' assms(5)] that(1) by blast
    from session_env.settled_delivered [OF assms(1) run lim _ settled that(2)] that(3) assms(4)
      quiet room show ?thesis by (simp add: bytes_read_append)
  qed
  moreover have "16 \<le> length (contents A (accept_ch (inner (side n' b))))"
    if "recv_at (side n' b) = R_accept st" for st
    using session_env.resting_accept [OF assms(1,8) session_env.net_side_state(2) [OF assms(1) lim run] that] .
  ultimately show ?thesis using open' by (fastforce simp: session_is_closed_def is_closed_def)
qed

lemma written_data_is_delivered_witness:
  "\<exists>log n st. demo_net_run (demo_net config_default) log n \<and> (st, False) \<in> set (handles (side n Server)) \<and>
     bytes_read 1 (events_of Server log) = [5, 6] \<and>
     unread list_chan st (data_chs (inner (side n Server)) ! data_rx st) = [7]"
proof -
  obtain log n where x: "demo_net_execute [At Client Do_open, At Client (Do_open_send 0),
      At Client (Do_write 0 [5, 6, 7]), At Client Do_send, At Client Do_send, At Client Do_send,
      At Client Do_send, At Client Do_send, At Client Do_send, At Client Do_send, Carry Client,
      At Server Do_recv, Deliver Server, At Server Do_recv, Deliver Server, At Server Do_accept,
      At Server (Do_accept_select 0), At Server (Do_accept_poll 0), At Server (Do_read 0 2),
      At Server Do_recv, At Server Do_send, At Server Do_keep, At Client Do_recv, At Client Do_keep]
      (demo_net config_default) = Some (log, n)"
    and s: "net_room list_chan (\<lambda>b. config_default) log n"
      "bytes_read 1 (events_of Server log) = [5, 6]" "bytes_written 1 (events_of Client log) = [5, 6, 7]"
      "\<not> list_ex (empty_read 1) (events_of Server log)"
      "\<forall>b. \<not> session_is_closed (inner (side n b))" "recv_at (side n Server) = R_select 0"
    and h: "handles (side n Server) = [(stream_new 1 0\<lparr>current_chunk := Some [7]\<rparr>, False)]"
    and idle: "\<forall>b. recv_at (side n b) = R_select (die_notified (shared (inner (side n b))))"
      "\<forall>b. send_at (side n b) = S_select (die_notified (shared (inner (side n b))))"
      "\<forall>b. keep_at (side n b) \<in> {K_select (die_notified (shared (inner (side n b)))), K_done}"
      "\<forall>b. contents list_chan (frame_ch (inner (side n b))) = [] \<and>
           \<not> senders_gone list_chan (frame_ch (inner (side n b)))"
      "\<forall>b. inbuf n b = [] \<and> carried n b = length (wire (side n b))"
    by (simp add: net_exec_simps net_room_def all_peers traffic_def id_limit_def bytes_read_def
        bytes_written_def session_is_closed_def is_closed_def net_work_def peer_work_def system_work_def)
  note r = net_execute_run [OF x]
  have rest: "resting list_bytes list_chan list_chan list_chan n"
    by (rule lse.idle_rests) (use idle in blast)+
  have c: "\<forall>b. wire_config config_default" by (simp add: wire_config_def config_default_def HEADER_SIZE_def)
  from written_data_is_delivered [OF lse.session_env_axioms r s(1) c _ s(5) machine_nil rest, of Server]
  have "unread list_chan (stream_new 1 0\<lparr>current_chunk := Some [7]\<rparr>) (data_chs (inner (side n Server)) ! 0) = [7]"
    using s h by (simp add: stream_new_def)
  with r h s(2) show ?thesis by (force simp: stream_new_def)
qed

end
