(* ===== verification/Serving.thy ===== *)
theory Serving
  imports Progress
begin

text \<open>
  A network whose applications accept the streams that come in, as a server does that calls \<open>accept_stream\<close>
  of \<open>src/src/session.rs\<close> in a loop. No receive task waits for ever for room in the accept queue then: the
  machines and the accepting applications together come to rest, and when they rest every stream has been
  accepted and everything written has been delivered.
\<close>

section \<open>Accepting in a loop\<close>

text \<open>A call is made when none is under way; it enters its \<open>select!\<close> and takes a stream from the queue.\<close>

inductive accept_step ::
    "('ac, stream) flume_api \<Rightarrow> ('fc, 'dc, 'ac) system \<Rightarrow> event \<Rightarrow> ('fc, 'dc, 'ac) system \<Rightarrow> bool"
  for A :: "('ac, stream) flume_api" where
  loop_call:
    "\<lbrakk>accepting s = []; \<not> is_closed (shared (inner s))\<rbrakk> \<Longrightarrow>
     accept_step A s App (s\<lparr>accepting := [A_top]\<rparr>)"
| loop_select:
    "\<lbrakk>k < length (accepting s); accepting s ! k = A_top\<rbrakk> \<Longrightarrow>
     accept_step A s App (s\<lparr>accepting := (accepting s)[k := A_select (die_notified (shared (inner s)))]\<rparr>)"
| loop_accepted:
    "\<lbrakk>k < length (accepting s); accepting s ! k = A_select g;
      accept_select A (g < die_notified (shared (inner s))) first (inner s) = (i, Ready (Inr st))\<rbrakk> \<Longrightarrow>
     accept_step A s (Accepts (stream_id st))
       (s\<lparr>inner := i, accepting := remove_nth k (accepting s), handles := handles s @ [(st, False)]\<rparr>)"

lemma accept_step_step: "accept_step A s e s' \<Longrightarrow> step B F D A s e s'"
proof (induction rule: accept_step.induct)
  case (loop_call s)
  then show ?case using app_accept_call [of s B F D A] by (simp add: step_def)
qed (auto simp: step_def intro: app_accept_select app_accepted)

definition serving_step ::
    "bytes_api \<Rightarrow> ('fc, frame) flume_api \<Rightarrow> ('dc, bytes) flume_api \<Rightarrow> ('ac, stream) flume_api
     \<Rightarrow> ('fc, 'dc, 'ac) net \<Rightarrow> (peer \<times> event) list \<Rightarrow> ('fc, 'dc, 'ac) net \<Rightarrow> bool" where
  "serving_step B F D A n l n' \<longleftrightarrow>
     machine_step B F D A n l n' \<or>
     (\<exists>b e s. accept_step A (side n b) e s \<and> l = [(b, e)] \<and> n' = n\<lparr>side := (side n)(b := s)\<rparr>)"

inductive serving_run ::
    "bytes_api \<Rightarrow> ('fc, frame) flume_api \<Rightarrow> ('dc, bytes) flume_api \<Rightarrow> ('ac, stream) flume_api
     \<Rightarrow> ('fc, 'dc, 'ac) net \<Rightarrow> nat \<Rightarrow> (peer \<times> event) list \<Rightarrow> ('fc, 'dc, 'ac) net \<Rightarrow> bool"
  for B :: bytes_api and F :: "('fc, frame) flume_api" and D :: "('dc, bytes) flume_api"
    and A :: "('ac, stream) flume_api" where
  serving_nil: "serving_run B F D A n 0 [] n"
| serving_snoc:
    "\<lbrakk>serving_run B F D A n k log n'; serving_step B F D A n' l n''\<rbrakk>
     \<Longrightarrow> serving_run B F D A n (Suc k) (log @ l) n''"

definition served ::
    "bytes_api \<Rightarrow> ('fc, frame) flume_api \<Rightarrow> ('dc, bytes) flume_api \<Rightarrow> ('ac, stream) flume_api
     \<Rightarrow> ('fc, 'dc, 'ac) net \<Rightarrow> bool" where
  "served B F D A n \<longleftrightarrow> (\<forall>l n'. \<not> serving_step B F D A n l n')"

lemma accept_step_quiet:
  assumes "accept_step A s e s'"
  shows "\<not> is_arrival e" "event_bytes e = 0" "opened_event e = []" "written_event sid e = []"
    "read_event sid e = []" "\<not> empty_read sid e"
  using assms by (induction rule: accept_step.induct) simp_all

lemma serving_step_net: "serving_step B F D A n l n' \<Longrightarrow> net_step B F D A n l n'"
  using net_local [OF accept_step_step] accept_step_quiet(1)
  by (fastforce simp: serving_step_def machine_step_def)

section \<open>The work that is left\<close>

text \<open>
  A stream in the accept queue pays for the three steps that accept it. A step of the machines puts at
  most one stream there.
\<close>

fun call_work :: "accept_pc \<Rightarrow> nat" where
  "call_work A_top = 1"
| "call_work (A_select g) = 0"

definition accept_work :: "('ac, stream) flume_api \<Rightarrow> ('fc, 'dc, 'ac) system \<Rightarrow> nat" where
  "accept_work A s =
     3 * length (contents A (accept_ch (inner s))) + sum_list (map call_work (accepting s)) +
     (if accepting s = [] then 2 else 0)"

definition serving_work ::
    "('fc, frame) flume_api \<Rightarrow> ('ac, stream) flume_api \<Rightarrow> ('fc, 'dc, 'ac) net \<Rightarrow> nat" where
  "serving_work F A n =
     4 * net_work F n + accept_work A (side n Client) + accept_work A (side n Server)"

lemma serving_work_peer:
  "serving_work F A n = 4 * net_work F n + accept_work A (side n b) + accept_work A (side n (other b))"
  by (cases b) (simp_all add: serving_work_def)

lemma sum_list_remove_nth:
  fixes g :: "'a \<Rightarrow> nat"
  assumes "k < length xs"
  shows "sum_list (map g (remove_nth k xs)) + g (xs ! k) = sum_list (map g xs)"
proof -
  have "sum_list (map g xs) = sum_list (map g (take k xs @ xs ! k # drop (Suc k) xs))"
    using id_take_nth_drop [OF assms] by simp
  then show ?thesis by (simp add: remove_nth_def)
qed

context session_env
begin

lemma accept_step_work:
  assumes "accept_step A s e s'" "session_wf D A (inner s)"
  shows "accept_work A s' < accept_work A s"
  using assms
proof (induction rule: accept_step.induct)
  case (loop_select k s)
  with sum_list_replace [OF loop_select(1), of call_work "A_select (die_notified (shared (inner s)))"]
  show ?case by (auto simp: accept_work_def)
next
  case (loop_accepted k s g first i st)
  then have "contents A (accept_ch (inner s)) = st # contents A (accept_ch i)"
    using accept_select_cases [OF loop_accepted(4,3)] by blast
  with sum_list_remove_nth [OF loop_accepted(1), of call_work] loop_accepted(1,2)
  show ?case by (auto simp: accept_work_def)
qed (simp add: accept_work_def)

end

text \<open>The streams that the application holds and those on their way to it: none is lost.\<close>

definition incoming :: "('ac, stream) flume_api \<Rightarrow> ('fc, 'dc, 'ac) system \<Rightarrow> stream multiset" where
  "incoming A s =
     mset (recv_holds (recv_at s)) + mset (contents A (accept_ch (inner s))) + mset (map fst (handles s))"

context session_env
begin

lemma handle_frame_queue:
  assumes "session_wf D A s" "handle_frame F D A f s = (s', out)"
  shows "\<exists>sts. length sts \<le> 1 \<and> contents A (accept_ch s') = contents A (accept_ch s) @ sts"
proof (cases "frame_cmd f = Syn")
  case True
  then have run: "handle_syn_frame F D A f s = (s', out)" using assms(2) by (simp add: handle_frame_def)
  from assms(1) show ?thesis
    by (cases rule: handle_syn_cases [where f = f]) (use run in \<open>auto split: if_splits\<close>)
next
  case False
  with handle_other_accept [OF assms] show ?thesis by (intro exI [of _ "[]"]) simp
qed

lemma recv_step_incoming:
  assumes "recv_step F D A s e s'" "session_wf D A (inner s)"
  shows "incoming A s \<subseteq># incoming A s' \<and> accept_work A s' \<le> accept_work A s + 3"
  using assms
proof (induction rule: recv_step.induct)
  case (recv_arrives s g f i out)
  let ?i = "(inner s)\<lparr>shared := mark_data_received (shared (inner s))\<rparr>"
  have "handle_frame F D A f ?i = (i, out)" "session_wf D A ?i"
    using recv_arrives by (auto simp: recv_frame_def intro: session_wf_fields)
  from handle_frame_queue [OF this(2,1)] recv_arrives(1) show ?case
    by (auto simp: incoming_def accept_work_def recv_holds_def)
next
  case (recv_accept s st i out)
  from syn_send_cases [OF recv_accept(3,2)] recv_accept(1) show ?case
    by (auto simp: incoming_def accept_work_def recv_holds_def split: if_splits)
next
  case (recv_tokens s f g h i out)
  then have "accept_ch i = accept_ch (inner s)"
    using psh_deliver_shared [OF recv_tokens(4), of f i out]
    by (auto simp: psh_loop_def Let_def split: if_splits prod.splits)
  with recv_tokens(1) show ?case by (simp add: incoming_def accept_work_def recv_holds_def)
next
  case (recv_data s f i out)
  with psh_deliver_shared [OF recv_data(3,2)] show ?case
    by (simp add: incoming_def accept_work_def recv_holds_def)
qed (auto simp: incoming_def accept_work_def recv_holds_def recv_end_def psh_abandon_def)

text \<open>A step of one task, and a step of the machines of a network.\<close>

lemma automatic_step_incoming:
  assumes "step B F D A s e s'" "automatic e" "system_wf F D A s"
  shows "incoming A s \<subseteq># incoming A s' \<and> accept_work A s' \<le> accept_work A s + 3"
proof -
  have "\<not> app_step B F D A s e s'" using app_not_automatic assms(2) by blast
  moreover have ?thesis if "send_step B F s e s'"
    using that
    by (induction rule: send_step.induct)
      (auto simp: incoming_def accept_work_def send_end_def send_return_def)
  moreover have ?thesis if "keep_step F s e s'"
    using that by (induction rule: keep_step.induct) (auto simp: incoming_def accept_work_def)
  ultimately show ?thesis
    using assms(1,3) recv_step_incoming unfolding step_def system_wf_def by blast
qed

lemma accept_step_incoming:
  assumes "accept_step A s e s'" "session_wf D A (inner s)"
  shows "incoming A s' = incoming A s \<and> system_work F s' = system_work F s \<and> wire s' = wire s \<and>
         closed (shared (inner s')) = closed (shared (inner s))"
  using assms
proof (induction rule: accept_step.induct)
  case (loop_accepted k s g first i st)
  then have "contents A (accept_ch (inner s)) = st # contents A (accept_ch i)"
    "i = (inner s)\<lparr>accept_ch := accept_ch i\<rparr>"
    using accept_select_cases [OF loop_accepted(4,3)] by blast+
  moreover from this(2) have "frame_ch i = frame_ch (inner s)" "shared i = shared (inner s)"
    by (metis session_inner.ext_inject session_inner.surjective session_inner.update_convs(3))+
  ultimately show ?case by (simp add: incoming_def system_work_def)
qed (simp_all add: incoming_def system_work_def)


lemma machine_step_incoming:
  fixes n :: "('fc, 'dc, 'ac) net"
  assumes "machine_step B F D A n l n'" "\<And>b. system_wf F D A (side n b)"
  shows "incoming A (side n b) \<subseteq># incoming A (side n' b)"
    "accept_work A (side n' b) + accept_work A (side n' (other b)) \<le>
     accept_work A (side n b) + accept_work A (side n (other b)) + 3"
proof -
  from assms(1) have step: "net_step B F D A n l n'" and auto: "list_all (\<lambda>x. automatic (snd x)) l"
    by (simp_all add: machine_step_def)
  obtain c where c: "side n' (other c) = side n (other c)"
    "incoming A (side n c) \<subseteq># incoming A (side n' c)" "accept_work A (side n' c) \<le> accept_work A (side n c) + 3"
    using step
  proof cases
    case (net_local c e s)
    with automatic_step_incoming [OF net_local(3) _ assms(2)] auto that [of c] show ?thesis by simp
  next
    case (net_carry k c)
    with that [of c] show ?thesis by (simp add: carry_def)
  next
    case (net_arrives c rest f s)
    with automatic_step_incoming [OF net_arrives(4) _ assms(2)] auto that [of c] show ?thesis by simp
  qed
  then show "incoming A (side n b) \<subseteq># incoming A (side n' b)"
    by (cases rule: peer_cases [of b c]) auto
  from c show "accept_work A (side n' b) + accept_work A (side n' (other b)) \<le>
      accept_work A (side n b) + accept_work A (side n (other b)) + 3"
    by (cases rule: peer_cases [of b c]) auto
qed

lemma serving_step_room:
  fixes n :: "('fc, 'dc, 'ac) net"
  assumes "serving_step B F D A n l n'" "net_run B F D A (net_new F A cfg) log n" "net_room F cfg log n"
  shows "net_run B F D A (net_new F A cfg) (log @ l) n'" "net_room F cfg (log @ l) n'"
    "serving_work F A n' < serving_work F A n" "incoming A (side n b) \<subseteq># incoming A (side n' b)"
    "bytes_written sid (events_of b l) = []" "bytes_read sid (events_of b l) = []"
    "\<not> list_ex (empty_read sid) (events_of b l)"
proof -
  show run: "net_run B F D A (net_new F A cfg) (log @ l) n'"
    by (rule net_snoc [OF assms(2) serving_step_net [OF assms(1)]])
  note st = net_side_state(2) [OF net_room_limits [OF assms(3)] assms(2)]
  have wf: "system_wf F D A (side n c)" for c using st [of c] by (simp add: run_state_def)
  have "net_room F cfg (log @ l) n' \<and> serving_work F A n' < serving_work F A n \<and>
    incoming A (side n b) \<subseteq># incoming A (side n' b) \<and> bytes_written sid (events_of b l) = [] \<and>
    bytes_read sid (events_of b l) = [] \<and> \<not> list_ex (empty_read sid) (events_of b l)"
    using assms(1) unfolding serving_step_def
  proof (elim disjE exE conjE)
    assume m: "machine_step B F D A n l n'"
    note room = machine_step_room(1,2) [OF m assms(2,3)]
    from machine_step_incoming [OF m wf, where b = b] room automatic_reads [OF machine_snoc [OF machine_nil m]]
      automatic_log(2) [of l sid b] m
    show ?thesis by (simp add: serving_work_peer [of F A _ b] machine_step_def)
  next
    fix c e s assume s: "accept_step A (side n c) e s" "l = [(c, e)]" "n' = n\<lparr>side := (side n)(c := s)\<rparr>"
    have swf: "session_wf D A (inner (side n c))" using wf [of c] by (simp add: system_wf_def)
    note keeps = accept_step_incoming [OF s(1) swf]
    have "net_work F n' = net_work F n"
      using keeps s(3) by (simp add: net_work_peer [of F _ c] peer_work_def)
    moreover have "accept_work A (side n' c) < accept_work A (side n c)" "side n' (other c) = side n (other c)"
      using accept_step_work [OF s(1) swf] s(3) by simp_all
    ultimately show ?thesis
      using assms(3) keeps s(2,3) accept_step_quiet [OF s(1)]
      by (cases rule: peer_cases [of b c])
        (simp_all add: serving_work_peer [of F A _ c] net_room_def traffic_def bytes_written_def bytes_read_def)
  qed
  then show "net_room F cfg (log @ l) n'" "serving_work F A n' < serving_work F A n"
    "incoming A (side n b) \<subseteq># incoming A (side n' b)" "bytes_written sid (events_of b l) = []"
    "bytes_read sid (events_of b l) = []" "\<not> list_ex (empty_read sid) (events_of b l)" by simp_all
qed

lemma serving_run_room:
  fixes n :: "('fc, 'dc, 'ac) net"
  assumes "serving_run B F D A n k log' n'" "net_run B F D A (net_new F A cfg) log n" "net_room F cfg log n"
  shows "net_run B F D A (net_new F A cfg) (log @ log') n' \<and> net_room F cfg (log @ log') n' \<and>
         k + serving_work F A n' \<le> serving_work F A n \<and>
         (\<forall>b. incoming A (side n b) \<subseteq># incoming A (side n' b)) \<and>
         (\<forall>b sid. bytes_written sid (events_of b log') = [] \<and> bytes_read sid (events_of b log') = [] \<and>
                  \<not> list_ex (empty_read sid) (events_of b log'))"
  using assms
proof (induction rule: serving_run.induct)
  case serving_nil
  then show ?case by (simp add: bytes_written_def bytes_read_def)
next
  case (serving_snoc n k log' n' l n'')
  then have IH: "net_run B F D A (net_new F A cfg) (log @ log') n'" "net_room F cfg (log @ log') n'"
    "k + serving_work F A n' \<le> serving_work F A n" "\<forall>b. incoming A (side n b) \<subseteq># incoming A (side n' b)"
    "\<forall>b sid. bytes_written sid (events_of b log') = [] \<and> bytes_read sid (events_of b log') = [] \<and>
       \<not> list_ex (empty_read sid) (events_of b log')" by simp_all
  note step = serving_step_room [OF serving_snoc(2) IH(1,2)]
  have "incoming A (side n b) \<subseteq># incoming A (side n'' b)" for b
    using IH(4) step(4) subset_mset.trans by blast
  moreover have "bytes_written sid (events_of b (log' @ l)) = []" for b sid
    using IH(5) step(5) by (simp add: bytes_written_def)
  moreover have "Suc k + serving_work F A n'' \<le> serving_work F A n" using IH(3) step(3) by simp
  ultimately show ?case using IH(5) step(1,2,6,7) by (simp add: bytes_read_append)
qed

lemma serving_run_open:
  fixes n :: "('fc, 'dc, 'ac) net"
  assumes "serving_run B F D A n k log' n'" "net_run B F D A (net_new F A cfg) log n"
    and "net_room F cfg log n" "\<forall>b. wire_config (cfg b)" "\<forall>b. \<not> closed (shared (inner (side n b)))"
  shows "\<forall>b. \<not> closed (shared (inner (side n' b)))"
  using assms
proof (induction rule: serving_run.induct)
  case (serving_snoc n k log' n' l n'')
  then have open': "\<forall>b. \<not> closed (shared (inner (side n' b)))" by blast
  from serving_run_room [OF serving_snoc(1) serving_snoc.prems(1,2)]
  have run: "net_run B F D A (net_new F A cfg) (log @ log') n'" "net_room F cfg (log @ log') n'" by blast+
  from serving_snoc(2) show ?case
    unfolding serving_step_def
  proof (elim disjE exE conjE)
    assume m: "machine_step B F D A n' l n''"
    from machine_run_open [OF machine_snoc [OF machine_nil m] run serving_snoc.prems(3) open'] show ?thesis ..
  next
    fix c e s assume s: "accept_step A (side n' c) e s" "n'' = n'\<lparr>side := (side n')(c := s)\<rparr>"
    have "session_wf D A (inner (side n' c))"
      using net_side_state(2) [OF net_room_limits [OF run(2)] run(1), of c] by (simp add: run_state_def system_wf_def)
    from accept_step_incoming [OF s(1) this] open' s(2) show ?thesis by simp
  qed
qed simp

section \<open>A network that is served\<close>

lemma serving_rests:
  fixes n :: "('fc, 'dc, 'ac) net"
  assumes "net_run B F D A (net_new F A cfg) log n" "net_room F cfg log n"
  shows "\<exists>k log' n'. serving_run B F D A n k log' n' \<and> served B F D A n'"
proof -
  have "\<exists>k n'. (\<exists>log'. serving_run B F D A n k log' n') \<and> served B F D A n'"
  proof (rule bounded_run_ends)
    show "\<exists>log'. serving_run B F D A n 0 log' n" using serving_nil by blast
  next
    fix k n' assume "\<exists>log'. serving_run B F D A n k log' n'"
    with serving_run_room [OF _ assms] show "k \<le> serving_work F A n" by fastforce
  next
    fix k n' assume "\<exists>log'. serving_run B F D A n k log' n'" "\<not> served B F D A n'"
    with serving_snoc show "\<exists>n''. \<exists>log'. serving_run B F D A n (Suc k) log' n''"
      unfolding served_def by blast
  qed
  then show ?thesis by blast
qed

lemma served_resting: "served B F D A n \<Longrightarrow> resting B F D A n"
  by (auto simp: served_def serving_step_def resting_def)

lemma served_queue:
  assumes "served B F D A n" "\<not> closed (shared (inner (side n b)))"
  shows "contents A (accept_ch (inner (side n b))) = []"
proof (cases rule: accept.recv_cases [of "accept_ch (inner (side n b))"])
  case (message st sts ac)
  let ?s = "side n b"
  have no: "\<not> accept_step A ?s e s" for e s
    using assms(1) unfolding served_def serving_step_def by blast
  have "accepting ?s \<noteq> []" using no loop_call [of ?s A] assms(2) by (auto simp: is_closed_def)
  then have k: "0 < length (accepting ?s)" by simp
  show ?thesis
  proof (cases "accepting ?s ! 0")
    case A_top
    with no loop_select [OF k] show ?thesis by blast
  next
    case (A_select g)
    have "accept_select A (g < die_notified (shared (inner ?s))) False (inner ?s) =
        ((inner ?s)\<lparr>accept_ch := ac\<rparr>, Ready (Inr st))"
      using message(2) by (simp add: accept_select_def)
    with no loop_accepted [OF k A_select] show ?thesis by blast
  qed
qed simp_all

end

section \<open>Properties\<close>

text \<open>
  C2. Accepting applications get everything: take an open network whose two sides have the same maximal frame
  size, with configurations that fit the wire format and room for the traffic that is left (less than
  \<open>2 ^ 63\<close> bytes), and let both applications do nothing but accept, in a loop. The tasks, the transport and
  these loops can take only boundedly many steps, there is a schedule of them that ends, and whenever nothing
  is left to do both sessions are still open, every stream that was on its way to an application is held by
  it, and of every stream held that was never read with an empty buffer, what its owner has read and what is
  ready for it to read are together exactly what the other side wrote to it. (With different frame sizes the
  theorem \<open>oversized_frame_closes_receiver\<close> applies, and a read with an empty buffer can lose data, as the theorem
  \<open>read_zero_loses_held_chunk\<close> shows.)
\<close>

lemma accepting_applications_get_everything:
  fixes n :: "('fc, 'dc, 'ac) net"
  assumes "session_env B F D A" "net_run B F D A (net_new F A cfg) log n" "net_room F cfg log n"
    and "\<forall>b. wire_config (cfg b) \<and> max_frame_size (cfg (other b)) \<le> max_frame_size (cfg b)"
    and "\<forall>b. \<not> session_is_closed (inner (side n b))"
  shows "(\<forall>k log' n'. serving_run B F D A n k log' n' \<longrightarrow>
            k \<le> serving_work F A n \<and>
            (served B F D A n' \<longrightarrow>
               (\<forall>b. \<not> session_is_closed (inner (side n' b)) \<and>
                    incoming A (side n b) \<subseteq># mset (map fst (handles (side n' b))) \<and>
                    (\<forall>(st, closing) \<in> set (handles (side n' b)).
                       \<not> list_ex (empty_read (stream_id st)) (events_of b log) \<longrightarrow>
                       bytes_read (stream_id st) (events_of b log) @
                         unread D st (data_chs (inner (side n' b)) ! data_rx st) =
                       bytes_written (stream_id st) (events_of (other b) log))))) \<and>
         (\<exists>k log' n'. serving_run B F D A n k log' n' \<and> served B F D A n')"
proof (intro conjI allI impI)
  fix k log' n' b
  assume r: "serving_run B F D A n k log' n'"
  note room = session_env.serving_run_room [OF assms(1) r assms(2,3)]
  show "k \<le> serving_work F A n" using room by linarith
  assume served: "served B F D A n'"
  have lim: "net_limits cfg (log @ log')" using room net_room_limits by blast
  have run: "net_run B F D A (net_new F A cfg) (log @ log') n'" using room by blast
  have "\<forall>b. \<not> closed (shared (inner (side n b)))"
    using assms(5) by (simp add: session_is_closed_def is_closed_def)
  from session_env.serving_run_open [OF assms(1) r assms(2,3) _ this] assms(4)
  have open': "\<forall>b. \<not> closed (shared (inner (side n' b)))" by blast
  then show "\<not> session_is_closed (inner (side n' b))" by (simp add: session_is_closed_def is_closed_def)
  note rest = session_env.served_resting [OF assms(1) served]
  have queue: "contents A (accept_ch (inner (side n' b))) = []"
    using session_env.served_queue [OF assms(1) served] open' by blast
  have no_wait: "recv_at (side n' b) \<noteq> R_accept st" for st
    using session_env.resting_accept [OF assms(1) rest session_env.net_side_state(2) [OF assms(1) lim run], of b st]
      queue by auto
  then have "recv_holds (recv_at (side n' b)) = []" by (simp add: recv_holds_def split: recv_pc.splits)
  with queue room show "incoming A (side n b) \<subseteq># mset (map fst (handles (side n' b)))"
    by (metis add.left_neutral incoming_def mset.simps(1))
  have settled: "settled F n' b"
    using session_env.resting_settled [OF assms(1) run lim rest open'] assms(4) no_wait by blast
  show "\<forall>(st, closing) \<in> set (handles (side n' b)). \<not> list_ex (empty_read (stream_id st)) (events_of b log) \<longrightarrow>
      bytes_read (stream_id st) (events_of b log) @ unread D st (data_chs (inner (side n' b)) ! data_rx st) =
      bytes_written (stream_id st) (events_of (other b) log)"
    using session_env.settled_delivered [OF assms(1) run lim _ settled] assms(4) room
    by (fastforce simp: bytes_read_append bytes_written_def)
qed (rule session_env.serving_rests [OF assms(1-3)])

text \<open>The server has received the SYN, the data is still in its buffer, and no stream was accepted yet.\<close>

lemma accepting_applications_get_everything_witness:
  "\<exists>log n k log' n' st closing. demo_net_run (demo_net config_default) log n \<and>
     handles (side n Server) = [] \<and>
     serving_run list_bytes list_chan list_chan list_chan n k log' n' \<and>
     served list_bytes list_chan list_chan list_chan n' \<and>
     (st, closing) \<in> set (handles (side n' Server)) \<and> stream_id st = 1 \<and>
     unread list_chan st (data_chs (inner (side n' Server)) ! data_rx st) = [5, 6, 7]"
proof -
  obtain log n where x: "demo_net_execute [At Client Do_open, At Client (Do_open_send 0),
      At Client (Do_write 0 [5, 6, 7]), At Client Do_send, At Client Do_send, At Client Do_send,
      At Client Do_send, At Client Do_send, At Client Do_send, At Client Do_send, Carry Client,
      At Server Do_recv, Deliver Server] (demo_net config_default) = Some (log, n)"
    and s: "net_room list_chan (\<lambda>b. config_default) log n" "bytes_read 1 (events_of Server log) = []"
      "bytes_written 1 (events_of Client log) = [5, 6, 7]" "\<not> list_ex (empty_read 1) (events_of Server log)"
      "\<forall>b. \<not> session_is_closed (inner (side n b))" "handles (side n Server) = []"
      "stream_new 1 0 \<in># incoming list_chan (side n Server)"
    by (simp add: net_exec_simps net_room_def all_peers traffic_def id_limit_def bytes_read_def
        bytes_written_def session_is_closed_def is_closed_def net_work_def peer_work_def system_work_def
        incoming_def)
  note r = net_execute_run [OF x]
  have c: "\<forall>b. wire_config config_default \<and> max_frame_size config_default \<le> max_frame_size config_default"
    by (simp add: wire_config_def config_default_def HEADER_SIZE_def)
  note all = accepting_applications_get_everything [OF lse.session_env_axioms r s(1) c s(5)]
  then obtain k log' n' where n': "serving_run list_bytes list_chan list_chan list_chan n k log' n'"
    "served list_bytes list_chan list_chan list_chan n'" by blast
  with all have "incoming list_chan (side n Server) \<subseteq># mset (map fst (handles (side n' Server)))" by blast
  with s(7) have "stream_new 1 0 \<in> fst ` set (handles (side n' Server))"
    by (metis image_set mset_subset_eqD set_mset_mset)
  then obtain closing where h: "(stream_new 1 0, closing) \<in> set (handles (side n' Server))" by auto
  with all n' have "bytes_read 1 (events_of Server log) @
      unread list_chan (stream_new 1 0) (data_chs (inner (side n' Server)) ! data_rx (stream_new 1 0)) =
      bytes_written 1 (events_of Client log)"
    using s(4) by (fastforce simp: stream_new_def)
  with r n' h s show ?thesis by (fastforce simp: stream_new_def)
qed

end
