(* ===== verification/Fairness.thy ===== *)
theory Fairness
  imports Serving
begin

text \<open>
  Infinite runs of a network in which the applications go on as they like: they open, accept, read, write
  and close streams at any time and need not ever stop. When the schedule is fair to the send tasks, the
  receive tasks and the transport, every frame that was queued on one side arrives on the other, and with it
  everything that was written.
\<close>

section \<open>Infinite runs and weak fairness\<close>

text \<open>
  A run is the sequence of its states and that of the logs of its steps. It is weakly fair to some of the
  steps if, whenever such a step stays possible from some moment on, one is taken at that moment or later.
\<close>

definition net_trace ::
    "bytes_api \<Rightarrow> ('fc, frame) flume_api \<Rightarrow> ('dc, bytes) flume_api \<Rightarrow> ('ac, stream) flume_api
     \<Rightarrow> (nat \<Rightarrow> ('fc, 'dc, 'ac) net) \<Rightarrow> (nat \<Rightarrow> (peer \<times> event) list) \<Rightarrow> bool" where
  "net_trace B F D A ns ls \<longleftrightarrow> (\<forall>i. net_step B F D A (ns i) (ls i) (ns (Suc i)))"

definition log_upto :: "(nat \<Rightarrow> 'e list) \<Rightarrow> nat \<Rightarrow> 'e list" where
  "log_upto ls k = concat (map ls [0..<k])"

definition weakly_fair :: "('s \<Rightarrow> 'l \<Rightarrow> 's \<Rightarrow> bool) \<Rightarrow> (nat \<Rightarrow> 's) \<Rightarrow> (nat \<Rightarrow> 'l) \<Rightarrow> bool" where
  "weakly_fair R ns ls \<longleftrightarrow>
     (\<forall>i. (\<forall>j \<ge> i. \<exists>l n. R (ns j) l n) \<longrightarrow> (\<exists>j \<ge> i. R (ns j) (ls j) (ns (Suc j))))"

lemma log_upto_simps [simp]:
  "log_upto ls 0 = []" "log_upto ls (Suc k) = log_upto ls k @ ls k"
  by (simp_all add: log_upto_def)

lemma net_trace_run: "net_trace B F D A ns ls \<Longrightarrow> net_run B F D A (ns 0) (log_upto ls k) (ns k)"
  by (induction k) (auto simp: net_trace_def intro: net_run.intros)

text \<open>
  What a fair run reaches: as long as the goal is not reached such a step is possible, no step takes the
  run further away from the goal, and such a step brings it nearer.
\<close>

lemma fair_reaches:
  fixes m :: "nat \<Rightarrow> nat"
  assumes "weakly_fair R ns ls"
    and possible: "\<And>j. \<lbrakk>i \<le> j; \<not> P j\<rbrakk> \<Longrightarrow> \<exists>l n. R (ns j) l n"
    and other: "\<And>j. \<lbrakk>i \<le> j; \<not> P j; \<not> P (Suc j)\<rbrakk> \<Longrightarrow> m (Suc j) \<le> m j"
    and taken: "\<And>j. \<lbrakk>i \<le> j; \<not> P j; \<not> P (Suc j); R (ns j) (ls j) (ns (Suc j))\<rbrakk> \<Longrightarrow> m (Suc j) < m j"
  shows "\<exists>j \<ge> i. P j"
proof (rule ccontr)
  assume "\<not> (\<exists>j \<ge> i. P j)"
  then have never: "\<not> P j" if "i \<le> j" for j using that by blast
  have down: "m k \<le> m j" if "i \<le> j" "j \<le> k" for j k
    using that(2)
  proof (induction rule: dec_induct)
    case (step k)
    with other [of k] never that(1) show ?case by (meson le_SucI order_trans)
  qed simp
  have "False" if "i \<le> k" for k
    using that
  proof (induction "m k" arbitrary: k rule: less_induct)
    case less
    obtain j where j: "k \<le> j" "R (ns j) (ls j) (ns (Suc j))"
      using assms(1) possible never less.prems unfolding weakly_fair_def by (meson order_trans)
    have "m (Suc j) < m j" using taken [of j] never j less.prems by simp
    also have "m j \<le> m k" using down less.prems j(1) by simp
    finally show False using less.hyps [of "Suc j"] less.prems j(1) by simp
  qed
  then show False by blast
qed

section \<open>The machines of a network\<close>

text \<open>
  When does the next read of a side end its receive task? When the bytes at hand are no frame, or when there
  is no whole frame and none will come: both tasks of the other side have ended and with them its end of the
  transport, and all bytes have been carried.
\<close>

definition hung_up :: "('fc, 'dc, 'ac) net \<Rightarrow> peer \<Rightarrow> bool" where
  "hung_up n b \<longleftrightarrow>
     send_at (side n (other b)) = S_done \<and> recv_at (side n (other b)) = R_done \<and>
     carried n (other b) = length (wire (side n (other b)))"

definition read_ends :: "bytes_api \<Rightarrow> ('fc, 'dc, 'ac) net \<Rightarrow> peer \<Rightarrow> bool" where
  "read_ends B n b \<longleftrightarrow>
     (case snd (decode B (codec_at n b) (inbuf n b)) of
        Inl e \<Rightarrow> True
      | Inr None \<Rightarrow> hung_up n b
      | Inr (Some f) \<Rightarrow> False)"

text \<open>The steps of one side's send task, of its receive task, and of the transport that carries its bytes.\<close>

definition send_acts ::
    "bytes_api \<Rightarrow> ('fc, frame) flume_api \<Rightarrow> peer
     \<Rightarrow> ('fc, 'dc, 'ac) net \<Rightarrow> (peer \<times> event) list \<Rightarrow> ('fc, 'dc, 'ac) net \<Rightarrow> bool" where
  "send_acts B F b n l n' \<longleftrightarrow>
     (\<exists>e s. send_step B F (side n b) e s \<and> automatic e \<and> l = [(b, e)] \<and> n' = n\<lparr>side := (side n)(b := s)\<rparr>)"

definition recv_acts ::
    "bytes_api \<Rightarrow> ('fc, frame) flume_api \<Rightarrow> ('dc, bytes) flume_api \<Rightarrow> ('ac, stream) flume_api \<Rightarrow> peer
     \<Rightarrow> ('fc, 'dc, 'ac) net \<Rightarrow> (peer \<times> event) list \<Rightarrow> ('fc, 'dc, 'ac) net \<Rightarrow> bool" where
  "recv_acts B F D A b n l n' \<longleftrightarrow>
     (\<exists>e s. recv_step F D A (side n b) e s \<and> automatic e \<and> \<not> is_arrival e \<and> s \<noteq> side n b \<and>
            l = [(b, e)] \<and> n' = n\<lparr>side := (side n)(b := s)\<rparr>) \<or>
     (\<exists>rest f s. decode B (codec_at n b) (inbuf n b) = (rest, Inr (Some f)) \<and>
            recv_step F D A (side n b) (Arrives f) s \<and>
            l = [(b, Arrives f)] \<and> n' = n\<lparr>side := (side n)(b := s), inbuf := (inbuf n)(b := rest)\<rparr>) \<or>
     (\<exists>s. read_ends B n b \<and> recv_step F D A (side n b) Transport_fails s \<and>
          l = [(b, Transport_fails)] \<and> n' = n\<lparr>side := (side n)(b := s)\<rparr>)"

definition carry_acts ::
    "peer \<Rightarrow> ('fc, 'dc, 'ac) net \<Rightarrow> (peer \<times> event) list \<Rightarrow> ('fc, 'dc, 'ac) net \<Rightarrow> bool" where
  "carry_acts b n l n' \<longleftrightarrow>
     (\<exists>k. 0 < k \<and> carried n b + k \<le> length (wire (side n b)) \<and> l = [] \<and> n' = carry b k n)"

definition fair ::
    "bytes_api \<Rightarrow> ('fc, frame) flume_api \<Rightarrow> ('dc, bytes) flume_api \<Rightarrow> ('ac, stream) flume_api
     \<Rightarrow> (nat \<Rightarrow> ('fc, 'dc, 'ac) net) \<Rightarrow> (nat \<Rightarrow> (peer \<times> event) list) \<Rightarrow> bool" where
  "fair B F D A ns ls \<longleftrightarrow>
     (\<forall>b. weakly_fair (send_acts B F b) ns ls \<and> weakly_fair (recv_acts B F D A b) ns ls \<and>
          weakly_fair (carry_acts b) ns ls)"

text \<open>A run of a new network that stays within the limits, and a side that is never closed in it.\<close>

definition endless ::
    "bytes_api \<Rightarrow> ('fc, frame) flume_api \<Rightarrow> ('dc, bytes) flume_api \<Rightarrow> ('ac, stream) flume_api
     \<Rightarrow> (peer \<Rightarrow> config) \<Rightarrow> (nat \<Rightarrow> ('fc, 'dc, 'ac) net) \<Rightarrow> (nat \<Rightarrow> (peer \<times> event) list) \<Rightarrow> bool" where
  "endless B F D A cfg ns ls \<longleftrightarrow>
     ns 0 = net_new F A cfg \<and> net_trace B F D A ns ls \<and> (\<forall>k. net_limits cfg (log_upto ls k))"

definition stays_open :: "(nat \<Rightarrow> ('fc, 'dc, 'ac) net) \<Rightarrow> peer \<Rightarrow> bool" where
  "stays_open ns b \<longleftrightarrow> (\<forall>k. \<not> session_is_closed (inner (side (ns k) b)))"

text \<open>The receive task does not wait for ever for room in the accept queue.\<close>

definition keeps_receiving :: "(nat \<Rightarrow> ('fc, 'dc, 'ac) net) \<Rightarrow> peer \<Rightarrow> bool" where
  "keeps_receiving ns b \<longleftrightarrow> (\<forall>i. \<exists>j \<ge> i. \<forall>st. recv_at (side (ns j) b) \<noteq> R_accept st)"

context session_env
begin

text \<open>They are steps of the machines, so a network that rests has none of them.\<close>

lemma send_acts_machine: "send_acts B F b n l n' \<Longrightarrow> machine_step B F D A n l n'"
proof -
  assume "send_acts B F b n l n'"
  then obtain e s where e: "send_step B F (side n b) e s" "automatic e" "l = [(b, e)]"
    "n' = n\<lparr>side := (side n)(b := s)\<rparr>" by (auto simp: send_acts_def)
  have "send_at s \<noteq> send_at (side n b)" "\<not> is_arrival e" using e(1) by (auto elim: send_step.cases)
  moreover from this(1) e(4) have "side n' b \<noteq> side n b" by auto
  then have "n' \<noteq> n" by blast
  ultimately show ?thesis using e net_local [of B F D A n b e s] by (simp add: machine_step_def step_def)
qed

lemma recv_acts_machine:
  "\<lbrakk>recv_acts B F D A b n l n'; \<not> read_ends B n b \<or> recv_at (side n b) = R_done\<rbrakk>
   \<Longrightarrow> machine_step B F D A n l n'"
  unfolding recv_acts_def
proof (elim disjE exE conjE)
  fix e s assume e: "recv_step F D A (side n b) e s" "automatic e" "\<not> is_arrival e" "s \<noteq> side n b"
    "l = [(b, e)]" "n' = n\<lparr>side := (side n)(b := s)\<rparr>"
  then have "side n' b \<noteq> side n b" by simp
  then have "n' \<noteq> n" by blast
  with e net_local [of B F D A n b e s] show ?thesis by (simp add: machine_step_def step_def)
next
  fix rest f s assume f: "decode B (codec_at n b) (inbuf n b) = (rest, Inr (Some f))"
    "recv_step F D A (side n b) (Arrives f) s" "l = [(b, Arrives f)]"
    "n' = n\<lparr>side := (side n)(b := s), inbuf := (inbuf n)(b := rest)\<rparr>"
  then have "inbuf n' b \<noteq> inbuf n b" using net_arrives_work [OF f(1)] by auto
  then have "n' \<noteq> n" by blast
  with f net_arrives [OF f(1)] show ?thesis by (simp add: machine_step_def step_def)
qed (auto elim: recv_step.cases)

lemma carry_acts_machine: "carry_acts b n l n' \<Longrightarrow> machine_step B F D A n l n'"
proof -
  assume "carry_acts b n l n'"
  then obtain k where k: "0 < k" "carried n b + k \<le> length (wire (side n b))" "l = []" "n' = carry b k n"
    by (auto simp: carry_acts_def)
  then have "carried n' b \<noteq> carried n b" by (simp add: carry_def)
  then have "n' \<noteq> n" by blast
  with k net_carry show ?thesis by (simp add: machine_step_def)
qed

text \<open>The facts of such a run, and of a side that stays open in it.\<close>

lemma endless_facts:
  fixes ns :: "nat \<Rightarrow> ('fc, 'dc, 'ac) net"
  assumes "endless B F D A cfg ns ls"
  shows "net_step B F D A (ns i) (ls i) (ns (Suc i))"
    "net_run B F D A (net_new F A cfg) (log_upto ls i) (ns i)" "net_limits cfg (log_upto ls i)"
    "run_state F D A (cfg b) (at_client b) (side (ns i) b)"
proof -
  show "net_step B F D A (ns i) (ls i) (ns (Suc i))" "net_limits cfg (log_upto ls i)"
    using assms by (simp_all add: endless_def net_trace_def)
  moreover show "net_run B F D A (net_new F A cfg) (log_upto ls i) (ns i)"
    using net_trace_run [of B F D A ns ls i] assms by (simp add: endless_def)
  ultimately show "run_state F D A (cfg b) (at_client b) (side (ns i) b)" by (blast intro: net_side_state(2))
qed

lemma open_facts:
  fixes ns :: "nat \<Rightarrow> ('fc, 'dc, 'ac) net"
  assumes "endless B F D A cfg ns ls" "stays_open ns b"
  shows "die_notified (shared (inner (side (ns i) b))) = 0"
    "send_at (side (ns i) b) \<notin> {S_exit, S_done}" "recv_at (side (ns i) b) \<noteq> R_done"
proof -
  have "\<not> closed (shared (inner (side (ns i) b)))"
    using assms(2) by (simp add: stays_open_def session_is_closed_def is_closed_def)
  with endless_facts(4) [OF assms(1), where i = i and b = b]
  show "die_notified (shared (inner (side (ns i) b))) = 0"
    "send_at (side (ns i) b) \<notin> {S_exit, S_done}" "recv_at (side (ns i) b) \<noteq> R_done"
    by (auto simp: run_state_def system_wf_def notified_ok_def send_ok_def recv_ok_def)
qed

end

section \<open>The send task\<close>

text \<open>The frames put into the frame channel so far; steps only add to them.\<close>

definition outlog ::
    "('fc, frame) flume_api \<Rightarrow> (nat \<Rightarrow> ('fc, 'dc, 'ac) net) \<Rightarrow> (nat \<Rightarrow> (peer \<times> event) list) \<Rightarrow> peer
     \<Rightarrow> nat \<Rightarrow> frame list" where
  "outlog F ns ls b i = departed (events_of b (log_upto ls i)) @ queued F (side (ns i) b)"

definition inlog :: "(nat \<Rightarrow> (peer \<times> event) list) \<Rightarrow> peer \<Rightarrow> nat \<Rightarrow> frame list" where
  "inlog ls b i = arrived (events_of b (log_upto ls i))"

text \<open>How far the send task is from handing over the next frame.\<close>

fun send_rank :: "send_pc \<Rightarrow> nat" where
  "send_rank (S_sending f) = 0"
| "send_rank (S_select g) = 1"
| "send_rank _ = 2"

text \<open>How far the receive task is from its \<open>select!\<close>.\<close>

fun recv_rank :: "recv_pc \<Rightarrow> nat" where
  "recv_rank R_top = 1"
| "recv_rank _ = 0"

lemma arrived_event_iff: "arrived_event e = [] \<longleftrightarrow> \<not> is_arrival e"
  by (cases e) simp_all

lemma departed_append [simp]: "departed (es @ es') = departed es @ departed es'"
  by (simp add: departed_def)

lemma departed_single [simp]: "departed [e] = departed_event e"
  by (simp add: departed_def)

lemma feed_bytes_mono: "prefix (feed_bytes fd) (feed_bytes (fold (feed_frame c) fs fd))"
proof (induction fs arbitrary: fd)
  case (Cons f fs)
  have "prefix (feed_bytes fd) (feed_bytes (feed_frame c f fd))" by (cases fd) auto
  with Cons [of "feed_frame c f fd"] show ?case by (auto intro: prefix_order.trans)
qed simp

lemma prefix_mono:
  assumes "\<And>i. prefix (f i) (f (Suc i))" "i \<le> j"
  shows "prefix (f i) (f j)"
  using assms(2) by (induction rule: dec_induct) (auto intro: prefix_order.trans assms(1))

lemma send_step_rank:
  assumes "send_step B F s e s'" "send_at s' \<notin> {S_exit, S_done}" "send_at s \<noteq> S_exit"
    and "length ds < N"
  shows "3 * (N - length (ds @ departed_event e)) + send_rank (send_at s') <
         3 * (N - length ds) + send_rank (send_at s)"
  using assms by (induction rule: send_step.induct) (auto simp: send_end_def)

context session_env
begin

lemma outlog_step:
  fixes ns :: "nat \<Rightarrow> ('fc, 'dc, 'ac) net"
  assumes "endless B F D A cfg ns ls" "stays_open ns b"
  shows "prefix (outlog F ns ls b i) (outlog F ns ls b (Suc i))"
proof -
  note facts = endless_facts [OF assms(1)] and send = open_facts(2) [OF assms]
  have lim: "limits_ok (cfg b) (events_of b (log_upto ls k))" for k
    using facts(3) by (simp add: net_limits_def)
  obtain fs where fs: "logged_run B F D A (system_new F A (cfg b) (at_client b)) (events_of b (log_upto ls i)) fs (side (ns i) b)"
    using run_logged [OF net_side_state(1) [OF facts(3,2)]] by blast
  from run_log [OF lim fs] send have log: "fs = outlog F ns ls b i" by (simp add: outlog_def)
  from net_step_side [OF facts(1) [of i], of b] show ?thesis
  proof (elim disjE conjE exE)
    fix e assume e: "events_of b (ls i) = [e]" "step B F D A (side (ns i) b) e (side (ns (Suc i)) b)"
    have "limits_ok (cfg b) (events_of b (log_upto ls i) @ [e])" using lim [of "Suc i"] e(1) by simp
    from run_log [OF this logged_snoc [OF fs e(2)]] send [of "Suc i"]
    have "fs @ added F (side (ns i) b) (side (ns (Suc i)) b) = outlog F ns ls b (Suc i)"
      using e(1) by (simp add: outlog_def)
    then show ?thesis using log by (metis prefixI)
  qed (simp add: outlog_def)
qed

lemma send_enabled:
  fixes ns :: "nat \<Rightarrow> ('fc, 'dc, 'ac) net"
  assumes "endless B F D A cfg ns ls" "stays_open ns b" "queued F (side (ns j) b) \<noteq> []"
  shows "\<exists>l n. send_acts B F b (ns j) l n"
proof -
  let ?s = "side (ns j) b"
  have "\<exists>e s. send_step B F ?s e s \<and> automatic e"
  proof (cases "send_at ?s")
    case S_top
    from send_top [OF this] show ?thesis by fastforce
  next
    case (S_select g)
    with assms(3) have "contents F (frame_ch (inner ?s)) \<noteq> []" by (simp add: queued_def)
    then obtain fc f where "try_recv F (frame_ch (inner ?s)) = (fc, Received f)"
      by (cases rule: frames.recv_cases [of "frame_ch (inner ?s)"]) auto
    from send_frame [OF S_select this] show ?thesis by fastforce
  next
    case (S_sending f)
    obtain bs r where "encode B (codec_new (session_config (inner ?s))) f [] = (bs, r)" by fastforce
    with send_write [OF S_sending] send_refused [OF S_sending] show ?thesis by (cases r) fastforce+
  qed (use open_facts(2) [OF assms(1,2), of j] in auto)
  then show ?thesis by (fastforce simp: send_acts_def)
qed

lemma eventually_departs:
  fixes ns :: "nat \<Rightarrow> ('fc, 'dc, 'ac) net"
  assumes "endless B F D A cfg ns ls" "stays_open ns b" "weakly_fair (send_acts B F b) ns ls"
  shows "\<exists>j \<ge> i. prefix (outlog F ns ls b i) (departed (events_of b (log_upto ls j)))"
proof -
  let ?ds = "\<lambda>j. departed (events_of b (log_upto ls j))" and ?N = "length (outlog F ns ls b i)"
  note facts = endless_facts [OF assms(1)] and send_at = open_facts(2) [OF assms(1,2)]
  note mono = prefix_mono [of "outlog F ns ls b", OF outlog_step [OF assms(1,2)]]
  have "\<exists>j \<ge> i. ?N \<le> length (?ds j)"
  proof (rule fair_reaches [OF assms(3), where
        m = "\<lambda>j. 3 * (?N - length (?ds j)) + send_rank (send_at (side (ns j) b))"])
    fix j assume "i \<le> j" "\<not> ?N \<le> length (?ds j)"
    with prefix_length_le [OF mono [OF \<open>i \<le> j\<close>]] have "queued F (side (ns j) b) \<noteq> []"
      by (auto simp: outlog_def)
    then show "\<exists>l n. send_acts B F b (ns j) l n" by (rule send_enabled [OF assms(1,2)])
  next
    fix j assume j: "i \<le> j" "\<not> ?N \<le> length (?ds j)" "\<not> ?N \<le> length (?ds (Suc j))"
    have send: "3 * (?N - length (?ds (Suc j))) + send_rank (send_at (side (ns (Suc j)) b)) <
        3 * (?N - length (?ds j)) + send_rank (send_at (side (ns j) b))"
      if "send_step B F (side (ns j) b) e (side (ns (Suc j)) b)" "events_of b (ls j) = [e]" for e
      using send_step_rank [OF that(1), of "?ds j" ?N] send_at [of j] send_at [of "Suc j"] j(2) that(2)
      by simp
    show "3 * (?N - length (?ds (Suc j))) + send_rank (send_at (side (ns (Suc j)) b)) \<le>
        3 * (?N - length (?ds j)) + send_rank (send_at (side (ns j) b))"
      using net_step_side [OF facts(1) [of j], of b]
    proof (elim disjE conjE exE)
      fix e assume e: "events_of b (ls j) = [e]" "step B F D A (side (ns j) b) e (side (ns (Suc j)) b)"
      from e(2) show ?thesis
        unfolding step_def using send [OF _ e(1)] other_steps_send_at e(1) by (force intro: order.strict_implies_order)
    qed simp
    show "3 * (?N - length (?ds (Suc j))) + send_rank (send_at (side (ns (Suc j)) b)) <
        3 * (?N - length (?ds j)) + send_rank (send_at (side (ns j) b))"
      if "send_acts B F b (ns j) (ls j) (ns (Suc j))"
      using that send by (auto simp: send_acts_def)
  qed
  then obtain j where j: "i \<le> j" "?N \<le> length (?ds j)" by blast
  have "prefix (?ds j) (outlog F ns ls b j)" by (simp add: outlog_def)
  with mono [OF j(1)] j show ?thesis using prefix_length_prefix by blast
qed

section \<open>The transport\<close>

lemma carried_step: "net_step B F D A n l n' \<Longrightarrow> carried n b \<le> carried n' b"
  by (induction rule: net_step.induct) (auto simp: carry_def)

lemma carried_mono:
  assumes "endless B F D A cfg ns ls" "i \<le> j"
  shows "carried (ns i) b \<le> carried (ns j) b"
  using assms(2)
proof (induction rule: dec_induct)
  case (step k)
  have "net_step B F D A (ns k) (ls k) (ns (Suc k))" using assms(1) by (simp add: endless_def net_trace_def)
  from carried_step [OF this, of b] step.IH show ?case by simp
qed simp

lemma wire_step: "net_step B F D A n l n' \<Longrightarrow> length (wire (side n b)) \<le> length (wire (side n' b))"
  using net_step_side [of B F D A n l n' b] step_wire by fastforce

lemma eventually_carried:
  fixes ns :: "nat \<Rightarrow> ('fc, 'dc, 'ac) net"
  assumes "endless B F D A cfg ns ls" "weakly_fair (carry_acts b) ns ls"
  shows "\<exists>j \<ge> i. length (wire (side (ns i) b)) \<le> carried (ns j) b"
proof (rule fair_reaches [OF assms(2), where m = "\<lambda>j. length (wire (side (ns i) b)) - carried (ns j) b"])
  note step = endless_facts(1) [OF assms(1)]
  fix j assume j: "i \<le> j" "\<not> length (wire (side (ns i) b)) \<le> carried (ns j) b"
  have "length (wire (side (ns i) b)) \<le> length (wire (side (ns j) b))"
    using j(1) by (induction rule: dec_induct) (use wire_step [OF step] order_trans in blast)+
  with j(2) have "carried (ns j) b + 1 \<le> length (wire (side (ns j) b))" by simp
  then show "\<exists>l n. carry_acts b (ns j) l n" unfolding carry_acts_def by (meson zero_less_one)
  show "length (wire (side (ns i) b)) - carried (ns (Suc j)) b \<le> length (wire (side (ns i) b)) - carried (ns j) b"
    using carried_step [OF step] by (rule diff_le_mono2)
  show "length (wire (side (ns i) b)) - carried (ns (Suc j)) b < length (wire (side (ns i) b)) - carried (ns j) b"
    if "carry_acts b (ns j) (ls j) (ns (Suc j))"
    using that j(2) by (auto simp: carry_acts_def carry_def)
qed

section \<open>The receive task\<close>

lemma inlog_step:
  fixes ns :: "nat \<Rightarrow> ('fc, 'dc, 'ac) net"
  shows "prefix (inlog ls b i) (inlog ls b (Suc i))"
  by (simp add: inlog_def)

text \<open>When a frame has been carried and has not arrived, the decoder need not wait.\<close>

lemma carried_decodes:
  fixes ns :: "nat \<Rightarrow> ('fc, 'dc, 'ac) net"
  assumes "endless B F D A cfg ns ls"
    and "prefix ds (departed (events_of (other b) (log_upto ls j)))" "length (inlog ls b j) < length ds"
    and "length (concat (map wire_bytes ds)) \<le> carried (ns j) (other b)"
  shows "snd (decode B (codec_at (ns j) b) (inbuf (ns j) b)) \<noteq> Inr None"
proof -
  let ?n = "ns j" and ?w = "wire (side (ns j) (other b))"
  note facts = endless_facts [OF assms(1)]
  obtain fs where fs: "departed (events_of (other b) (log_upto ls j)) = inlog ls b j @ fs"
    "inbuf ?n b @ drop (carried ?n (other b)) ?w = concat (map wire_bytes fs)"
    "\<forall>f \<in> set (departed (events_of (other b) (log_upto ls j))). encodable (cfg (other b)) f"
    using net_arrived [OF facts(3) [of j] facts(2) [of j], of b] by (auto simp: inlog_def)
  obtain f gs where f: "ds = inlog ls b j @ f # gs" "prefix (f # gs) fs"
  proof -
    from assms(2,3) fs(1) have "prefix (inlog ls b j) ds"
      by (metis prefixI prefix_length_prefix less_imp_le)
    then obtain hs where hs: "ds = inlog ls b j @ hs" by (auto simp: prefix_def)
    with assms(2,3) fs(1) have "hs \<noteq> []" "prefix hs fs" by auto
    with hs that show thesis by (cases hs) auto
  qed
  have fl: "carried ?n (other b) \<le> length ?w"
    "take (carried ?n (other b)) ?w = concat (map wire_bytes (inlog ls b j)) @ inbuf ?n b"
    using net_flow [OF facts(3) [of j] facts(2) [of j], of b] by (simp_all add: flow_def inlog_def)
  from fl have "carried ?n (other b) = length (concat (map wire_bytes (inlog ls b j))) + length (inbuf ?n b)"
    by (metis length_append length_take min.absorb2)
  with assms(4) f(1) have long: "length (wire_bytes f) \<le> length (inbuf ?n b)" by simp
  obtain hs where hs: "fs = f # hs" using f(2) by (auto simp: prefix_def)
  with fs(2) have "inbuf ?n b @ drop (carried ?n (other b)) ?w = wire_bytes f @ concat (map wire_bytes hs)" by simp
  with long obtain rest where rest: "inbuf ?n b = wire_bytes f @ rest"
    by (metis append_eq_append_conv_if append_take_drop_id)
  from fs(1,3) hs have "length (wire_payload f) < 2 ^ 16" by (simp add: encodable_def)
  with rest show ?thesis by (simp add: bytes.decode_whole)
qed

text \<open>Between two arrivals the receive task goes back to its \<open>select!\<close> and stays there.\<close>

lemma recv_step_waits:
  assumes "step B F D A s e s'" "run_state F D A cfg c s" "die_notified (shared (inner s)) = 0"
    and "\<not> is_arrival e" "recv_at s' \<noteq> R_done" "recv_at s \<in> insert R_top (range R_select)"
  shows "recv_at s' = recv_at s \<or> recv_at s = R_top \<and> recv_at s' \<in> range R_select"
proof -
  have "?thesis" if "recv_step F D A s e s'"
    using that assms(2-6) by (induction rule: recv_step.induct) auto
  with assms(1) other_steps_recv_at show ?thesis unfolding step_def by blast
qed

lemma recv_actsI:
  "\<lbrakk>recv_step F D A (side n b) e s; automatic e; \<not> is_arrival e; s \<noteq> side n b\<rbrakk>
   \<Longrightarrow> recv_acts B F D A b n [(b, e)] (n\<lparr>side := (side n)(b := s)\<rparr>)"
  unfolding recv_acts_def by blast

lemma select_acts:
  assumes "recv_at (side n b) = R_select g"
    and "snd (decode B (codec_at n b) (inbuf n b)) \<noteq> Inr None \<or> hung_up n b"
  shows "\<exists>l n'. recv_acts B F D A b n l n'"
proof (cases "read_ends B n b")
  case True
  with recv_fails [OF assms(1), of F D A] show ?thesis unfolding recv_acts_def by blast
next
  case False
  with assms(2) obtain rest f where f: "decode B (codec_at n b) (inbuf n b) = (rest, Inr (Some f))"
    by (cases "decode B (codec_at n b) (inbuf n b)") (auto simp: read_ends_def split: sum.splits option.splits)
  obtain i out where "recv_frame F D A f (inner (side n b)) = (i, out)" by fastforce
  from f recv_arrives [OF assms(1) this] show ?thesis unfolding recv_acts_def by blast
qed

text \<open>
  As long as the next read returns, an open side that keeps receiving reads, and either a frame arrives or
  the read ends the task, which an open side excludes.
\<close>

lemma read_eventually:
  fixes ns :: "nat \<Rightarrow> ('fc, 'dc, 'ac) net"
  assumes "endless B F D A cfg ns ls" "stays_open ns b" "weakly_fair (recv_acts B F D A b) ns ls"
    and "keeps_receiving ns b"
    and ready: "\<And>j. \<lbrakk>i \<le> j; \<not> P j\<rbrakk> \<Longrightarrow>
      snd (decode B (codec_at (ns j) b) (inbuf (ns j) b)) \<noteq> Inr None \<or> hung_up (ns j) b"
    and quiet: "\<And>j. \<lbrakk>i \<le> j; \<not> P (Suc j)\<rbrakk> \<Longrightarrow> \<not> P j \<and> arrived (events_of b (ls j)) = []"
  shows "\<exists>j \<ge> i. P j"
proof -
  note facts = endless_facts [OF assms(1)] and op = open_facts [OF assms(1,2)]
  let ?s = "\<lambda>j. side (ns j) b"
  obtain k where k: "i \<le> k" "\<forall>st. recv_at (?s k) \<noteq> R_accept st"
    using assms(4) unfolding keeps_receiving_def by blast
  have moves: "recv_at (?s (Suc j)) = recv_at (?s j) \<or> recv_at (?s j) = R_top \<and> recv_at (?s (Suc j)) \<in> range R_select"
    if "i \<le> j" "\<not> P (Suc j)" "recv_at (?s j) \<in> insert R_top (range R_select)" for j
  proof -
    have "?s (Suc j) = ?s j \<or> (\<exists>e. \<not> is_arrival e \<and> step B F D A (?s j) e (?s (Suc j)))"
      using net_step_side [OF facts(1) [of j], of b] quiet [OF that(1,2)] by (auto simp: arrived_event_iff)
    then show ?thesis using recv_step_waits [OF _ facts(4) op(1) _ op(3) [of "Suc j"] that(3)] by auto
  qed
  have waits: "recv_at (?s j) \<in> insert R_top (range R_select)" if "k \<le> j" "\<not> P j" for j
    using that
  proof (induction rule: dec_induct)
    case base
    have "recv_ok (recv_at (?s k)) (shared (inner (?s k)))" "\<not> waits_for_tokens (recv_at (?s k))"
      using facts(4) [where i = k and b = b] by (simp_all add: run_state_def system_wf_def)
    with k(2) op(3) [of k] show ?case by (cases "recv_at (?s k)") (auto simp: recv_ok_def)
  next
    case (step j)
    have "i \<le> j" using k(1) step.hyps(1) by simp
    with moves [of j] quiet [of j] step show ?case by auto
  qed
  have "\<exists>j \<ge> k. P j"
  proof (rule fair_reaches [OF assms(3), where m = "\<lambda>j. recv_rank (recv_at (?s j))"])
    fix j assume j: "k \<le> j" "\<not> P j"
    show "\<exists>l n. recv_acts B F D A b (ns j) l n"
    proof (cases "recv_at (?s j) = R_top")
      case True
      let ?t = "(?s j)\<lparr>recv_at := R_select (die_notified (shared (inner (?s j))))\<rparr>"
      have "recv_at ?t \<noteq> recv_at (?s j)" using True by simp
      then have "?t \<noteq> ?s j" by metis
      with recv_actsI [OF recv_top [OF True, of F D A]] show ?thesis by fastforce
    next
      case False
      with waits [OF j] obtain g where g: "recv_at (?s j) = R_select g" by auto
      have "i \<le> j" using k(1) j(1) by simp
      from select_acts [OF g ready [OF this j(2)]] show ?thesis .
    qed
  next
    fix j assume j: "k \<le> j" "\<not> P j" "\<not> P (Suc j)"
    then have ij: "i \<le> j" using k(1) by simp
    show "recv_rank (recv_at (?s (Suc j))) \<le> recv_rank (recv_at (?s j))"
      using moves [OF ij j(3) waits [OF j(1,2)]] by auto
    show "recv_rank (recv_at (?s (Suc j))) < recv_rank (recv_at (?s j))"
      if acts: "recv_acts B F D A b (ns j) (ls j) (ns (Suc j))"
    proof -
      from acts obtain e where e: "recv_step F D A (?s j) e (?s (Suc j))" "ls j = [(b, e)]"
        "?s (Suc j) \<noteq> ?s j \<or> is_arrival e \<or> e = Transport_fails" by (auto simp: recv_acts_def)
      from quiet [OF ij j(3)] e(2) have "\<not> is_arrival e" by (simp add: arrived_event_iff)
      from e(1,3) this waits [OF j(1,2)] op(1) [of j] op(3) [of "Suc j"] show ?thesis
        by (induction rule: recv_step.induct) auto
    qed
  qed
  with k(1) show ?thesis using order_trans by blast
qed

section \<open>Everything queued arrives\<close>

lemma one_more_arrives:
  fixes ns :: "nat \<Rightarrow> ('fc, 'dc, 'ac) net"
  assumes "endless B F D A cfg ns ls" "stays_open ns b" "weakly_fair (recv_acts B F D A b) ns ls"
    and "keeps_receiving ns b" "prefix ds (departed (events_of (other b) (log_upto ls i)))"
    and "length (concat (map wire_bytes ds)) \<le> carried (ns i) (other b)" "length (inlog ls b i) < length ds"
  shows "\<exists>j \<ge> i. length (inlog ls b i) < length (inlog ls b j)"
proof (rule read_eventually [OF assms(1-4)])
  note facts = endless_facts [OF assms(1)]
  note mono = prefix_mono [of "inlog ls b", OF inlog_step]
  fix j assume ij: "i \<le> j"
  show "snd (decode B (codec_at (ns j) b) (inbuf (ns j) b)) \<noteq> Inr None \<or> hung_up (ns j) b"
    if "\<not> length (inlog ls b i) < length (inlog ls b j)"
  proof -
    have "prefix (departed (events_of (other b) (log_upto ls i))) (departed (events_of (other b) (log_upto ls j)))"
      by (rule prefix_mono [OF _ ij]) simp
    with assms(5) have ds: "prefix ds (departed (events_of (other b) (log_upto ls j)))"
      by (rule prefix_order.trans)
    have "carried (ns i) (other b) \<le> carried (ns j) (other b)" by (rule carried_mono [OF assms(1) ij])
    with assms(6) have come: "length (concat (map wire_bytes ds)) \<le> carried (ns j) (other b)"
      by (rule order_trans)
    have "length (inlog ls b j) < length ds" using that assms(7) by simp
    from carried_decodes [OF assms(1) ds this come] show ?thesis ..
  qed
  show "\<not> length (inlog ls b i) < length (inlog ls b j) \<and> arrived (events_of b (ls j)) = []"
    if "\<not> length (inlog ls b i) < length (inlog ls b (Suc j))"
  proof -
    have "length (inlog ls b i) \<le> length (inlog ls b j)" by (rule prefix_length_le [OF mono [OF ij]])
    moreover have "length (inlog ls b (Suc j)) = length (inlog ls b j) + length (arrived (events_of b (ls j)))"
      by (simp add: inlog_def)
    ultimately have "length (inlog ls b j) \<le> length (inlog ls b i)" "length (arrived (events_of b (ls j))) = 0"
      using that by linarith+
    then show ?thesis by simp
  qed
qed

lemma carried_arrives:
  fixes ns :: "nat \<Rightarrow> ('fc, 'dc, 'ac) net"
  assumes "endless B F D A cfg ns ls" "stays_open ns b" "weakly_fair (recv_acts B F D A b) ns ls"
    and "keeps_receiving ns b" "prefix ds (departed (events_of (other b) (log_upto ls k)))"
    and "length (concat (map wire_bytes ds)) \<le> carried (ns k) (other b)"
  shows "\<exists>m \<ge> k. \<forall>j \<ge> m. prefix ds (inlog ls b j)"
proof -
  let ?departed = "\<lambda>j. departed (events_of (other b) (log_upto ls j))"
  note facts = endless_facts [OF assms(1)]
  have departed: "prefix ds (?departed l)" if "k \<le> l" for l
    using assms(5) prefix_mono [of ?departed, OF _ that] by (auto intro: prefix_order.trans)
  have "\<exists>m \<ge> l. length ds \<le> length (inlog ls b m)" if "k \<le> l" for l
    using that
  proof (induction "length ds - length (inlog ls b l)" arbitrary: l rule: less_induct)
    case less
    show ?case
    proof (cases "length (inlog ls b l) < length ds")
      case True
      have "length (concat (map wire_bytes ds)) \<le> carried (ns l) (other b)"
        using assms(6) carried_mono [OF assms(1) less.prems] by (rule order_trans)
      with one_more_arrives [OF assms(1-4) departed _ True] less.prems obtain l' where
        l': "l \<le> l'" "length (inlog ls b l) < length (inlog ls b l')" by blast
      with less.hyps [of l'] less.prems True show ?thesis by (meson diff_less_mono2 order_trans)
    qed auto
  qed
  then obtain m where m: "k \<le> m" "length ds \<le> length (inlog ls b m)" by blast
  obtain fs where "?departed m = inlog ls b m @ fs"
    using net_arrived [OF facts(3) [of m] facts(2) [of m], of b] by (auto simp: inlog_def)
  with departed [OF m(1)] m(2) have "prefix ds (inlog ls b m)" by (metis prefixI prefix_length_prefix)
  with m(1) prefix_mono [of "inlog ls b", OF inlog_step] show ?thesis by (meson prefix_order.trans)
qed

text \<open>The bytes that a side has handed over come to be carried, and with them what has departed.\<close>

lemma departed_arrives:
  fixes ns :: "nat \<Rightarrow> ('fc, 'dc, 'ac) net"
  assumes "endless B F D A cfg ns ls" "stays_open ns b" "fair B F D A ns ls" "keeps_receiving ns b"
    and "prefix ds (departed (events_of (other b) (log_upto ls i)))"
  shows "\<exists>m \<ge> i. length (wire (side (ns i) (other b))) \<le> carried (ns m) (other b) \<and>
           (\<forall>j \<ge> m. prefix ds (inlog ls b j))"
proof -
  note facts = endless_facts [OF assms(1)]
  have lim: "limits_ok (cfg (other b)) (events_of (other b) (log_upto ls i))"
    using facts(3) by (simp add: net_limits_def)
  obtain k where k: "i \<le> k" "length (wire (side (ns i) (other b))) \<le> carried (ns k) (other b)"
    using eventually_carried [OF assms(1)] assms(3) by (meson fair_def)
  have "wire (side (ns i) (other b)) = concat (map wire_bytes (departed (events_of (other b) (log_upto ls i))))"
    using run_wire [OF lim net_side_state(1) [OF facts(3,2)]] by blast
  with assms(5) have "length (concat (map wire_bytes ds)) \<le> length (wire (side (ns i) (other b)))"
    by (auto simp: prefix_def)
  with k(2) have come: "length (concat (map wire_bytes ds)) \<le> carried (ns k) (other b)" by simp
  have "prefix ds (departed (events_of (other b) (log_upto ls k)))"
    using assms(5) prefix_mono [of "\<lambda>j. departed (events_of (other b) (log_upto ls j))", OF _ k(1)]
    by (auto intro: prefix_order.trans)
  from carried_arrives [OF assms(1,2) _ assms(4) this come] assms(3) obtain m where
    m: "k \<le> m" "\<forall>j \<ge> m. prefix ds (inlog ls b j)" by (auto simp: fair_def)
  from k(2) carried_mono [OF assms(1) m(1)] have "length (wire (side (ns i) (other b))) \<le> carried (ns m) (other b)"
    by (rule order_trans)
  with m k(1) show ?thesis by (meson order_trans)
qed

lemma eventually_arrives:
  fixes ns :: "nat \<Rightarrow> ('fc, 'dc, 'ac) net"
  assumes "endless B F D A cfg ns ls" "\<forall>c. stays_open ns c" "fair B F D A ns ls" "keeps_receiving ns b"
  shows "\<exists>m. \<forall>j \<ge> m. prefix (outlog F ns ls (other b) i) (inlog ls b j)"
proof -
  obtain j where j: "prefix (outlog F ns ls (other b) i) (departed (events_of (other b) (log_upto ls j)))"
    using eventually_departs [OF assms(1), of "other b"] assms(2,3) by (meson fair_def)
  from departed_arrives [OF assms(1) _ assms(3,4) j] assms(2) show ?thesis by blast
qed

text \<open>What the frames that have arrived feed.\<close>

lemma arrived_data:
  fixes ns :: "nat \<Rightarrow> ('fc, 'dc, 'ac) net"
  assumes "endless B F D A cfg ns ls" "stays_open ns (other b)"
    and "prefix (outlog F ns ls (other b) i) (inlog ls b j)" "sid \<noteq> 0"
    and "begun (at_client b) sid (events_of b (log_upto ls j)) \<noteq> 0"
  shows "prefix (bytes_written sid (events_of (other b) (log_upto ls i)))
           (feed_bytes (fed (at_client b) sid (events_of b (log_upto ls j))))"
proof -
  note facts = endless_facts [OF assms(1)]
  let ?f = "feed_frame (at_client b)" and ?fd = "if peer_id (at_client b) sid then Unborn else Live []"
  obtain fs where fs: "inlog ls b j = outlog F ns ls (other b) i @ fs" using assms(3) by (auto simp: prefix_def)
  have "fed (at_client b) sid (events_of b (log_upto ls j)) = fold ?f (of_stream sid (inlog ls b j)) ?fd"
    using net_fed [OF facts(3) [of j] facts(2) [of j] assms(4), of b] assms(5) unfolding inlog_def by presburger
  moreover have "feed_bytes (fold ?f (of_stream sid (outlog F ns ls (other b) i)) ?fd) =
      bytes_written sid (events_of (other b) (log_upto ls i))"
    unfolding outlog_def by (rule net_feed_sent [OF facts(3) [of i] facts(2) [of i] assms(4) open_facts(2) [OF assms(1,2)]])
  ultimately show ?thesis
    by (metis fs feed_bytes_mono fold_append of_stream_append o_apply)
qed

end

section \<open>Runs that come to rest\<close>

text \<open>
  Every run can be made infinite with a step that changes nothing. If its last state rests, what comes out is
  fair: from then on no machine has a step.
\<close>

lemma net_run_trace:
  fixes n :: "('fc, 'dc, 'ac) net"
  assumes "net_run B F D A m log n"
  shows "\<exists>ns ls k. ns 0 = m \<and> ns k = n \<and> log_upto ls k = log \<and>
           (\<forall>i < k. net_step B F D A (ns i) (ls i) (ns (Suc i)))"
  using assms
proof (induction rule: net_run.induct)
  case (net_nil n)
  show ?case by (rule exI [of _ "\<lambda>_. n"], rule exI [of _ "\<lambda>_. []"]) (auto intro: exI [of _ 0])
next
  case (net_snoc n log n' l n'')
  then obtain ns ls k where k: "ns 0 = n" "ns k = n'" "log_upto ls k = log"
    "\<forall>i < k. net_step B F D A (ns i) (ls i) (ns (Suc i))" by blast
  let ?ns = "ns(Suc k := n'')" and ?ls = "ls(k := l)"
  have "map ?ls [0..<k] = map ls [0..<k]" by simp
  then have "log_upto ?ls k = log_upto ls k" by (simp only: log_upto_def)
  then have log: "log_upto ?ls (Suc k) = log @ l" using k(3) by simp
  have step: "net_step B F D A (?ns i) (?ls i) (?ns (Suc i))" if "i < Suc k" for i
    using that k(2,4) net_snoc.hyps(2) by (cases "i = k") auto
  have "?ns 0 = n" "?ns (Suc k) = n''" using k(1) by simp_all
  with log step show ?case by (intro exI [of _ ?ns] exI [of _ ?ls] exI [of _ "Suc k"] conjI allI impI)
qed

lemma weakly_fair_rest:
  assumes "\<And>i. k \<le> i \<Longrightarrow> ns i = n" "\<And>l n'. \<not> R n l n'"
  shows "weakly_fair R ns ls"
  unfolding weakly_fair_def
proof (intro allI impI)
  fix i assume "\<forall>j \<ge> i. \<exists>l n'. R (ns j) l n'"
  then have "\<exists>l n'. R (ns (max i k)) l n'" by simp
  then show "\<exists>j \<ge> i. R (ns j) (ls j) (ns (Suc j))" using assms by simp
qed

lemma log_upto_prefix: "i \<le> j \<Longrightarrow> prefix (log_upto ls i) (log_upto ls j)"
  by (rule prefix_mono [of "log_upto ls"]) simp_all

lemma events_of_replicate: "events_of b (concat (replicate i l)) = concat (replicate i (events_of b l))"
  by (induction i) simp_all

lemma net_limits_idle:
  assumes "net_limits cfg log" "\<And>b. traffic (events_of b l) = 0" "\<And>b. opened_ids (events_of b l) = []"
  shows "net_limits cfg (log @ concat (replicate i l))"
proof -
  have "traffic (concat (replicate i (events_of b l))) = 0" "opened_ids (concat (replicate i (events_of b l))) = []" for b
    using assms(2,3) [of b] by (induction i) (simp_all add: traffic_def)
  with assms(1) show ?thesis by (simp add: net_limits_def limits_ok_def events_of_replicate)
qed

context session_env
begin

lemma trace_closed:
  fixes ns :: "nat \<Rightarrow> ('fc, 'dc, 'ac) net"
  assumes "ns 0 = net_new F A cfg" "net_trace B F D A ns ls" "\<And>k. net_limits cfg (log_upto ls k)"
    and "closed (shared (inner (side (ns i) b)))" "i \<le> j"
  shows "closed (shared (inner (side (ns j) b)))"
  using assms(5)
proof (induction rule: dec_induct)
  case base
  show ?case by (rule assms(4))
next
  case (step j)
  have "net_run B F D A (net_new F A cfg) (log_upto ls j) (ns j)"
    using net_trace_run [OF assms(2), of j] assms(1) by simp
  from net_side_state(2) [OF assms(3) this, of b] have wf: "system_wf F D A (side (ns j) b)"
    by (simp add: run_state_def)
  have "net_step B F D A (ns j) (ls j) (ns (Suc j))" using assms(2) by (simp add: net_trace_def)
  from net_step_side [OF this, of b] show ?case
    using step.IH step_wf [OF _ wf] by (auto simp: advances_def shared_later_def)
qed

lemma resting_lasts:
  fixes n :: "('fc, 'dc, 'ac) net"
  assumes "net_run B F D A (net_new F A cfg) log n" "net_step B F D A n l n"
    and "\<And>m. net_limits cfg (log @ concat (replicate m l))"
    and "resting B F D A n" "\<And>b. \<not> read_ends B n b \<or> recv_at (side n b) = R_done"
  shows "\<exists>ns ls k. endless B F D A cfg ns ls \<and> fair B F D A ns ls \<and>
           (\<forall>b. \<not> closed (shared (inner (side n b))) \<longrightarrow> stays_open ns b) \<and>
           (\<forall>i. ns (k + i) = n \<and> log_upto ls (k + i) = log @ concat (replicate i l))"
proof -
  obtain ns ls k where k: "ns 0 = net_new F A cfg" "ns k = n" "log_upto ls k = log"
    "\<forall>i < k. net_step B F D A (ns i) (ls i) (ns (Suc i))" using net_run_trace [OF assms(1)] by blast
  let ?ns = "\<lambda>i. if i \<le> k then ns i else n" and ?ls = "\<lambda>i. if i < k then ls i else l"
  have step: "net_step B F D A (?ns i) (?ls i) (?ns (Suc i))" for i
    using k(2,4) assms(2) by (cases "i < k") (auto simp: less_Suc_eq_le)
  have rest: "?ns i = n" if "k \<le> i" for i using that k(2) by simp
  from step have trace: "net_trace B F D A ?ns ?ls" by (simp add: net_trace_def)
  have "map ?ls [0..<k] = map ls [0..<k]" by simp
  then have upto: "log_upto ?ls k = log" using k(3) by (simp only: log_upto_def)
  have later: "log_upto ?ls (k + m) = log @ concat (replicate m l)" for m
  proof (induction m)
    case (Suc m)
    have "concat (replicate m l) @ l = l @ concat (replicate m l)" by (induction m) simp_all
    with Suc show ?case by simp
  qed (use upto in simp)
  have lim: "net_limits cfg (log_upto ?ls i)" for i
  proof -
    from log_upto_prefix [of i "k + i" ?ls] have "prefix (log_upto ?ls i) (log @ concat (replicate i l))"
      unfolding later by simp
    then obtain fs where "log @ concat (replicate i l) = log_upto ?ls i @ fs" unfolding prefix_def ..
    with assms(3) [of i] have "net_limits cfg (log_upto ?ls i @ fs)" by (simp only:)
    then show ?thesis by (rule net_limits_prefix)
  qed
  have "stays_open ?ns b" if "\<not> closed (shared (inner (side n b)))" for b
    unfolding stays_open_def
  proof
    fix i show "\<not> session_is_closed (inner (side (?ns i) b))"
      using trace_closed [OF _ trace lim, of i b "max i k"] k(1,2) that
      by (auto simp: session_is_closed_def is_closed_def max_def split: if_splits)
  qed
  moreover from k(1) trace lim have "endless B F D A cfg ?ns ?ls" by (simp add: endless_def)
  moreover have "fair B F D A ?ns ?ls"
    unfolding fair_def
  proof (intro allI conjI)
    fix b
    have none: "\<not> send_acts B F b n l' n'" "\<not> recv_acts B F D A b n l' n'" "\<not> carry_acts b n l' n'" for l' n'
      using assms(4,5) send_acts_machine recv_acts_machine carry_acts_machine unfolding resting_def by blast+
    show "weakly_fair (send_acts B F b) ?ns ?ls" by (rule weakly_fair_rest [of k ?ns n, OF rest])
        (simp_all only: none(1) not_False_eq_True)
    show "weakly_fair (recv_acts B F D A b) ?ns ?ls" by (rule weakly_fair_rest [of k ?ns n, OF rest])
        (simp_all only: none(2) not_False_eq_True)
    show "weakly_fair (carry_acts b) ?ns ?ls" by (rule weakly_fair_rest [of k ?ns n, OF rest])
        (simp_all only: none(3) not_False_eq_True)
  qed
  moreover have "\<forall>i. ?ns (k + i) = n \<and> log_upto ?ls (k + i) = log @ concat (replicate i l)"
    using rest later le_add1 by blast
  ultimately show ?thesis by (intro exI [of _ ?ns] exI [of _ ?ls] exI [of _ k] conjI) blast+
qed

end

section \<open>Properties\<close>

text \<open>
  C1. Fair runs deliver: take an infinite run of a network whose sessions stay open, in which the
  applications act in any order and at any time, and which is weakly fair to the send tasks, the receive
  tasks and the transport; take a side whose configuration fits the wire format and whose receive task
  does not wait for ever for room in its accept queue; and let the run stay within the limits on traffic
  (less than \<open>2 ^ 63\<close> bytes), identifiers (less than 2147483646 streams opened on a side) and frame sizes
  (65543 bytes). Then every frame that the other side has put into its frame channel arrives here, and
  from some moment on, whoever holds a stream here that was never read with an empty buffer has read or
  can read everything that had been written to it. (A read with an empty buffer can lose data, as the theorem
  \<open>read_zero_loses_held_chunk\<close> shows.)
\<close>

lemma fair_runs_deliver:
  fixes ns :: "nat \<Rightarrow> ('fc, 'dc, 'ac) net"
  assumes "session_env B F D A" "endless B F D A cfg ns ls" "fair B F D A ns ls" "wire_config (cfg b)"
    and "\<forall>c. stays_open ns c" "keeps_receiving ns b"
  shows "\<exists>m. \<forall>j \<ge> m. prefix (outlog F ns ls (other b) i) (inlog ls b j) \<and>
           (\<forall>(st, closing) \<in> set (handles (side (ns j) b)).
              \<not> list_ex (empty_read (stream_id st)) (events_of b (log_upto ls j)) \<longrightarrow>
              prefix (bytes_written (stream_id st) (events_of (other b) (log_upto ls i)))
                (bytes_read (stream_id st) (events_of b (log_upto ls j)) @
                 unread D st (data_chs (inner (side (ns j) b)) ! data_rx st)))"
proof -
  note facts = session_env.endless_facts [OF assms(1,2)]
  obtain m where m: "\<forall>j \<ge> m. prefix (outlog F ns ls (other b) i) (inlog ls b j)"
    using session_env.eventually_arrives [OF assms(1,2,5,3,6)] by blast
  have "prefix (bytes_written (stream_id st) (events_of (other b) (log_upto ls i)))
      (bytes_read (stream_id st) (events_of b (log_upto ls j)) @
       unread D st (data_chs (inner (side (ns j) b)) ! data_rx st))"
    if "m \<le> j" "(st, closing) \<in> set (handles (side (ns j) b))"
      "\<not> list_ex (empty_read (stream_id st)) (events_of b (log_upto ls j))" for j st closing
    using session_env.net_handle [OF assms(1) facts(2,3) assms(4) that(2,3)]
      session_env.arrived_data [OF assms(1,2)] m that(1) assms(5) by simp
  with m show ?thesis by blast
qed

text \<open>
  The client writes [5, 6, 7], the server has read two of the bytes, and from then on the client calls
  \<open>poll_write\<close> with an empty buffer for ever.
\<close>

lemma fair_runs_deliver_witness:
  "\<exists>ns ls k m st. endless list_bytes list_chan list_chan list_chan (\<lambda>b. config_default) ns ls \<and>
     fair list_bytes list_chan list_chan list_chan ns ls \<and>
     outlog list_chan ns ls Client k = [new_syn 1 1, new_psh 1 1 [5, 6, 7]] \<and>
     (\<forall>j \<ge> m. prefix [new_syn 1 1, new_psh 1 1 [5, 6, 7]] (inlog ls Server j) \<and>
        prefix [5, 6, 7] ([5, 6] @ unread list_chan st (data_chs (inner (side (ns j) Server)) ! 0)))"
proof -
  obtain log n where x: "demo_net_execute [At Client Do_open, At Client (Do_open_send 0),
      At Client (Do_write 0 [5, 6, 7]), At Client Do_send, At Client Do_send, At Client Do_send,
      At Client Do_send, At Client Do_send, At Client Do_send, At Client Do_send, Carry Client,
      At Server Do_recv, Deliver Server, At Server Do_recv, Deliver Server, At Server Do_accept,
      At Server (Do_accept_select 0), At Server (Do_accept_poll 0), At Server (Do_read 0 2),
      At Server Do_recv, At Server Do_send, At Server Do_keep, At Client Do_recv, At Client Do_keep]
      (demo_net config_default) = Some (log, n)"
    and s: "net_room list_chan (\<lambda>b. config_default) log n"
      "bytes_written 1 (events_of Client log) = [5, 6, 7]" "\<And>st. recv_at (side n Server) \<noteq> R_accept st"
      "\<forall>b. \<not> closed (shared (inner (side n b)))" "bytes_read 1 (events_of Server log) = [5, 6]"
      "\<not> list_ex (empty_read 1) (events_of Server log)"
      "departed (events_of Client log) @ queued list_chan (side n Client) = [new_syn 1 1, new_psh 1 1 [5, 6, 7]]"
    and h: "handles (side n Server) = [(stream_new 1 0\<lparr>current_chunk := Some [7]\<rparr>, False)]"
    and same: "net_perform list_bytes list_chan list_chan list_chan (At Client (Do_write 0 [])) n =
      Some ([(Client, Writes 1 [])], n)"
    and idle: "\<forall>b. recv_at (side n b) = R_select (die_notified (shared (inner (side n b))))"
      "\<forall>b. send_at (side n b) = S_select (die_notified (shared (inner (side n b))))"
      "\<forall>b. keep_at (side n b) \<in> {K_select (die_notified (shared (inner (side n b)))), K_done}"
      "\<forall>b. contents list_chan (frame_ch (inner (side n b))) = [] \<and>
           \<not> senders_gone list_chan (frame_ch (inner (side n b)))"
      "\<forall>b. inbuf n b = [] \<and> carried n b = length (wire (side n b))"
    by (simp add: net_exec_simps net_room_def all_peers traffic_def id_limit_def bytes_read_def
        bytes_written_def session_is_closed_def is_closed_def net_work_def peer_work_def system_work_def
        departed_def queued_def)
  let ?l = "[(Client, Writes 1 [])]" and ?st = "stream_new 1 0\<lparr>current_chunk := Some [7]\<rparr>"
  have r: "demo_net_run (demo_net config_default) log n" by (rule net_execute_run [OF x])
  have rest: "resting list_bytes list_chan list_chan list_chan n"
    by (rule lse.idle_rests) (use idle in blast)+
  have "net_step list_bytes list_chan list_chan list_chan n ?l n" by (rule net_perform_step [OF same])
  moreover have "net_limits (\<lambda>b. config_default) (log @ concat (replicate m ?l))" for m
    by (rule net_limits_idle [OF net_room_limits [OF s(1)]]) (simp_all add: traffic_def)
  moreover have "\<not> read_ends list_bytes n b" for b
    using idle by (simp add: read_ends_def hung_up_def le.decode_short HEADER_SIZE_def)
  ultimately obtain ns ls k where k: "endless list_bytes list_chan list_chan list_chan (\<lambda>b. config_default) ns ls"
    "fair list_bytes list_chan list_chan list_chan ns ls" "\<forall>c. stays_open ns c"
    "\<forall>i. ns (k + i) = n \<and> log_upto ls (k + i) = log @ concat (replicate i ?l)"
    using lse.resting_lasts [OF r _ _ rest] s(4) by blast
  have quiet: "events_of Server (concat (replicate i ?l)) = []" for i unfolding events_of_replicate by simp
  have rest': "ns j = n" "bytes_read 1 (events_of Server (log_upto ls j)) = [5, 6]"
    "\<not> list_ex (empty_read 1) (events_of Server (log_upto ls j))" if "k \<le> j" for j
  proof -
    from that obtain i where "j = k + i" by (auto simp: le_iff_add)
    with k(4) have "ns j = n" "log_upto ls j = log @ concat (replicate i ?l)" by blast+
    moreover from this(2) quiet have "events_of Server (log_upto ls j) = events_of Server log"
      by (simp only: events_of_simps append_Nil2)
    ultimately show "ns j = n" "bytes_read 1 (events_of Server (log_upto ls j)) = [5, 6]"
      "\<not> list_ex (empty_read 1) (events_of Server (log_upto ls j))" using s(5,6) by simp_all
  qed
  have out: "outlog list_chan ns ls Client k = [new_syn 1 1, new_psh 1 1 [5, 6, 7]]"
    "bytes_written 1 (events_of Client (log_upto ls k)) = [5, 6, 7]"
    using k(4) [rule_format, of 0] s(2,7) by (simp_all add: outlog_def)
  have c: "wire_config config_default" by (simp add: wire_config_def config_default_def HEADER_SIZE_def)
  have "keeps_receiving ns Server"
    unfolding keeps_receiving_def using s(3) rest'(1) by (metis max.cobounded1 max.cobounded2)
  from fair_runs_deliver [OF lse.session_env_axioms k(1,2) _ k(3) this, of k] c out obtain m where
    m: "\<forall>j \<ge> m. prefix [new_syn 1 1, new_psh 1 1 [5, 6, 7]] (inlog ls Server j) \<and>
       (\<forall>(st, closing) \<in> set (handles (side (ns j) Server)).
          \<not> list_ex (empty_read (stream_id st)) (events_of Server (log_upto ls j)) \<longrightarrow>
          prefix (bytes_written (stream_id st) (events_of Client (log_upto ls k)))
            (bytes_read (stream_id st) (events_of Server (log_upto ls j)) @
             unread list_chan st (data_chs (inner (side (ns j) Server)) ! data_rx st)))"
    by auto
  have "prefix [5, 6, 7] ([5, 6] @ unread list_chan ?st (data_chs (inner (side (ns j) Server)) ! 0))"
    if "max k m \<le> j" for j
    using m rest' [of j] that h out(2) by (fastforce simp: stream_new_def)
  with k(1,2) out(1) m show ?thesis by (intro exI [of _ ns] exI [of _ ls] exI [of _ k] exI [of _ "max k m"] exI [of _ ?st]) auto
qed

end
