(* ===== verification/Intervals.thy ===== *)
theory Intervals
  imports Configuration
begin

text \<open>
  The intervals of \<open>tokio::time\<close>, which the keep-alive task of \<open>src/src/session.rs\<close> waits for. Their code is
  not part of the repository, so an interval is a parameter with its documented behaviour. Moments
  are nanoseconds on the runtime's clock.
\<close>

section \<open>The interface\<close>

text \<open>
  \<open>interval_new\<close> takes the moment of the call and the period; no result is a panic. \<open>poll_tick\<close> polls the
  interval's \<open>tick\<close> at a moment. \<open>deadline\<close> and \<open>period\<close> observe the moment of the next tick and the time
  between two ticks.
\<close>

record 'iv interval_api =
  interval_new :: "nat \<Rightarrow> nat \<Rightarrow> 'iv option"
  poll_tick :: "nat \<Rightarrow> 'iv \<Rightarrow> 'iv \<times> unit poll"
  deadline :: "'iv \<Rightarrow> nat"
  period :: "'iv \<Rightarrow> nat"

text \<open>
  The documented behaviour: a period of zero panics, the first tick completes immediately, a tick
  completes as soon as its moment has come, and (the default, \<open>MissedTickBehavior::Burst\<close>) the next moment
  is a period after this one however late the tick was taken.
\<close>

locale tokio_interval =
  fixes I :: "'iv interval_api"
  assumes new_zero: "interval_new I t 0 = None"
    and new_law: "0 < p \<Longrightarrow> \<exists>iv. interval_new I t p = Some iv \<and> deadline I iv = t \<and> period I iv = p"
    and tick_early: "t < deadline I iv \<Longrightarrow> poll_tick I t iv = (iv, Pending)"
    and tick_due: "deadline I iv \<le> t \<Longrightarrow>
      \<exists>iv'. poll_tick I t iv = (iv', Ready ()) \<and> deadline I iv' = deadline I iv + period I iv \<and>
            period I iv' = period I iv"
begin

lemma new_Some_iff: "(\<exists>iv. interval_new I t p = Some iv) \<longleftrightarrow> 0 < p"
  using new_zero new_law [of p t] by (cases p) auto

lemma newD: "interval_new I t p = Some iv \<Longrightarrow> 0 < p \<and> deadline I iv = t \<and> period I iv = p"
  using new_zero new_law [of p t] by (cases p) auto

lemma tick_ready_iff: "(\<exists>iv'. poll_tick I t iv = (iv', Ready ())) \<longleftrightarrow> deadline I iv \<le> t"
  using tick_early [of t iv] tick_due [of iv t] by (cases "deadline I iv \<le> t") auto

lemma tickD:
  assumes "poll_tick I t iv = (iv', Ready ())"
  shows "deadline I iv \<le> t" "deadline I iv' = deadline I iv + period I iv" "period I iv' = period I iv"
  using assms tick_ready_iff [of t iv] tick_due [of iv t] by auto

end

section \<open>An instance\<close>

record simple_interval =
  next_at :: nat
  every :: nat

definition simple_intervals :: "simple_interval interval_api" where
  "simple_intervals =
     \<lparr>interval_new = (\<lambda>t p. if p = 0 then None else Some \<lparr>next_at = t, every = p\<rparr>),
      poll_tick = (\<lambda>t iv. if next_at iv \<le> t then (iv\<lparr>next_at := next_at iv + every iv\<rparr>, Ready ())
                          else (iv, Pending)),
      deadline = next_at, period = every\<rparr>"

interpretation si: tokio_interval simple_intervals
  by unfold_locales (simp_all add: simple_intervals_def)

end
