(* ===== verification/Clocks.thy ===== *)
theory Clocks
  imports Intervals Stores Executions
begin

text \<open>
  The running session with a clock. The keep-alive task makes its two intervals when it first runs and
  takes a tick only when the interval is ready at that moment; everything else steps as before, at
  any moment. Without the times, a timed run is a run of the system, and how late the runtime polls the
  keep-alive task is a parameter of the schedule.
\<close>

section \<open>The timers of the keep-alive task\<close>

record 'iv timers =
  ping_interval :: 'iv
  timeout_interval :: 'iv

definition make_intervals :: "'iv interval_api \<Rightarrow> config \<Rightarrow> nat \<Rightarrow> 'iv timers option" where
  "make_intervals I cfg t =
     (case interval_new I t (keep_alive_interval cfg) of
        None \<Rightarrow> None
      | Some p \<Rightarrow>
          (case interval_new I t (keep_alive_timeout cfg) of
             None \<Rightarrow> None
           | Some q \<Rightarrow> Some \<lparr>ping_interval = p, timeout_interval = q\<rparr>))"

section \<open>Timed steps\<close>

record ('iv, 'fc, 'dc, 'ac) timed =
  now :: nat
  timers :: "'iv timers option"
  sys :: "('fc, 'dc, 'ac) system"

definition timed_new ::
    "('fc, frame) flume_api \<Rightarrow> ('ac, stream) flume_api \<Rightarrow> config \<Rightarrow> bool \<Rightarrow> ('iv, 'fc, 'dc, 'ac) timed" where
  "timed_new F A cfg client = \<lparr>now = 0, timers = None, sys = system_new F A cfg client\<rparr>"

text \<open>
  Time passes, the keep-alive task starts, an interval ticks (a tick of the timeout with what the check found: whether data had been received, and the tokens), or
  any other step.
\<close>

datatype timed_event = Elapses nat | Starts | Does event | Pings | Checks bool i64

inductive timed_step ::
    "'iv interval_api \<Rightarrow> bytes_api \<Rightarrow> ('fc, frame) flume_api \<Rightarrow> ('dc, bytes) flume_api
     \<Rightarrow> ('ac, stream) flume_api
     \<Rightarrow> ('iv, 'fc, 'dc, 'ac) timed \<Rightarrow> timed_event \<Rightarrow> ('iv, 'fc, 'dc, 'ac) timed \<Rightarrow> bool"
  for I :: "'iv interval_api" and B :: bytes_api and F :: "('fc, frame) flume_api"
    and D :: "('dc, bytes) flume_api" and A :: "('ac, stream) flume_api" where
  timed_elapses: "timed_step I B F D A s (Elapses d) (s\<lparr>now := now s + d\<rparr>)"
| timed_starts:
    "\<lbrakk>timers s = None; keep_at (sys s) = K_top;
      make_intervals I (session_config (inner (sys s))) (now s) = Some ts\<rbrakk>
     \<Longrightarrow> timed_step I B F D A s Starts (s\<lparr>timers := Some ts\<rparr>)"
| timed_other:
    "recv_step F D A (sys s) e s' \<or> send_step B F (sys s) e s' \<or> app_step B F D A (sys s) e s'
     \<Longrightarrow> timed_step I B F D A s (Does e) (s\<lparr>sys := s'\<rparr>)"
| timed_keep:
    "\<lbrakk>timers s = Some ts; keep_step F (sys s) Internal s'\<rbrakk>
     \<Longrightarrow> timed_step I B F D A s (Does Internal) (s\<lparr>sys := s'\<rparr>)"
| timed_ping:
    "\<lbrakk>timers s = Some ts; poll_tick I (now s) (ping_interval ts) = (p, Ready ());
      keep_step F (sys s) Ping_tick s'\<rbrakk>
     \<Longrightarrow> timed_step I B F D A s Pings (s\<lparr>timers := Some (ts\<lparr>ping_interval := p\<rparr>), sys := s'\<rparr>)"
| timed_check:
    "\<lbrakk>timers s = Some ts; poll_tick I (now s) (timeout_interval ts) = (q, Ready ());
      keep_step F (sys s) Timeout_tick s';
      r = data_received (shared (inner (sys s))); k = get_tokens (shared (inner (sys s)))\<rbrakk>
     \<Longrightarrow> timed_step I B F D A s (Checks r k) (s\<lparr>timers := Some (ts\<lparr>timeout_interval := q\<rparr>), sys := s'\<rparr>)"

text \<open>
  A schedule says how long time may pass in a state. A run records the moment of every step.
\<close>

inductive timed_run ::
    "'iv interval_api \<Rightarrow> bytes_api \<Rightarrow> ('fc, frame) flume_api \<Rightarrow> ('dc, bytes) flume_api
     \<Rightarrow> ('ac, stream) flume_api \<Rightarrow> (('iv, 'fc, 'dc, 'ac) timed \<Rightarrow> nat \<Rightarrow> bool)
     \<Rightarrow> ('iv, 'fc, 'dc, 'ac) timed \<Rightarrow> (nat \<times> timed_event) list \<Rightarrow> ('iv, 'fc, 'dc, 'ac) timed \<Rightarrow> bool"
  for I :: "'iv interval_api" and B :: bytes_api and F :: "('fc, frame) flume_api"
    and D :: "('dc, bytes) flume_api" and A :: "('ac, stream) flume_api"
    and L :: "('iv, 'fc, 'dc, 'ac) timed \<Rightarrow> nat \<Rightarrow> bool" where
  timed_nil: "timed_run I B F D A L s [] s"
| timed_snoc:
    "\<lbrakk>timed_run I B F D A L s log s'; timed_step I B F D A s' e s''; \<forall>d. e = Elapses d \<longrightarrow> L s' d\<rbrakk>
     \<Longrightarrow> timed_run I B F D A L s (log @ [(now s', e)]) s''"

text \<open>Any schedule, and one under which the keep-alive task takes no tick more than \<open>d\<close> late.\<close>

definition any_schedule :: "('iv, 'fc, 'dc, 'ac) timed \<Rightarrow> nat \<Rightarrow> bool" where
  "any_schedule s d \<longleftrightarrow> True"

definition ticks_within :: "'iv interval_api \<Rightarrow> nat \<Rightarrow> ('iv, 'fc, 'dc, 'ac) timed \<Rightarrow> nat \<Rightarrow> bool" where
  "ticks_within I late s d \<longleftrightarrow>
     keep_at (sys s) = K_done \<or>
     (case timers s of
        None \<Rightarrow> now s + d \<le> late
      | Some ts \<Rightarrow> now s + d \<le> deadline I (ping_interval ts) + late \<and>
                   now s + d \<le> deadline I (timeout_interval ts) + late)"

text \<open>What is left of a timed run without the times, and the moment of its last arrival.\<close>

fun untimed_event :: "timed_event \<Rightarrow> event list" where
  "untimed_event (Does e) = [e]"
| "untimed_event Pings = [Ping_tick]"
| "untimed_event (Checks r k) = [Timeout_tick]"
| "untimed_event _ = []"

definition untimed :: "(nat \<times> timed_event) list \<Rightarrow> event list" where
  "untimed log = concat (map (untimed_event \<circ> snd) log)"

fun arrival_time :: "nat \<times> timed_event \<Rightarrow> nat" where
  "arrival_time (t, Does (Arrives f)) = t"
| "arrival_time _ = 0"

definition last_heard :: "(nat \<times> timed_event) list \<Rightarrow> nat" where
  "last_heard log = foldr (\<lambda>x t. max (arrival_time x) t) log 0"

lemma untimed_simps [simp]:
  "untimed [] = []" "untimed (log @ log') = untimed log @ untimed log'"
  "untimed ((t, e) # log) = untimed_event e @ untimed log"
  by (simp_all add: untimed_def)

lemma last_heard_Nil [simp]: "last_heard [] = 0"
  by (simp add: last_heard_def)

lemma last_heard_foldr: "foldr (\<lambda>x t. max (arrival_time x) t) log u = max (last_heard log) u"
  by (induction log) (auto simp: last_heard_def)

lemma last_heard_append [simp]: "last_heard (log @ log') = max (last_heard log) (last_heard log')"
  using last_heard_foldr [of log "last_heard log'"] by (simp add: last_heard_def)

lemma last_heard_single [simp]: "last_heard [x] = arrival_time x"
  by (simp add: last_heard_def)

lemma arrival_time_le: "arrival_time (t, e) \<le> t"
  by (cases "(t, e)" rule: arrival_time.cases) simp_all

lemma arrival_time_Does: "arrival_time (t, Does e) = (if is_arrival e then t else 0)"
  by (cases e) simp_all

section \<open>Timed runs are runs\<close>

lemma timed_step_step:
  assumes "timed_step I B F D A s e s'"
  shows "untimed_event e = [] \<and> sys s' = sys s \<or>
         (\<exists>e'. untimed_event e = [e'] \<and> step B F D A (sys s) e' (sys s'))"
  using assms by (induction rule: timed_step.induct) (auto simp: step_def)

lemma timed_run_run:
  "timed_run I B F D A L s log s' \<Longrightarrow> run B F D A (sys s) (untimed log) (sys s')"
proof (induction rule: timed_run.induct)
  case (timed_snoc s log s' e s'')
  from timed_step_step [OF timed_snoc(2)] run_snoc [OF timed_snoc.IH] timed_snoc.IH show ?case by fastforce
qed (simp add: run_nil)

lemma timed_run_any: "timed_run I B F D A L s log s' \<Longrightarrow> timed_run I B F D A any_schedule s log s'"
  by (induction rule: timed_run.induct) (auto simp: any_schedule_def intro: timed_nil timed_snoc)

text \<open>Time does not go back, and every step is recorded at a moment that has come.\<close>

lemma timed_step_now: "timed_step I B F D A s e s' \<Longrightarrow> now s \<le> now s'"
  by (induction rule: timed_step.induct) simp_all

lemma timed_run_now: "timed_run I B F D A L s log s' \<Longrightarrow> now s \<le> now s' \<and> (\<forall>(t, e) \<in> set log. t \<le> now s')"
  by (induction rule: timed_run.induct) (auto dest!: timed_step_now intro: order_trans)

lemma last_heard_now: "timed_run I B F D A L s log s' \<Longrightarrow> last_heard log \<le> now s'"
proof (induction rule: timed_run.induct)
  case (timed_snoc s log s' e s'')
  with timed_step_now [OF timed_snoc(2)] arrival_time_le [of "now s'" e] show ?case by simp
qed simp

section \<open>The timers\<close>

locale timed_env = session_env B F D A + tokio_interval I
  for B :: bytes_api
    and F :: "('fc, frame) flume_api"
    and D :: "('dc, bytes) flume_api"
    and A :: "('ac, stream) flume_api"
    and I :: "'iv interval_api"
begin

lemma make_intervalsD:
  assumes "make_intervals I cfg t = Some ts"
  shows "deadline I (ping_interval ts) = t" "deadline I (timeout_interval ts) = t"
    "period I (ping_interval ts) = keep_alive_interval cfg"
    "period I (timeout_interval ts) = keep_alive_timeout cfg"
  using assms by (auto simp: make_intervals_def split: option.splits dest: newD)

text \<open>The task enters its loop exactly when it is enabled and neither interval panics.\<close>

lemma keep_start_intervals:
  "keep_start cfg = (if enable_keep_alive cfg \<and> make_intervals I cfg t \<noteq> None then K_top else K_done)"
  using new_Some_iff [of t "keep_alive_interval cfg"] new_Some_iff [of t "keep_alive_timeout cfg"]
  by (auto simp: keep_start_def make_intervals_def split: option.splits)

end

text \<open>Only the keep-alive task moves its control point.\<close>

lemma other_steps_keep_at:
  "recv_step F D A s e s' \<or> send_step B F s e s' \<or> app_step B F D A s e s' \<Longrightarrow> keep_at s' = keep_at s"
  by (elim disjE; auto elim: recv_step.cases send_step.cases app_step.cases)

lemma other_stepD:
  "recv_step F D A s e s' \<or> send_step B F s e s' \<or> app_step B F D A s e s' \<Longrightarrow>
   step B F D A s e s' \<and> e \<noteq> Timeout_tick"
  by (auto simp: step_def elim: recv_tickE send_tickE app_tickE)

text \<open>
  The state of the timers in a run with late ticks: while the task runs, no tick is overdue by more than the
  bound; and the next tick of the timeout is near the last arrival, before which nothing was heard for at
  most two periods.
\<close>

definition timers_ok ::
    "'iv interval_api \<Rightarrow> config \<Rightarrow> nat \<Rightarrow> nat \<Rightarrow> ('iv, 'fc, 'dc, 'ac) timed \<Rightarrow> bool" where
  "timers_ok I cfg late h s \<longleftrightarrow>
     (case timers s of
        None \<Rightarrow> keep_at (sys s) = K_top \<and> now s \<le> late \<and> data_received (shared (inner (sys s)))
      | Some ts \<Rightarrow>
          let p = ping_interval ts; q = timeout_interval ts; T = keep_alive_timeout cfg in
          period I p = keep_alive_interval cfg \<and> period I q = T \<and>
          now s \<le> deadline I p + late \<and> now s \<le> deadline I q + late \<and> deadline I q \<le> now s + T \<and>
          (if data_received (shared (inner (sys s))) then deadline I q \<le> h + T + late
           else deadline I q \<le> h + 2 * T + late \<and> h + T \<le> deadline I q + late))"

context timed_env
begin

text \<open>A step of the session that is no tick of the timeout.\<close>

lemma timers_ok_other:
  assumes "timers_ok I cfg late h s" "timers s = None \<longrightarrow> keep_at s' = K_top"
    and "data_received (shared (inner s')) = (is_arrival e \<or> data_received (shared (inner (sys s))))"
    and "h' = (if is_arrival e then now s else h)"
  shows "timers_ok I cfg late h' (s\<lparr>sys := s'\<rparr>)"
  using assms by (auto simp: timers_ok_def Let_def split: option.splits if_splits)

lemma timed_step_timers:
  assumes "timed_step I B F D A s e s'" "timers_ok I cfg late h s" "h \<le> now s"
    and "system_wf F D A (sys s)" "0 < balance (sys s)" "session_config (inner (sys s)) = cfg"
    and "\<forall>d. e = Elapses d \<longrightarrow> ticks_within I late s d" "keep_at (sys s') \<noteq> K_done"
  shows "timers_ok I cfg late (max h (arrival_time (now s, e))) s'"
  using assms
proof (induction rule: timed_step.induct)
  case (timed_elapses s d)
  then show ?case by (auto simp: timers_ok_def ticks_within_def Let_def split: option.splits if_splits)
next
  case (timed_starts s ts)
  then show ?case using make_intervalsD [OF timed_starts(3)] by (auto simp: timers_ok_def Let_def)
next
  case (timed_other s e s')
  note other = other_stepD [OF timed_other(1)]
  with step_heard [of "sys s" e s'] timed_other(4) have
    "data_received (shared (inner s')) = (is_arrival e \<or> data_received (shared (inner (sys s))))"
    by (simp add: heard_step_def)
  with timed_other other_steps_keep_at [OF timed_other(1)] show ?case
    by (intro timers_ok_other) (auto simp: arrival_time_Does timers_ok_def)
next
  case (timed_keep s ts s')
  then have "step B F D A (sys s) Internal s'" by (simp add: step_def)
  from step_heard [OF this timed_keep(5)] timed_keep show ?case
    by (intro timers_ok_other [where e = Internal]) (auto simp: heard_step_def)
next
  case (timed_ping s ts p s')
  then have "step B F D A (sys s) Ping_tick s'" by (simp add: step_def)
  from step_heard [OF this timed_ping(6)] timed_ping tickD [OF timed_ping(2)] show ?case
    by (auto simp: heard_step_def timers_ok_def Let_def split: if_splits)
next
  case (timed_check s ts q s' r k)
  then show ?case using tickD [OF timed_check(2)]
    by (auto simp: timers_ok_def Let_def keep_timeout_def check_and_reset_data_received_def balance_def
        token_balance_def get_tokens_def split: if_splits elim!: keep_tickE)
qed

text \<open>The keep-alive task of an open session runs for ever.\<close>

lemma step_keep_done:
  assumes "step B F D A s e s'" "keep_at s = K_done"
  shows "keep_at s' = K_done"
  using assms other_steps_keep_at [of F D A s e s' B] by (auto simp: step_def elim: keep_step.cases)

lemma step_keep_ends:
  assumes "step B F D A s e s'" "system_wf F D A s" "keep_at s \<noteq> K_done" "keep_at s' = K_done"
    and "0 < max_receive_channel_buffer_size (session_config (inner s))"
  shows "closed (shared (inner s'))"
proof -
  have "keep_step F s e s'"
    using assms(1,3,4) other_steps_keep_at [of F D A s e s' B] by (auto simp: step_def)
  then show ?thesis using assms(2-)
  proof (induction rule: keep_step.induct)
    case (keep_sends s f fc sent)
    then have "receivers_gone F (frame_ch (inner s))"
      using frames.send_cases [of "frame_ch (inner s)" f]
      by (auto simp: send_async_def system_wf_def split: prod.splits send_result.splits if_splits)
    with keep_sends show ?case by (simp add: system_wf_def send_ok_def)
  next
    case (keep_ticks s g ss stop)
    then show ?case by (auto simp: keep_timeout_def check_and_reset_data_received_def Let_def split: if_splits)
  qed (auto simp: system_wf_def notified_ok_def split: if_splits)
qed

lemma keep_runs:
  fixes s :: "('fc, 'dc, 'ac) system"
  assumes "run B F D A (system_new F A cfg client) es s" "0 < max_receive_channel_buffer_size cfg"
    and "keep_start cfg \<noteq> K_done" "\<not> closed (shared (inner s))"
  shows "keep_at s \<noteq> K_done"
  using assms(1,4)
proof (induction "system_new F A cfg client :: ('fc, 'dc, 'ac) system" es s rule: run.induct)
  case run_nil
  then show ?case using assms(3) by (simp add: system_new_def)
next
  case (run_snoc es s e s')
  have "advances F D A (system_new F A cfg client) s"
    by (rule run_wf [OF run_snoc(1) system_wf_new [OF assms(2)]])
  then have wf: "system_wf F D A s" "session_config (inner s) = cfg"
    by (simp_all add: advances_def system_new_def session_new_def)
  from step_wf [OF run_snoc(3) wf(1)] run_snoc.prems have "\<not> closed (shared (inner s))"
    by (auto simp: advances_def shared_later_def)
  with run_snoc step_keep_ends [OF run_snoc(3) wf(1)] wf(2) assms(2) show ?case by auto
qed

lemma timed_run_state:
  fixes s :: "('iv, 'fc, 'dc, 'ac) timed"
  assumes "timed_run I B F D A L (timed_new F A cfg client) log s" "limits_ok cfg (untimed log)"
  shows "run B F D A (system_new F A cfg client) (untimed log) (sys s)"
    "run_state F D A cfg client (sys s)"
proof -
  show "run B F D A (system_new F A cfg client) (untimed log) (sys s)"
    using timed_run_run [OF assms(1)] by (simp add: timed_new_def)
  from run_state [OF assms(2) this] show "run_state F D A cfg client (sys s)" .
qed

lemma timed_run_timers:
  fixes s :: "('iv, 'fc, 'dc, 'ac) timed"
  assumes "timed_run I B F D A (ticks_within I late) (timed_new F A cfg client) log s"
    and "limits_ok cfg (untimed log)" "keep_at (sys s) \<noteq> K_done"
  shows "timers_ok I cfg late (last_heard log) s"
  using assms
proof (induction "timed_new F A cfg client :: ('iv, 'fc, 'dc, 'ac) timed" log s rule: timed_run.induct)
  case timed_nil
  then show ?case using data_received_new
    by (auto simp: timers_ok_def timed_new_def system_new_def keep_start_def split: if_splits)
next
  case (timed_snoc log s e s')
  have lim: "limits_ok cfg (untimed log)" using timed_snoc.prems(1) by (auto intro: limits_ok_prefix)
  have "keep_at (sys s) \<noteq> K_done"
    using timed_step_step [OF timed_snoc(3)] timed_snoc.prems(2) step_keep_done by metis
  with timed_snoc lim have "timers_ok I cfg late (last_heard log) s" by blast
  moreover have "run_state F D A cfg client (sys s)" by (rule timed_run_state(2) [OF timed_snoc(1) lim])
  ultimately show ?case
    using timed_step_timers [OF timed_snoc(3)] last_heard_now [OF timed_snoc(1)] timed_snoc(4,6)
    by (simp add: run_state_def)
qed

lemma silent_closed:
  fixes s :: "('iv, 'fc, 'dc, 'ac) timed"
  assumes "keep_start cfg \<noteq> K_done"
    and "timed_run I B F D A (ticks_within I late) (timed_new F A cfg client) log s"
    and "limits_ok cfg (untimed log)" "last_heard log + 2 * (keep_alive_timeout cfg + late) < now s"
  shows "closed (shared (inner (sys s)))"
proof (rule ccontr)
  assume open': "\<not> closed (shared (inner (sys s)))"
  have "0 < max_receive_channel_buffer_size cfg" using assms(3) by (simp add: limits_ok_def)
  from keep_runs [OF timed_run_state(1) [OF assms(2,3)] this assms(1) open']
  have "keep_at (sys s) \<noteq> K_done" .
  from timed_run_timers [OF assms(2,3) this] assms(4) show False
    by (auto simp: timers_ok_def Let_def split: option.splits if_splits)
qed

lemma check_after_silence:
  fixes s :: "('iv, 'fc, 'dc, 'ac) timed"
  assumes "timed_run I B F D A (ticks_within I late) (timed_new F A cfg client) log s"
    and "limits_ok cfg (untimed log)" "timed_step I B F D A s (Checks r k) s'"
    and "\<not> closed (shared (inner (sys s)))" "closed (shared (inner (sys s')))"
  shows "\<not> r \<and> 0 < sint k \<and> last_heard log + keep_alive_timeout cfg \<le> now s + late"
  using assms(3)
proof cases
  case (timed_check ts q s2)
  have tick: "keep_at (sys s) \<noteq> K_done" "shared (inner s2) = fst (keep_timeout (shared (inner (sys s))))"
    using timed_check(4) by (auto elim: keep_tickE)
  then have "\<not> r \<and> 0 < sint k"
    using assms(4,5) timed_check
    by (auto simp: keep_timeout_def check_and_reset_data_received_def Let_def get_tokens_def split: if_splits)
  moreover from this have "last_heard log + keep_alive_timeout cfg \<le> deadline I (timeout_interval ts) + late"
    using timed_run_timers [OF assms(1,2) tick(1)] timed_check by (auto simp: timers_ok_def Let_def)
  moreover have "deadline I (timeout_interval ts) \<le> now s" using tickD(1) [OF timed_check(3)] .
  ultimately show ?thesis by simp
qed

end

section \<open>Executions\<close>

text \<open>A timed run by chosen actions, under a schedule.\<close>

datatype timed_action = Wait nat | Start | Act action | Ping | Check

fun timed_perform ::
    "'iv interval_api \<Rightarrow> bytes_api \<Rightarrow> ('fc, frame) flume_api \<Rightarrow> ('dc, bytes) flume_api
     \<Rightarrow> ('ac, stream) flume_api \<Rightarrow> (('iv, 'fc, 'dc, 'ac) timed \<Rightarrow> nat \<Rightarrow> bool)
     \<Rightarrow> timed_action \<Rightarrow> ('iv, 'fc, 'dc, 'ac) timed
     \<Rightarrow> (timed_event \<times> ('iv, 'fc, 'dc, 'ac) timed) option" where
  "timed_perform I B F D A L (Wait d) s =
     (if L s d then Some (Elapses d, s\<lparr>now := now s + d\<rparr>) else None)"
| "timed_perform I B F D A L Start s =
     (if timers s = None \<and> keep_at (sys s) = K_top
      then map_option (\<lambda>ts. (Starts, s\<lparr>timers := Some ts\<rparr>))
             (make_intervals I (session_config (inner (sys s))) (now s))
      else None)"
| "timed_perform I B F D A L (Act a) s =
     (if a \<in> {Do_ping, Do_timeout} \<or> a = Do_keep \<and> timers s = None then None
      else map_option (\<lambda>(e, s'). (Does e, s\<lparr>sys := s'\<rparr>)) (perform B F D A a (sys s)))"
| "timed_perform I B F D A L Ping s =
     (case timers s of
        None \<Rightarrow> None
      | Some ts \<Rightarrow>
          (case poll_tick I (now s) (ping_interval ts) of
             (p, Ready u) \<Rightarrow>
               map_option (\<lambda>(e, s'). (Pings, s\<lparr>timers := Some (ts\<lparr>ping_interval := p\<rparr>), sys := s'\<rparr>))
                 (perform B F D A Do_ping (sys s))
           | _ \<Rightarrow> None))"
| "timed_perform I B F D A L Check s =
     (case timers s of
        None \<Rightarrow> None
      | Some ts \<Rightarrow>
          (case poll_tick I (now s) (timeout_interval ts) of
             (q, Ready u) \<Rightarrow>
               map_option (\<lambda>(e, s'). (Checks (data_received (shared (inner (sys s))))
                                       (get_tokens (shared (inner (sys s)))),
                            s\<lparr>timers := Some (ts\<lparr>timeout_interval := q\<rparr>), sys := s'\<rparr>))
                 (perform B F D A Do_timeout (sys s))
           | _ \<Rightarrow> None))"

fun timed_execute ::
    "'iv interval_api \<Rightarrow> bytes_api \<Rightarrow> ('fc, frame) flume_api \<Rightarrow> ('dc, bytes) flume_api
     \<Rightarrow> ('ac, stream) flume_api \<Rightarrow> (('iv, 'fc, 'dc, 'ac) timed \<Rightarrow> nat \<Rightarrow> bool)
     \<Rightarrow> timed_action list \<Rightarrow> ('iv, 'fc, 'dc, 'ac) timed
     \<Rightarrow> ((nat \<times> timed_event) list \<times> ('iv, 'fc, 'dc, 'ac) timed) option" where
  "timed_execute I B F D A L [] s = Some ([], s)"
| "timed_execute I B F D A L (a # as) s =
     (case timed_perform I B F D A L a s of
        None \<Rightarrow> None
      | Some (e, s') \<Rightarrow> map_option (apfst ((#) (now s, e))) (timed_execute I B F D A L as s'))"

lemma perform_other:
  assumes "perform B F D A a s = Some (e, s')" "a \<notin> {Do_keep, Do_ping, Do_timeout}"
  shows "recv_step F D A s e s' \<or> send_step B F s e s' \<or> app_step B F D A s e s'"
proof (cases "a \<in> {Do_recv, Do_read_fails, Do_send} \<union> range Do_arrive")
  case True
  with assms show ?thesis
    by (auto split: recv_pc.splits prod.splits intro: recv_arrives recv_fails dest: do_recv_step do_send_step)
next
  case False
  with perform_app [OF assms(1)] assms(2) show ?thesis by auto
qed

lemma perform_keep:
  "perform B F D A Do_keep s = Some (e, s') \<Longrightarrow> e = Internal \<and> keep_step F s Internal s'"
  "perform B F D A Do_ping s = Some (e, s') \<Longrightarrow> keep_step F s Ping_tick s'"
  "perform B F D A Do_timeout s = Some (e, s') \<Longrightarrow> keep_step F s Timeout_tick s'"
  using do_keep_step [of F s e s'] keep_ticks [of s _ _ True F] keep_ticks [of s _ _ False F]
  by (auto simp: do_keep_def split: keep_pc.splits if_splits prod.splits poll.splits intro: keep_ping)

lemma timed_perform_step:
  assumes "timed_perform I B F D A L a s = Some (e, s')"
  shows "timed_step I B F D A s e s' \<and> (\<forall>d. e = Elapses d \<longrightarrow> L s d)"
proof (cases a)
  case (Act x)
  show ?thesis
  proof (cases "x = Do_keep")
    case True
    with assms Act show ?thesis
      by (auto simp del: perform.simps split: if_splits dest!: perform_keep(1) intro: timed_keep)
  next
    case False
    with assms Act obtain e' s1 where "perform B F D A x (sys s) = Some (e', s1)" "e = Does e'"
      "s' = s\<lparr>sys := s1\<rparr>" "x \<notin> {Do_keep, Do_ping, Do_timeout}"
      by (auto simp del: perform.simps split: if_splits)
    with timed_other [OF perform_other] show ?thesis by blast
  qed
qed (use assms in \<open>auto simp del: perform.simps split: if_splits option.splits prod.splits poll.splits
    dest!: perform_keep(2,3) intro: timed_elapses timed_starts timed_ping timed_check\<close>)

lemma timed_run_Cons:
  assumes "timed_run I B F D A L s' log s''" "timed_step I B F D A s e s'" "\<forall>d. e = Elapses d \<longrightarrow> L s d"
  shows "timed_run I B F D A L s ((now s, e) # log) s''"
  using assms
proof (induction rule: timed_run.induct)
  case (timed_nil s1)
  from timed_run.timed_snoc [OF timed_run.timed_nil [of I B F D A L s] this] show ?case by simp
next
  case (timed_snoc s1 log s2 e2 s3)
  from timed_run.timed_snoc [OF timed_snoc.IH [OF timed_snoc.prems] timed_snoc.hyps(2,3)]
  show ?case by simp
qed

lemma timed_execute_run:
  "timed_execute I B F D A L as s = Some (log, s') \<Longrightarrow> timed_run I B F D A L s log s'"
proof (induction as arbitrary: s log)
  case (Cons a as)
  then obtain e s1 log1 where "timed_perform I B F D A L a s = Some (e, s1)" "log = (now s, e) # log1"
    "timed_execute I B F D A L as s1 = Some (log1, s')"
    by (auto split: option.splits)
  with timed_run_Cons [OF Cons.IH [OF this(3)]] timed_perform_step [OF this(1)] show ?case by simp
qed (simp add: timed_nil)

abbreviation demo_timed_execute where
  "demo_timed_execute \<equiv> timed_execute simple_intervals list_bytes list_chan list_chan list_chan"

definition demo_timed :: "config \<Rightarrow> (simple_interval, frame lchan, bytes lchan, stream lchan) timed" where
  "demo_timed cfg = timed_new list_chan list_chan cfg True"

interpretation lst: timed_env list_bytes list_chan list_chan list_chan simple_intervals
  by unfold_locales

lemmas timed_exec_simps =
  exec_simps demo_timed_def timed_new_def make_intervals_def simple_intervals_def ticks_within_def
  any_schedule_def keep_timeout_def check_and_reset_data_received_def duration_from_secs_def

section \<open>Properties\<close>

text \<open>
  C5. Dead peers are noticed: with keep-alive on and no tick taken more than \<open>late\<close> late, a session that
  has been silent for longer than two timeouts and twice that lateness is closed, whatever the
  tasks, the transport and the application do.
\<close>

lemma silent_sessions_are_closed:
  fixes s :: "('iv, 'fc, 'dc, 'ac) timed"
  assumes "timed_env B F D A I" "config_valid cfg" "enable_keep_alive cfg" "0 < keep_alive_interval cfg"
    and "timed_run I B F D A (ticks_within I late) (timed_new F A cfg client) log s"
    and "limits_ok cfg (untimed log)"
    and "last_heard log + 2 * (keep_alive_timeout cfg + late) < now s"
  shows "session_is_closed (inner (sys s))"
  using timed_env.silent_closed [OF assms(1) _ assms(5-7)] assms(2-4)
  by (simp add: keep_start_def config_valid_def session_is_closed_def is_closed_def)

definition quick :: config where
  "quick = config_default\<lparr>keep_alive_interval := 4, keep_alive_timeout := 5\<rparr>"

text \<open>The first round of the keep-alive task, and what it does up to the second check.\<close>

definition first_round :: "timed_action list" where
  "first_round = [Start, Act Do_keep, Ping, Act Do_keep, Act Do_keep, Check, Act Do_keep]"

definition second_round :: "timed_action list" where
  "second_round = [Wait 4, Ping, Act Do_keep, Act Do_keep, Wait 1]"

lemma silent_sessions_are_closed_witness:
  "\<exists>log s. timed_run simple_intervals list_bytes list_chan list_chan list_chan
     (ticks_within simple_intervals 0) (demo_timed quick) log s \<and> now s = 11 \<and>
     session_is_closed (inner (sys s))"
proof -
  obtain log s where x: "demo_timed_execute (ticks_within simple_intervals 0)
      (first_round @ second_round @ [Check, Wait 6]) (demo_timed quick) = Some (log, s)"
    and s: "now s = 11" "last_heard log = 0" "limits_ok quick (untimed log)"
    by (simp add: timed_exec_simps first_round_def second_round_def quick_def last_heard_def
        limits_ok_def traffic_def)
  have c: "config_valid quick" "enable_keep_alive quick" "keep_alive_interval quick = 4"
    "keep_alive_timeout quick = 5"
    by (simp_all add: quick_def config_valid_def config_default_def)
  note r = timed_execute_run [OF x]
  from silent_sessions_are_closed [OF lst.timed_env_axioms c(1,2) _ r [unfolded demo_timed_def] s(3)] r s c
  show ?thesis by force
qed

text \<open>
  C6. Live peers are not mistaken for dead: with no tick taken more than \<open>late\<close> late, a check of the
  keep-alive task that closes the session comes only when no frame has arrived for a timeout, up to that
  lateness.
\<close>

lemma closed_only_after_silence:
  fixes s :: "('iv, 'fc, 'dc, 'ac) timed"
  assumes "timed_env B F D A I"
    and "timed_run I B F D A (ticks_within I late) (timed_new F A cfg client) log s"
    and "limits_ok cfg (untimed log)" "timed_step I B F D A s (Checks r k) s'"
    and "\<not> session_is_closed (inner (sys s))" "session_is_closed (inner (sys s'))"
  shows "\<not> r \<and> 0 < sint k \<and> last_heard log + keep_alive_timeout cfg \<le> now s + late"
  using timed_env.check_after_silence [OF assms(1-4)] assms(5,6)
  by (simp add: session_is_closed_def is_closed_def)

lemma closed_only_after_silence_witness:
  "\<exists>log s s' k. timed_run simple_intervals list_bytes list_chan list_chan list_chan
     (ticks_within simple_intervals 0) (demo_timed quick) log s \<and>
     timed_step simple_intervals list_bytes list_chan list_chan list_chan s (Checks False k) s' \<and>
     last_heard log + 5 \<le> now s"
proof -
  obtain log s where x: "demo_timed_execute (ticks_within simple_intervals 0)
      (first_round @ second_round) (demo_timed quick) = Some (log, s)"
    and s: "limits_ok quick (untimed log)" "\<not> session_is_closed (inner (sys s))"
      "\<exists>e s'. timed_perform simple_intervals list_bytes list_chan list_chan list_chan
         (ticks_within simple_intervals 0) Check s = Some (e, s') \<and> (\<exists>k. e = Checks False k) \<and>
         session_is_closed (inner (sys s'))"
    by (simp add: timed_exec_simps first_round_def second_round_def quick_def
        limits_ok_def traffic_def session_is_closed_def)
  then obtain k s' where c: "timed_step simple_intervals list_bytes list_chan list_chan list_chan s
      (Checks False k) s'" "session_is_closed (inner (sys s'))"
    using timed_perform_step by blast
  note r = timed_execute_run [OF x]
  from closed_only_after_silence [OF lst.timed_env_axioms r [unfolded demo_timed_def] s(1) c(1) s(2) c(2)] r c
  show ?thesis by (force simp: quick_def)
qed

end
