(* ===== verification/Heartbeats.thy ===== *)
theory Heartbeats
  imports Clocks Progress
begin

text \<open>
  Two sessions with clocks, joined by a transport: each sends its NOP frames and checks for silence. When
  the machines do their work in no time and the ticks are not too late, the two keep each other alive.
\<close>

section \<open>A network with a clock\<close>

record ('iv, 'fc, 'dc, 'ac) tnet =
  clock :: nat
  peer_timers :: "peer \<Rightarrow> 'iv timers option"
  joined :: "('fc, 'dc, 'ac) net"

definition tnet_new ::
    "('fc, frame) flume_api \<Rightarrow> ('ac, stream) flume_api \<Rightarrow> (peer \<Rightarrow> config) \<Rightarrow> ('iv, 'fc, 'dc, 'ac) tnet" where
  "tnet_new F A cfg = \<lparr>clock = 0, peer_timers = (\<lambda>b. None), joined = net_new F A cfg\<rparr>"

text \<open>One side of it, as a session with a clock of its own.\<close>

definition view :: "('iv, 'fc, 'dc, 'ac) tnet \<Rightarrow> peer \<Rightarrow> ('iv, 'fc, 'dc, 'ac) timed" where
  "view n b = \<lparr>now = clock n, timers = peer_timers n b, sys = side (joined n) b\<rparr>"

definition set_view :: "peer \<Rightarrow> ('iv, 'fc, 'dc, 'ac) timed \<Rightarrow> ('iv, 'fc, 'dc, 'ac) tnet \<Rightarrow> ('iv, 'fc, 'dc, 'ac) tnet" where
  "set_view b s n =
     n\<lparr>peer_timers := (peer_timers n)(b := timers s),
       joined := (joined n)\<lparr>side := (side (joined n))(b := sys s)\<rparr>\<rparr>"

definition is_elapse :: "timed_event \<Rightarrow> bool" where
  "is_elapse e \<longleftrightarrow> (\<exists>d. e = Elapses d)"

definition is_timed_arrival :: "timed_event \<Rightarrow> bool" where
  "is_timed_arrival e \<longleftrightarrow> (\<exists>f. e = Does (Arrives f))"

inductive tnet_step ::
    "'iv interval_api \<Rightarrow> bytes_api \<Rightarrow> ('fc, frame) flume_api \<Rightarrow> ('dc, bytes) flume_api
     \<Rightarrow> ('ac, stream) flume_api
     \<Rightarrow> ('iv, 'fc, 'dc, 'ac) tnet \<Rightarrow> (peer \<times> timed_event) list \<Rightarrow> ('iv, 'fc, 'dc, 'ac) tnet \<Rightarrow> bool"
  for I :: "'iv interval_api" and B :: bytes_api and F :: "('fc, frame) flume_api"
    and D :: "('dc, bytes) flume_api" and A :: "('ac, stream) flume_api" where
  tnet_elapses:
    "tnet_step I B F D A n [(Client, Elapses d), (Server, Elapses d)] (n\<lparr>clock := clock n + d\<rparr>)"
| tnet_local:
    "\<lbrakk>timed_step I B F D A (view n b) e s; \<not> is_elapse e; \<not> is_timed_arrival e\<rbrakk>
     \<Longrightarrow> tnet_step I B F D A n [(b, e)] (set_view b s n)"
| tnet_carry:
    "\<lbrakk>0 < k; carried (joined n) b + k \<le> length (wire (side (joined n) b))\<rbrakk>
     \<Longrightarrow> tnet_step I B F D A n [] (n\<lparr>joined := carry b k (joined n)\<rparr>)"
| tnet_arrives:
    "\<lbrakk>decode B (codec_at (joined n) b) (inbuf (joined n) b) = (rest, Inr (Some f));
      timed_step I B F D A (view n b) (Does (Arrives f)) s\<rbrakk>
     \<Longrightarrow> tnet_step I B F D A n [(b, Does (Arrives f))]
           (let n' = set_view b s n
            in n'\<lparr>joined := (joined n')\<lparr>inbuf := (inbuf (joined n'))(b := rest)\<rparr>\<rparr>)"

inductive tnet_run ::
    "'iv interval_api \<Rightarrow> bytes_api \<Rightarrow> ('fc, frame) flume_api \<Rightarrow> ('dc, bytes) flume_api
     \<Rightarrow> ('ac, stream) flume_api \<Rightarrow> (('iv, 'fc, 'dc, 'ac) tnet \<Rightarrow> nat \<Rightarrow> bool)
     \<Rightarrow> ('iv, 'fc, 'dc, 'ac) tnet \<Rightarrow> (nat \<times> peer \<times> timed_event) list \<Rightarrow> ('iv, 'fc, 'dc, 'ac) tnet \<Rightarrow> bool"
  for I :: "'iv interval_api" and B :: bytes_api and F :: "('fc, frame) flume_api"
    and D :: "('dc, bytes) flume_api" and A :: "('ac, stream) flume_api"
    and L :: "('iv, 'fc, 'dc, 'ac) tnet \<Rightarrow> nat \<Rightarrow> bool" where
  tnet_nil: "tnet_run I B F D A L n [] n"
| tnet_snoc:
    "\<lbrakk>tnet_run I B F D A L n log n'; tnet_step I B F D A n' l n'';
      \<forall>b d. (b, Elapses d) \<in> set l \<longrightarrow> L n' d\<rbrakk>
     \<Longrightarrow> tnet_run I B F D A L n (log @ map (Pair (clock n')) l) n''"

text \<open>
  Time passes only when the machines have done their work, no receive task waits for the application to
  accept a stream, and no tick is overdue by more than the bound.
\<close>

definition prompt ::
    "'iv interval_api \<Rightarrow> bytes_api \<Rightarrow> ('fc, frame) flume_api \<Rightarrow> ('dc, bytes) flume_api
     \<Rightarrow> ('ac, stream) flume_api \<Rightarrow> nat \<Rightarrow> ('iv, 'fc, 'dc, 'ac) tnet \<Rightarrow> nat \<Rightarrow> bool" where
  "prompt I B F D A late n d \<longleftrightarrow>
     resting B F D A (joined n) \<and>
     (\<forall>b. ticks_within I late (view n b) d \<and> (\<forall>st. recv_at (side (joined n) b) \<noteq> R_accept st))"

section \<open>Its sides and its run without times\<close>

definition side_log :: "peer \<Rightarrow> (nat \<times> peer \<times> timed_event) list \<Rightarrow> (nat \<times> timed_event) list" where
  "side_log b log = map (\<lambda>(t, c, e). (t, e)) (filter (\<lambda>(t, c, e). c = b) log)"

definition untimed_net :: "(nat \<times> peer \<times> timed_event) list \<Rightarrow> (peer \<times> event) list" where
  "untimed_net log = concat (map (\<lambda>(t, c, e). map (Pair c) (untimed_event e)) log)"

lemma side_log_simps [simp]:
  "side_log b [] = []" "side_log b (log @ log') = side_log b log @ side_log b log'"
  "side_log b ((t, c, e) # log) = (if c = b then (t, e) # side_log b log else side_log b log)"
  by (simp_all add: side_log_def)

lemma untimed_net_simps [simp]:
  "untimed_net [] = []" "untimed_net (log @ log') = untimed_net log @ untimed_net log'"
  "untimed_net ((t, c, e) # log) = map (Pair c) (untimed_event e) @ untimed_net log"
  by (simp_all add: untimed_net_def)

lemma events_of_map [simp]: "events_of b (map (Pair c) es) = (if c = b then es else [])"
  by (induction es) auto

lemma events_of_untimed_net [simp]: "events_of b (untimed_net log) = untimed (side_log b log)"
  by (induction log) auto

lemma view_set_view [simp]:
  "view (set_view b s n) c = (if c = b then s\<lparr>now := clock n\<rparr> else view n c)"
  by (simp add: view_def set_view_def)

lemma view_updates [simp]:
  "view (n\<lparr>clock := t\<rparr>) b = (view n b)\<lparr>now := t\<rparr>"
  "view (n\<lparr>joined := (joined n)\<lparr>inbuf := x\<rparr>\<rparr>) b = view n b"
  "view (n\<lparr>joined := carry c k (joined n)\<rparr>) b = view n b"
  by (simp_all add: view_def carry_def)

lemma view_simps [simp]:
  "now (view n b) = clock n" "timers (view n b) = peer_timers n b" "sys (view n b) = side (joined n) b"
  by (simp_all add: view_def)

lemma set_view_clock [simp]: "clock (set_view b s n) = clock n"
  by (simp add: set_view_def)

lemma timed_step_clock: "\<lbrakk>timed_step I B F D A s e s'; \<not> is_elapse e\<rbrakk> \<Longrightarrow> s'\<lparr>now := now s\<rparr> = s'"
  by (induction rule: timed_step.induct) (simp_all add: is_elapse_def)

lemma tnet_step_view:
  assumes "tnet_step I B F D A n l n'"
  shows "view n' b = view n b \<and> side_log b (map (Pair (clock n)) l) = [] \<or>
         (\<exists>e. side_log b (map (Pair (clock n)) l) = [(clock n, e)] \<and> timed_step I B F D A (view n b) e (view n' b) \<and>
              (b, e) \<in> set l)"
  using assms
proof (induction rule: tnet_step.induct)
  case (tnet_elapses n d)
  from timed_elapses [of I B F D A "view n b" d] show ?case by (cases b) auto
next
  case (tnet_local n c e s)
  with timed_step_clock [OF tnet_local(1,2)] show ?case by auto
next
  case (tnet_arrives n c rest f s)
  have "s\<lparr>now := clock n\<rparr> = s" using timed_step_clock [OF tnet_arrives(2)] by (simp add: is_elapse_def)
  with tnet_arrives show ?case by (auto simp: Let_def)
qed simp

lemma tnet_run_view:
  assumes "tnet_run I B F D A L n log n'" "\<And>n d. L n d \<Longrightarrow> L' (view n b) d"
  shows "timed_run I B F D A L' (view n b) (side_log b log) (view n' b)"
  using assms(1)
proof (induction rule: tnet_run.induct)
  case (tnet_snoc n log n' l n'')
  from tnet_step_view [OF tnet_snoc(2), of b] show ?case
  proof (elim disjE conjE exE)
    fix e assume e: "side_log b (map (Pair (clock n')) l) = [(clock n', e)]"
      "timed_step I B F D A (view n' b) e (view n'' b)" "(b, e) \<in> set l"
    have "timed_run I B F D A L' (view n b) (side_log b log @ [(now (view n' b), e)]) (view n'' b)"
      using tnet_snoc(3) e(3) assms(2) by (intro timed_snoc [OF tnet_snoc.IH e(2)]) blast
    with e(1) show ?thesis by simp
  qed (use tnet_snoc.IH in simp)
qed (simp add: timed_nil)

lemma tnet_step_net:
  assumes "tnet_step I B F D A n l n'"
  shows "joined n' = joined n \<and> untimed_net (map (Pair t) l) = [] \<or>
         net_step B F D A (joined n) (untimed_net (map (Pair t) l)) (joined n')"
  using assms
proof (induction rule: tnet_step.induct)
  case (tnet_local n b e s)
  from timed_step_step [OF tnet_local(1)] show ?case
  proof (elim disjE conjE exE)
    fix e' assume e': "untimed_event e = [e']" "step B F D A (sys (view n b)) e' (sys s)"
    then have "\<not> is_arrival e'" using tnet_local(1,3)
      by (cases e; cases e') (auto simp: is_timed_arrival_def)
    from net_local [OF _ this, of B F D A "joined n" b "sys s"] e' show ?thesis
      by (simp add: set_view_def)
  qed (simp add: set_view_def)
next
  case (tnet_carry k n b)
  then show ?case by (auto intro: net_carry)
next
  case (tnet_arrives n b rest f s)
  from timed_step_step [OF tnet_arrives(2)] have "step B F D A (side (joined n) b) (Arrives f) (sys s)" by simp
  from net_arrives [OF tnet_arrives(1) this] show ?case by (simp add: set_view_def Let_def)
qed simp

lemma tnet_run_net:
  "tnet_run I B F D A L n log n' \<Longrightarrow> net_run B F D A (joined n) (untimed_net log) (joined n')"
proof (induction rule: tnet_run.induct)
  case (tnet_snoc n log n' l n'')
  from tnet_step_net [OF tnet_snoc(2), of "clock n'"] net_snoc [OF tnet_snoc.IH] tnet_snoc.IH
  show ?case by auto
qed (simp add: net_nil)

section \<open>What may close a session\<close>

context session_env
begin

lemma app_step_closed:
  assumes "app_step B F D A s e s'" "system_wf F D A s" "e \<noteq> Closes"
  shows "closed (shared (inner s')) = closed (shared (inner s))"
  using assms
proof (induction rule: app_step.induct)
  case (app_open s i st)
  then have wf: "session_wf D A (inner s)" by (simp add: system_wf_def)
  show ?case by (rule open_stream_prepare_cases [OF wf]) (use app_open in auto)
next
  case (app_open_fails s i e)
  then have wf: "session_wf D A (inner s)" by (simp add: system_wf_def)
  show ?case
    by (rule open_stream_prepare_cases [OF wf])
      (use app_open_fails in \<open>auto simp: next_stream_id_def Let_def split: if_splits\<close>)
next
  case (app_opened k s i st)
  then have wf: "session_wf D A (inner s)" by (simp add: system_wf_def)
  from open_stream_send_keeps [OF wf app_opened(2)] show ?case by simp
next
  case (app_open_refused k s i e)
  then have wf: "session_wf D A (inner s)" by (simp add: system_wf_def)
  from open_stream_send_keeps [OF wf app_open_refused(2)] show ?case by simp
next
  case (app_accepted k s g first i st)
  from accept_select_fields [OF app_accepted(3)] show ?case by simp
next
  case (app_accept_ends k s g first i e)
  from accept_select_fields [OF app_accept_ends(3)] show ?case by simp
next
  case (app_read k s st closing n st' ch ss r)
  from poll_read_channel [OF app_read(3)] show ?case by simp
qed auto

text \<open>Only a call of close, the transport and a tick of the timeout close an open session.\<close>

lemma quiet_step_open:
  assumes "step B F D A s e s'" "run_state F D A cfg c s" "\<not> closed (shared (inner s))"
    and "\<And>f. send_at s = S_sending f \<Longrightarrow> encodable cfg f" "e \<notin> {Closes, Transport_fails, Timeout_tick}"
  shows "\<not> closed (shared (inner s'))"
proof (cases "automatic e")
  case True
  with automatic_step_open [OF assms(1) _ assms(2-4)] show ?thesis by blast
next
  case False
  have "system_wf F D A s" using assms(2) by (simp add: run_state_def)
  with assms(3,5) app_step_closed have "\<not> closed (shared (inner s'))" if "app_step B F D A s e s'"
    using that by blast
  moreover have "\<not> closed (shared (inner s'))" if "keep_step F s e s'"
    using that False assms(3,5) by (auto elim: keep_step.cases)
  moreover have "\<not> recv_step F D A s e s'" "\<not> send_step B F s e s'"
    using False assms(5) by (auto elim: recv_step.cases send_step.cases)
  ultimately show ?thesis using assms(1) by (auto simp: step_def)
qed

end

section \<open>Heartbeats under way\<close>

text \<open>Something is on its way to a side: a NOP that waits to be queued, or bytes not decoded there yet.\<close>

definition under_way :: "('fc, frame) flume_api \<Rightarrow> ('fc, 'dc, 'ac) net \<Rightarrow> peer \<Rightarrow> bool" where
  "under_way F n b \<longleftrightarrow>
     (\<exists>f. keep_at (side n (other b)) = K_ping f) \<or>
     carried n (other b) < length (outgoing F (side n (other b))) \<or> inbuf n b \<noteq> []"

context session_env
begin

lemma keep_step_under_way:
  assumes "keep_step F s e s'" "keep_at s = K_ping f" "capacity F (frame_ch (inner s)) \<noteq> Some 0"
  shows "keep_at s' = K_done \<or> length (outgoing F s) < length (outgoing F s')"
  using assms
proof (induction rule: keep_step.induct)
  case (keep_sends s g fc sent)
  show ?case
    by (cases rule: frames.send_cases [OF keep_sends(4), of g])
      (use keep_sends(2) in \<open>auto simp: send_async_def outgoing_def length_wire_bytes HEADER_SIZE_def\<close>)
qed auto

lemma side_under_way:
  assumes "step B F D A s e s'" "system_wf F D A s" "send_at s' \<notin> {S_exit, S_done}" "keep_at s' \<noteq> K_done"
    and "0 < max_receive_channel_buffer_size (session_config (inner s))" "k \<le> length (outgoing F s)"
    and "(\<exists>f. keep_at s = K_ping f) \<or> k < length (outgoing F s)"
  shows "(\<exists>f. keep_at s' = K_ping f) \<or> k < length (outgoing F s')"
proof -
  have le: "length (outgoing F s) \<le> length (outgoing F s')"
    using step_appends [OF assms(1,2,5,3)] by (auto simp: only_appends_def)
  have cap: "capacity F (frame_ch (inner s)) \<noteq> Some 0" using assms(2,5) by (simp add: system_wf_def)
  have "keep_at s' = K_ping f \<or> length (outgoing F s) < length (outgoing F s')" if "keep_at s = K_ping f" for f
    using that assms(1,4) cap other_steps_keep_at [of F D A s e s' B] keep_step_under_way [of s e s' f]
    by (auto simp: step_def)
  with le assms(6,7) show ?thesis by fastforce
qed

lemma net_step_under_way:
  assumes "net_step B F D A n l n'" "under_way F n b"
    and "system_wf F D A (side n (other b))" "carried n (other b) \<le> length (wire (side n (other b)))"
    and "0 < max_receive_channel_buffer_size (session_config (inner (side n (other b))))"
    and "send_at (side n' (other b)) \<notin> {S_exit, S_done}" "keep_at (side n' (other b)) \<noteq> K_done"
  shows "under_way F n' b \<or> (\<exists>f. (b, Arrives f) \<in> set l)"
proof -
  have "carried n (other b) \<le> length (outgoing F (side n (other b)))"
    using assms(4) by (simp add: outgoing_def)
  note side = side_under_way [OF _ assms(3) _ _ assms(5) this]
  from assms(1) show ?thesis
  proof cases
    case (net_local c e s)
    show ?thesis
    proof (cases rule: peer_cases [of c "other b"])
      case 1
      with side [of e s] net_local assms(2,6,7) show ?thesis by (auto simp: under_way_def)
    qed (use net_local assms(2) in \<open>simp add: under_way_def\<close>)
  next
    case (net_carry k c)
    then show ?thesis using assms(2) by (cases rule: peer_cases [of c b]) (auto simp: under_way_def carry_def)
  next
    case (net_arrives c rest f s)
    show ?thesis
    proof (cases rule: peer_cases [of c "other b"])
      case 1
      with side [of "Arrives f" s] net_arrives assms(2,6,7) show ?thesis by (auto simp: under_way_def)
    qed (use net_arrives in simp)
  qed
qed

text \<open>Nothing is under way when the machines rest.\<close>

lemma resting_not_under_way:
  assumes "resting B F D A n" "settled F n b" "system_wf F D A (side n (other b))"
    and "0 < max_receive_channel_buffer_size (session_config (inner (side n (other b))))"
  shows "\<not> under_way F n b"
proof -
  let ?s = "side n (other b)"
  have "keep_at ?s \<noteq> K_ping f" for f
  proof
    assume ping: "keep_at ?s = K_ping f"
    have "contents F (frame_ch (inner ?s)) = []" using assms(2) by (simp add: settled_def queued_def)
    moreover have "\<not> receivers_gone F (frame_ch (inner ?s))"
      "capacity F (frame_ch (inner ?s)) = Some (max_receive_channel_buffer_size (session_config (inner ?s)))"
      using assms(2,3) by (simp_all add: settled_def system_wf_def send_ok_def)
    ultimately have room: "has_room F (frame_ch (inner ?s))" "\<not> receivers_gone F (frame_ch (inner ?s))"
      "capacity F (frame_ch (inner ?s)) \<noteq> Some 0"
      using assms(4) by (simp_all add: has_room_def)
    obtain fc where "send_async F (frame_ch (inner ?s)) f = (fc, Ready True)"
      by (cases rule: frames.send_cases [OF room(3), of f]) (use room in \<open>simp_all add: send_async_def\<close>)
    from keep_sends [OF ping this] have "step B F D A ?s Internal
        (?s\<lparr>inner := (inner ?s)\<lparr>frame_ch := fc\<rparr>, keep_at := K_top\<rparr>)" by (simp add: step_def)
    from resting_side [OF assms(1) this] ping show False by (auto dest: arg_cong [of _ _ keep_at])
  qed
  moreover have "outgoing F ?s = wire ?s"
    using assms(2) by (auto simp: settled_def queued_def outgoing_def split: send_pc.splits)
  ultimately show ?thesis using assms(2) by (simp add: under_way_def settled_def)
qed

lemma resting_keep:
  assumes "resting B F D A n"
  shows "keep_at (side n b) \<noteq> K_top"
proof
  assume top: "keep_at (side n b) = K_top"
  from resting_side [OF assms, of b Internal] keep_top [OF top, of F] top show False
    by (fastforce simp: step_def dest: arg_cong [of _ _ keep_at])
qed

end

section \<open>The pulse\<close>

text \<open>
  At a side that last heard something at \<open>h\<close>: the other side's next NOP is due within a period \<open>P\<close> of that,
  or its last one is under way and was not late.
\<close>

definition pulse ::
    "'iv interval_api \<Rightarrow> ('fc, frame) flume_api \<Rightarrow> nat \<Rightarrow> nat \<Rightarrow> nat \<Rightarrow> ('iv, 'fc, 'dc, 'ac) tnet \<Rightarrow> peer \<Rightarrow> bool"
  where
  "pulse I F late P h n b \<longleftrightarrow>
     (case peer_timers n (other b) of
        None \<Rightarrow> clock n = 0
      | Some ts \<Rightarrow>
          let q = deadline I (ping_interval ts) in
          q \<le> h + P \<or> q \<le> clock n + P \<and> clock n \<le> h + P + late \<and> under_way F (joined n) b)"

lemma pulse_later: "\<lbrakk>pulse I F late P h n b; h \<le> h'\<rbrakk> \<Longrightarrow> pulse I F late P h' n b"
  by (auto simp: pulse_def Let_def split: option.splits)

lemma last_heard_arrival:
  "(b, Arrives f) \<in> set (untimed_net (map (Pair t) l)) \<Longrightarrow> t \<le> last_heard (side_log b (map (Pair t) l))"
proof (induction l)
  case (Cons x l)
  obtain c e where x: "x = (c, e)" by fastforce
  have split: "side_log b (map (Pair t) (x # l)) = side_log b [(t, x)] @ side_log b (map (Pair t) l)"
    by (simp add: x)
  show ?case
  proof (cases "(b, Arrives f) \<in> set (untimed_net (map (Pair t) l))")
    case True
    with Cons.IH show ?thesis unfolding split last_heard_append by simp
  next
    case False
    with Cons.prems x have "c = b \<and> e = Does (Arrives f)" by (cases e) auto
    then show ?thesis unfolding split last_heard_append by (simp add: x)
  qed
qed simp

text \<open>What a step does to the timer of the other side's NOPs.\<close>

inductive_cases timed_doesE: "timed_step I B F D A s (Does e) s'"

lemma timed_does_step:
  "timed_step I B F D A s (Does e) s' \<Longrightarrow> step B F D A (sys s) e (sys s') \<and> e \<noteq> Timeout_tick"
  by (erule timed_doesE) (auto simp: step_def elim: recv_tickE send_tickE app_tickE)

lemma timed_step_ping_timer:
  assumes "timed_step I B F D A s e s'" "\<not> is_elapse e"
  shows "map_option ping_interval (timers s') = map_option ping_interval (timers s) \<or>
    timers s = None \<and> make_intervals I (session_config (inner (sys s))) (now s) = timers s' \<or>
    (\<exists>ts p g f. e = Pings \<and> timers s = Some ts \<and> poll_tick I (now s) (ping_interval ts) = (p, Ready ()) \<and>
       timers s' = Some (ts\<lparr>ping_interval := p\<rparr>) \<and> keep_at (sys s') = K_ping f)"
  using assms
  by (induction rule: timed_step.induct) (auto simp: is_elapse_def elim: keep_step.cases)

lemma tnet_step_clock: "\<lbrakk>tnet_step I B F D A n l n'; \<forall>b d. (b, Elapses d) \<notin> set l\<rbrakk> \<Longrightarrow> clock n' = clock n"
  by (induction rule: tnet_step.induct) (auto simp: Let_def)

lemma tnet_step_timer:
  assumes "tnet_step I B F D A n l n'" "\<forall>b d. (b, Elapses d) \<notin> set l"
  shows "peer_timers n' b = peer_timers n b \<or>
         (\<exists>e. timed_step I B F D A (view n b) e (view n' b) \<and> \<not> is_elapse e)"
  using tnet_step_view [OF assms(1), of b] assms(2)
  by (metis is_elapse_def view_simps(2))

context timed_env
begin

lemma tnet_step_pulse:
  assumes "tnet_step I B F D A n l n'" "pulse I F late P h n b"
    and "keep_alive_interval (session_config (inner (side (joined n) (other b)))) = P"
    and "system_wf F D A (side (joined n) (other b))"
    and "carried (joined n) (other b) \<le> length (wire (side (joined n) (other b)))"
    and "0 < max_receive_channel_buffer_size (session_config (inner (side (joined n) (other b))))"
    and "send_at (side (joined n') (other b)) \<notin> {S_exit, S_done}"
    and "keep_at (side (joined n') (other b)) \<noteq> K_done"
    and "timers_ok I (session_config (inner (side (joined n) (other b)))) late h2 (view n (other b))"
    and "\<And>c d. (c, Elapses d) \<in> set l \<Longrightarrow> resting B F D A (joined n) \<and> \<not> under_way F (joined n) b"
  shows "pulse I F late P (max h (last_heard (side_log b (map (Pair (clock n)) l)))) n' b"
proof (cases "\<exists>c d. (c, Elapses d) \<in> set l")
  case True
  with assms(1,10) resting_keep [of "joined n" "other b"] assms(2,9) show ?thesis
    by (induction rule: tnet_step.induct)
      (auto simp: pulse_def Let_def timers_ok_def is_elapse_def split: option.splits)
next
  case False
  let ?h = "max h (last_heard (side_log b (map (Pair (clock n)) l)))"
  have clock: "clock n' = clock n" using tnet_step_clock [OF assms(1)] False by blast
  have under: "under_way F (joined n') b \<or> clock n \<le> ?h" if "under_way F (joined n) b"
    using tnet_step_net [OF assms(1), of "clock n"]
  proof (elim disjE conjE)
    assume "net_step B F D A (joined n) (untimed_net (map (Pair (clock n)) l)) (joined n')"
    from net_step_under_way [OF this that assms(4-8)] last_heard_arrival show ?thesis by fastforce
  qed (use that in simp)
  have ok: "clock n \<le> deadline I (ping_interval ts) + late" "period I (ping_interval ts) = P"
    if "peer_timers n (other b) = Some ts" for ts
    using assms(3,9) that by (auto simp: timers_ok_def Let_def)
  from tnet_step_timer [OF assms(1), of "other b"] False
  have "map_option ping_interval (peer_timers n' (other b)) = map_option ping_interval (peer_timers n (other b)) \<or>
    peer_timers n (other b) = None \<and>
      make_intervals I (session_config (inner (side (joined n) (other b)))) (clock n) = peer_timers n' (other b) \<or>
    (\<exists>ts p f. peer_timers n (other b) = Some ts \<and> poll_tick I (clock n) (ping_interval ts) = (p, Ready ()) \<and>
       peer_timers n' (other b) = Some (ts\<lparr>ping_interval := p\<rparr>) \<and>
       keep_at (side (joined n') (other b)) = K_ping f)"
    by (auto dest!: timed_step_ping_timer)
  then show ?thesis
  proof (elim disjE conjE exE)
    assume "map_option ping_interval (peer_timers n' (other b)) = map_option ping_interval (peer_timers n (other b))"
    with assms(2) under clock show ?thesis
      by (cases "peer_timers n (other b)"; cases "peer_timers n' (other b)") (auto simp: pulse_def Let_def)
  next
    assume "peer_timers n (other b) = None"
      "make_intervals I (session_config (inner (side (joined n) (other b)))) (clock n) = peer_timers n' (other b)"
    with assms(2) clock make_intervalsD(1) [of "session_config (inner (side (joined n) (other b)))" "clock n"]
    show ?thesis by (cases "peer_timers n' (other b)") (auto simp: pulse_def Let_def)
  next
    fix ts p f
    assume ts: "peer_timers n (other b) = Some ts" "poll_tick I (clock n) (ping_interval ts) = (p, Ready ())"
      "peer_timers n' (other b) = Some (ts\<lparr>ping_interval := p\<rparr>)" "keep_at (side (joined n') (other b)) = K_ping f"
    then have "under_way F (joined n') b" by (auto simp: under_way_def)
    moreover have "clock n \<le> ?h + P + late"
      using ok [OF ts(1)] assms(2) ts(1) max.cobounded1 [of h "last_heard (side_log b (map (Pair (clock n)) l))"]
      unfolding pulse_def Let_def by (auto simp del: max.cobounded1)
    ultimately show ?thesis
      using ts tickD [OF ts(2)] ok [OF ts(1)] clock by (simp add: pulse_def Let_def)
  qed
qed

text \<open>
  While the other side's NOPs keep coming, no check finds a session silent: nothing closes it but a call
  of close and the transport.
\<close>

lemma tnet_run_side:
  fixes n :: "('iv, 'fc, 'dc, 'ac) tnet"
  assumes "tnet_run I B F D A (prompt I B F D A late) (tnet_new F A cfg) log n"
    and "net_limits cfg (untimed_net log)"
  shows "timed_run I B F D A (ticks_within I late) (timed_new F A (cfg b) (at_client b)) (side_log b log) (view n b)"
    "limits_ok (cfg b) (untimed (side_log b log))"
    "net_run B F D A (net_new F A cfg) (untimed_net log) (joined n)"
    "run_state F D A (cfg b) (at_client b) (side (joined n) b)"
proof -
  have new: "view (tnet_new F A cfg :: ('iv, 'fc, 'dc, 'ac) tnet) b = timed_new F A (cfg b) (at_client b)"
    by (simp add: view_def tnet_new_def timed_new_def net_new_def)
  show "timed_run I B F D A (ticks_within I late) (timed_new F A (cfg b) (at_client b)) (side_log b log) (view n b)"
    using tnet_run_view [OF assms(1), of "ticks_within I late" b] new by (simp add: prompt_def)
  show "limits_ok (cfg b) (untimed (side_log b log))"
    using assms(2) by (simp add: net_limits_def flip: events_of_untimed_net)
  show run: "net_run B F D A (net_new F A cfg) (untimed_net log) (joined n)"
    using tnet_run_net [OF assms(1)] by (simp add: tnet_new_def)
  show "run_state F D A (cfg b) (at_client b) (side (joined n) b)"
    by (rule net_side_state(2) [OF assms(2) run])
qed

lemma heartbeat_step:
  fixes n :: "('iv, 'fc, 'dc, 'ac) tnet"
  assumes "tnet_run I B F D A (prompt I B F D A late) (tnet_new F A cfg) log n"
    and "net_limits cfg (untimed_net log)" "tnet_step I B F D A n l n'"
    and "wire_config (cfg b)" "keep_at (side (joined n) (other b)) \<noteq> K_done"
    and "keep_alive_interval (cfg (other b)) + 2 * late < keep_alive_timeout (cfg b)"
    and "set (untimed_net (map (Pair t) l)) \<inter> {(b, Closes), (b, Transport_fails)} = {}"
    and "\<not> closed (shared (inner (side (joined n) b)))"
    and "pulse I F late (keep_alive_interval (cfg (other b))) (last_heard (side_log b log)) n b"
  shows "\<not> closed (shared (inner (side (joined n') b)))"
proof (rule ccontr)
  assume closed: "\<not> \<not> closed (shared (inner (side (joined n') b)))"
  note side = tnet_run_side [OF assms(1,2)]
  from tnet_step_view [OF assms(3), of b] closed assms(8) obtain e where
    e: "timed_step I B F D A (view n b) e (view n' b)" "(b, e) \<in> set l"
    by (metis view_simps(3))
  have enc: "encodable (cfg b) f" if "send_at (side (joined n) b) = S_sending f" for f
    using that assms(2,4)
    by (intro queued_conforms [OF side(2) _ assms(4)])
      (use timed_run_state(1) [OF side(1,2)] in \<open>auto simp: queued_def net_limits_def\<close>)
  from timed_step_step [OF e(1)] closed assms(8) obtain e' where
    e': "untimed_event e = [e']" "step B F D A (side (joined n) b) e' (side (joined n') b)" by auto
  have "e' \<notin> {Closes, Transport_fails}"
    using assms(7) e(2) e'(1) by (force simp: untimed_net_def)
  with quiet_step_open [OF e'(2) side(4) assms(8) enc] closed have "e' = Timeout_tick" by blast
  moreover have "e' \<noteq> Timeout_tick" if "e = Does e'"
    using timed_does_step e(1) that by blast
  ultimately obtain r k where "e = Checks r k" using e'(1) by (cases e) auto
  with check_after_silence [OF side(1,2)] e(1) assms(8) closed
  have silent: "last_heard (side_log b log) + keep_alive_timeout (cfg b) \<le> clock n + late" by auto
  have "timers_ok I (cfg (other b)) late (last_heard (side_log (other b) log)) (view n (other b))"
    using timed_run_timers [OF side(1,2)] assms(5) by simp
  with assms(9) have "clock n \<le> last_heard (side_log b log) + keep_alive_interval (cfg (other b)) + late \<or> clock n = 0"
    by (auto simp: pulse_def timers_ok_def Let_def split: option.splits)
  with silent assms(6) show False by auto
qed

text \<open>Both sides together: induction over the run.\<close>

lemma heartbeat:
  fixes n :: "('iv, 'fc, 'dc, 'ac) tnet"
  assumes "tnet_run I B F D A (prompt I B F D A late) (tnet_new F A cfg) log n"
    and "net_limits cfg (untimed_net log)" "\<forall>b. wire_config (cfg b) \<and> keep_start (cfg b) \<noteq> K_done"
    and "\<forall>b. max_frame_size (cfg (other b)) \<le> max_frame_size (cfg b)"
    and "\<forall>b. keep_alive_interval (cfg (other b)) + 2 * late < keep_alive_timeout (cfg b)"
    and "\<forall>b. {(b, Closes), (b, Transport_fails)} \<inter> set (untimed_net log) = {}"
  shows "\<forall>b. \<not> closed (shared (inner (side (joined n) b))) \<and>
             pulse I F late (keep_alive_interval (cfg (other b))) (last_heard (side_log b log)) n b"
  using assms(1,2,6)
proof (induction "tnet_new F A cfg :: ('iv, 'fc, 'dc, 'ac) tnet" log n rule: tnet_run.induct)
  case tnet_nil
  show ?case
    by (auto simp: pulse_def tnet_new_def net_new_def system_new_def session_new_def session_state_new_def)
next
  case (tnet_snoc log n l n')
  have lim: "net_limits cfg (untimed_net log)" using tnet_snoc.prems(1) by (auto intro: net_limits_prefix)
  with tnet_snoc have IH: "\<not> closed (shared (inner (side (joined n) b)))"
    "pulse I F late (keep_alive_interval (cfg (other b))) (last_heard (side_log b log)) n b" for b by auto
  note side = tnet_run_side [OF tnet_snoc(1) lim]
  note run' = tnet_run.tnet_snoc [OF tnet_snoc(1,3,4)]
  note side' = tnet_run_side [OF run' tnet_snoc.prems(1)]
  have pos: "0 < max_receive_channel_buffer_size (cfg b)" for b using lim by (simp add: net_limits_def limits_ok_def)
  have st: "system_wf F D A (side (joined n) b)" "session_config (inner (side (joined n) b)) = cfg b" for b
    using side(4) by (simp_all add: run_state_def)
  have keep: "keep_at (side (joined n) b) \<noteq> K_done" for b
    using keep_runs [OF timed_run_state(1) [OF side(1,2)] pos] IH(1) assms(3) by simp
  have open': "\<not> closed (shared (inner (side (joined n') b)))" for b
    using heartbeat_step [OF tnet_snoc(1) lim tnet_snoc(3) _ keep _ _ IH, where t = "clock n"] tnet_snoc.prems(2)
      assms(3,5) by auto
  have keep': "keep_at (side (joined n') b) \<noteq> K_done" for b
    using keep_runs [OF timed_run_state(1) [OF side'(1,2)] pos] open' assms(3) by simp
  have send': "send_at (side (joined n') b) \<notin> {S_exit, S_done}" for b
    using side'(4) [of b] open' by (auto simp: run_state_def system_wf_def send_ok_def)
  have flow: "carried (joined n) (other b) \<le> length (wire (side (joined n) (other b)))" for b
    using net_flow [OF lim side(3), of b] by (simp add: flow_def)
  have rest: "resting B F D A (joined n) \<and> \<not> under_way F (joined n) b" if "(c, Elapses d) \<in> set l" for b c d
  proof -
    from tnet_snoc(4) that have p: "prompt I B F D A late n d" by blast
    then have r: "resting B F D A (joined n)" "\<forall>st. recv_at (side (joined n) b) \<noteq> R_accept st"
      by (simp_all add: prompt_def)
    have "settled F (joined n) b"
      using resting_settled [OF side(3) lim r(1) _ _ r(2)] IH(1) assms(4) by blast
    with resting_not_under_way [OF r(1) _ st(1)] st(2) pos r(1) show ?thesis by simp
  qed
  have timers: "timers_ok I (cfg b) late (last_heard (side_log b log)) (view n b)" for b
    using timed_run_timers [OF side(1,2)] keep by simp
  have "pulse I F late (keep_alive_interval (cfg (other b)))
      (max (last_heard (side_log b log)) (last_heard (side_log b (map (Pair (clock n)) l)))) n' b" for b
    by (rule tnet_step_pulse [OF tnet_snoc(3) IH(2) _ st(1) flow _ send' keep' _ rest])
      (use st(2) pos timers in auto)
  with open' show ?case by simp
qed

end

section \<open>Executions\<close>

text \<open>
  A timed run of a network by chosen actions, in which time passes only when every task waits or has
  ended and no byte is under way.
\<close>

definition all_idle :: "('fc, frame) flume_api \<Rightarrow> ('fc, 'dc, 'ac) net \<Rightarrow> bool" where
  "all_idle F n \<longleftrightarrow>
     (\<forall>b. let s = side n b; g = die_notified (shared (inner s)) in
        recv_at s \<in> {R_select g, R_done} \<and> send_at s \<in> {S_select g, S_done} \<and>
        keep_at s \<in> {K_select g, K_done} \<and>
        (send_at s = S_done \<or>
         contents F (frame_ch (inner s)) = [] \<and> \<not> senders_gone F (frame_ch (inner s))) \<and>
        (inbuf n b = [] \<or> recv_at s = R_done) \<and> carried n b = length (wire s))"

datatype tnet_action = Pass nat | On peer timed_action | Convey peer | Hand_in peer

fun tnet_perform ::
    "'iv interval_api \<Rightarrow> bytes_api \<Rightarrow> ('fc, frame) flume_api \<Rightarrow> ('dc, bytes) flume_api
     \<Rightarrow> ('ac, stream) flume_api \<Rightarrow> nat \<Rightarrow> tnet_action \<Rightarrow> ('iv, 'fc, 'dc, 'ac) tnet
     \<Rightarrow> ((peer \<times> timed_event) list \<times> ('iv, 'fc, 'dc, 'ac) tnet) option" where
  "tnet_perform I B F D A late (Pass d) n =
     (if all_idle F (joined n) \<and> (\<forall>b. ticks_within I late (view n b) d)
      then Some ([(Client, Elapses d), (Server, Elapses d)], n\<lparr>clock := clock n + d\<rparr>) else None)"
| "tnet_perform I B F D A late (On b a) n =
     (case timed_perform I B F D A (\<lambda>s d. False) a (view n b) of
        None \<Rightarrow> None
      | Some (e, s) \<Rightarrow> (case e of Does (Arrives f) \<Rightarrow> None | _ \<Rightarrow> Some ([(b, e)], set_view b s n)))"
| "tnet_perform I B F D A late (Convey b) n =
     (let k = length (wire (side (joined n) b)) - carried (joined n) b
      in if 0 < k then Some ([], n\<lparr>joined := carry b k (joined n)\<rparr>) else None)"
| "tnet_perform I B F D A late (Hand_in b) n =
     (case decode B (codec_at (joined n) b) (inbuf (joined n) b) of
        (rest, Inr (Some f)) \<Rightarrow>
          (case timed_perform I B F D A (\<lambda>s d. False) (Act (Do_arrive f)) (view n b) of
             None \<Rightarrow> None
           | Some (e, s) \<Rightarrow>
               Some ([(b, Does (Arrives f))],
                 let n' = set_view b s n
                 in n'\<lparr>joined := (joined n')\<lparr>inbuf := (inbuf (joined n'))(b := rest)\<rparr>\<rparr>))
      | _ \<Rightarrow> None)"

fun tnet_execute ::
    "'iv interval_api \<Rightarrow> bytes_api \<Rightarrow> ('fc, frame) flume_api \<Rightarrow> ('dc, bytes) flume_api
     \<Rightarrow> ('ac, stream) flume_api \<Rightarrow> nat \<Rightarrow> tnet_action list \<Rightarrow> ('iv, 'fc, 'dc, 'ac) tnet
     \<Rightarrow> ((nat \<times> peer \<times> timed_event) list \<times> ('iv, 'fc, 'dc, 'ac) tnet) option" where
  "tnet_execute I B F D A late [] n = Some ([], n)"
| "tnet_execute I B F D A late (a # as) n =
     (case tnet_perform I B F D A late a n of
        None \<Rightarrow> None
      | Some (l, n') \<Rightarrow> map_option (apfst ((@) (map (Pair (clock n)) l))) (tnet_execute I B F D A late as n'))"

context timed_env
begin

lemma idle_prompt:
  assumes "all_idle F (joined n)" "\<forall>b. ticks_within I late (view n b) d"
  shows "prompt I B F D A late n d"
proof -
  have "resting B F D A (joined n)"
    by (rule idle_rests) (use assms(1) in \<open>auto simp: all_idle_def Let_def\<close>)
  moreover have "recv_at (side (joined n) b) \<noteq> R_accept st" for b st
    using assms(1) by (auto simp: all_idle_def Let_def dest: spec [of _ b])
  ultimately show ?thesis using assms(2) by (simp add: prompt_def)
qed

lemma tnet_perform_step:
  assumes "tnet_perform I B F D A late a n = Some (l, n')"
  shows "tnet_step I B F D A n l n' \<and> (\<forall>b d. (b, Elapses d) \<in> set l \<longrightarrow> prompt I B F D A late n d)"
proof (cases a)
  case (Pass d)
  with assms idle_prompt show ?thesis by (auto split: if_splits intro: tnet_elapses)
next
  case (On b x)
  with assms obtain e s where x: "timed_perform I B F D A (\<lambda>s d. False) x (view n b) = Some (e, s)"
    "l = [(b, e)]" "n' = set_view b s n" "\<not> is_timed_arrival e"
    by (auto simp: is_timed_arrival_def split: option.splits timed_event.splits event.splits)
  from timed_perform_step [OF x(1)] have "timed_step I B F D A (view n b) e s" "\<not> is_elapse e"
    by (auto simp: is_elapse_def)
  with x tnet_local show ?thesis by (auto simp: is_elapse_def)
next
  case (Convey b)
  with assms show ?thesis by (auto simp: Let_def split: if_splits intro!: tnet_carry)
next
  case (Hand_in b)
  with assms obtain rest f e s where x: "decode B (codec_at (joined n) b) (inbuf (joined n) b) = (rest, Inr (Some f))"
    "timed_perform I B F D A (\<lambda>s d. False) (Act (Do_arrive f)) (view n b) = Some (e, s)"
    "l = [(b, Does (Arrives f))]"
    "n' = (let n' = set_view b s n in n'\<lparr>joined := (joined n')\<lparr>inbuf := (inbuf (joined n'))(b := rest)\<rparr>\<rparr>)"
    by (auto simp del: timed_perform.simps split: prod.splits sum.splits option.splits)
  then have "e = Does (Arrives f)" by (auto split: if_splits recv_pc.splits prod.splits)
  with timed_perform_step [OF x(2)] tnet_arrives [OF x(1)] x(3,4) show ?thesis by auto
qed

lemma tnet_run_append:
  assumes "tnet_run I B F D A L n' log' n''" "tnet_run I B F D A L n log n'"
  shows "tnet_run I B F D A L n (log @ log') n''"
  using assms
proof (induction rule: tnet_run.induct)
  case (tnet_snoc n1 log1 n2 l n3)
  from tnet_run.tnet_snoc [OF tnet_snoc.IH [OF tnet_snoc.prems] tnet_snoc.hyps(2,3)] show ?case by simp
qed simp

lemma tnet_execute_run:
  "tnet_execute I B F D A late as n = Some (log, n') \<Longrightarrow> tnet_run I B F D A (prompt I B F D A late) n log n'"
proof (induction as arbitrary: n log)
  case (Cons a as)
  then obtain l n1 log1 where x: "tnet_perform I B F D A late a n = Some (l, n1)"
    "log = map (Pair (clock n)) l @ log1" "tnet_execute I B F D A late as n1 = Some (log1, n')"
    by (auto split: option.splits)
  have "tnet_run I B F D A (prompt I B F D A late) n ([] @ map (Pair (clock n)) l) n1"
    using tnet_perform_step [OF x(1)] by (intro tnet_run.tnet_snoc [OF tnet_run.tnet_nil]) auto
  with tnet_run_append [OF Cons.IH [OF x(3)]] x(2) show ?case by simp
qed (simp add: tnet_nil)

end

text \<open>A round of one side: its NOP is queued, written, carried and received.\<close>

definition beat :: "peer \<Rightarrow> tnet_action list" where
  "beat b =
     [On b Ping, On b (Act Do_keep), On b (Act Do_keep), On b (Act Do_send), On b (Act Do_send),
      On b (Act Do_send), Convey b, Hand_in (other b), On (other b) (Act Do_recv)]"

definition starts_up :: "peer \<Rightarrow> tnet_action list" where
  "starts_up b = [On b Start, On b (Act Do_keep), On b (Act Do_recv), On b (Act Do_send)]"

definition checks :: "peer \<Rightarrow> tnet_action list" where
  "checks b = [On b Check, On b (Act Do_keep)]"

abbreviation demo_tnet_execute where
  "demo_tnet_execute \<equiv> tnet_execute simple_intervals list_bytes list_chan list_chan list_chan 0"

definition demo_tnet :: "config \<Rightarrow> (simple_interval, frame lchan, bytes lchan, stream lchan) tnet" where
  "demo_tnet cfg = tnet_new list_chan list_chan (\<lambda>b. cfg)"

lemmas tnet_exec_simps =
  net_exec_simps timed_exec_simps demo_tnet_def tnet_new_def beat_def starts_up_def checks_def
  all_idle_def all_peers view_def set_view_def

section \<open>Properties\<close>

text \<open>
  C4. Two peers keep each other alive: take a client and a server with keep-alive on, with configurations that
  fit the wire format and the same maximal frame size, in runs within the limits on traffic and identifiers,
  in which no time passes while a task or the transport has work to do or a receive task waits for a
  stream to be accepted, and in which no tick is more than \<open>late\<close> late. If each side's timeout exceeds the
  other's interval by more than twice that lateness, both sessions are open in every state of such a run in
  which no application has closed one and no transport has failed. (With different frame sizes the theorem
  \<open>oversized_frame_closes_receiver\<close> applies.)
\<close>

lemma live_peers_stay_open:
  fixes n :: "('iv, 'fc, 'dc, 'ac) tnet"
  assumes "timed_env B F D A I"
    and "tnet_run I B F D A (prompt I B F D A late) (tnet_new F A cfg) log n"
    and "net_limits cfg (untimed_net log)"
    and "\<forall>b. wire_config (cfg b) \<and> enable_keep_alive (cfg b) \<and> 0 < keep_alive_interval (cfg b)"
    and "\<forall>b. max_frame_size (cfg (other b)) \<le> max_frame_size (cfg b)"
    and "\<forall>b. keep_alive_interval (cfg (other b)) + 2 * late < keep_alive_timeout (cfg b)"
    and "\<forall>b. (b, Closes) \<notin> set (untimed_net log) \<and> (b, Transport_fails) \<notin> set (untimed_net log)"
  shows "\<not> session_is_closed (inner (side (joined n) b))"
proof -
  have "keep_start (cfg b) \<noteq> K_done" for b
    using assms(4) assms(6) [rule_format, of b] by (auto simp: keep_start_def)
  with timed_env.heartbeat [OF assms(1-3) _ assms(5,6)] assms(4,7)
  show ?thesis by (simp add: session_is_closed_def is_closed_def)
qed

lemma live_peers_stay_open_witness:
  "\<exists>log n. tnet_run simple_intervals list_bytes list_chan list_chan list_chan
      (prompt simple_intervals list_bytes list_chan list_chan list_chan 0) (demo_tnet quick) log n \<and>
     clock n = 6 \<and> (5, Server, Checks True 4194304) \<in> set log \<and>
     \<not> session_is_closed (inner (side (joined n) Server))"
proof -
  obtain log n where x: "demo_tnet_execute
      (starts_up Client @ starts_up Server @ beat Client @ beat Server @ checks Client @ checks Server @
       [Pass 4] @ beat Client @ beat Server @ [Pass 1] @ checks Client @ checks Server @ [Pass 1])
      (demo_tnet quick) = Some (log, n)"
    and s: "clock n = 6" "(5, Server, Checks True 4194304) \<in> set log" "net_limits (\<lambda>b. quick) (untimed_net log)"
      "\<forall>b. (b, Closes) \<notin> set (untimed_net log) \<and> (b, Transport_fails) \<notin> set (untimed_net log)"
    by (simp add: tnet_exec_simps quick_def net_limits_def limits_ok_def traffic_def id_limit_def)
  have c: "\<forall>b :: peer. wire_config quick \<and> enable_keep_alive quick \<and> 0 < keep_alive_interval quick"
    "\<forall>b :: peer. keep_alive_interval quick + 2 * 0 < keep_alive_timeout quick"
    by (simp_all add: quick_def wire_config_def config_default_def HEADER_SIZE_def)
  note r = lst.tnet_execute_run [OF x]
  from live_peers_stay_open [OF lst.timed_env_axioms r [unfolded demo_tnet_def] s(3) c(1) _ c(2) s(4)] r s
  show ?thesis by (auto simp: demo_tnet_def)
qed

end
