(* ===== verification/Farewells.thy ===== *)
theory Farewells
  imports Heartbeats
begin

text \<open>
  How one side of a network learns that the other one has ended. Nothing in the protocol says so: when the
  send task of \<open>src/src/session.rs\<close> has returned, for whatever reason, no more frames come, and it is the
  keep-alive of the other side that notices.
\<close>

section \<open>The silence after the end\<close>

text \<open>
  The send task of the other side has ended, its bytes have all been carried, and none of them makes a
  frame that is still to arrive.
\<close>

definition hushed :: "bytes_api \<Rightarrow> ('fc, 'dc, 'ac) net \<Rightarrow> peer \<Rightarrow> bool" where
  "hushed B n b \<longleftrightarrow>
     send_at (side n (other b)) \<in> {S_exit, S_done} \<and>
     carried n (other b) = length (wire (side n (other b))) \<and>
     (recv_at (side n b) = R_done \<or>
      (\<forall>rest f. decode B (codec_at n b) (inbuf n b) \<noteq> (rest, Inr (Some f))))"

lemma done_steps:
  assumes "step B F D A s e s'"
  shows "send_at s \<in> {S_exit, S_done} \<Longrightarrow> wire s' = wire s"
    "recv_at s = R_done \<Longrightarrow> recv_at s' = R_done \<and> \<not> is_arrival e"
proof -
  show "wire s' = wire s" if "send_at s \<in> {S_exit, S_done}"
    using assms that by (auto simp: step_def elim!: recv_step.cases send_step.cases keep_step.cases app_step.cases)
  show "recv_at s' = R_done \<and> \<not> is_arrival e" if "recv_at s = R_done"
  proof
    have none: "\<not> recv_step F D A s e' s'" for e' using that by (auto elim: recv_step.cases)
    then show "recv_at s' = R_done" using assms that other_steps_recv_at unfolding step_def by metis
    show "\<not> is_arrival e"
    proof
      assume "is_arrival e"
      then obtain f where "e = Arrives f" by (cases e) auto
      with assms arrival_step none show False by blast
    qed
  qed
qed

context session_env
begin

lemma net_step_hushed:
  fixes n :: "('fc, 'dc, 'ac) net"
  assumes "net_step B F D A n l n'" "hushed B n b"
    and "session_config (inner (side n' b)) = session_config (inner (side n b))"
  shows "hushed B n' b \<and> \<not> list_ex is_arrival (events_of b l)"
  using assms
proof (induction rule: net_step.induct)
  case (net_local n c e s)
  show ?case
  proof (cases rule: peer_cases [of c b])
    case 1
    have "codec_at (n\<lparr>side := (side n)(c := s)\<rparr>) b = codec_at n b"
      using net_local(4) by (simp add: codec_at_def)
    with done_steps [OF net_local(1)] net_local 1 show ?thesis by (auto simp: hushed_def)
  next
    case 2
    with done_steps [OF net_local(1)] send_at_ended [OF net_local(1)] net_local show ?thesis
      by (auto simp: hushed_def codec_at_def)
  qed
next
  case (net_carry k n c)
  then show ?case
    by (cases rule: peer_cases [of c b]) (auto simp: hushed_def carry_def codec_at_def)
next
  case (net_arrives n c rest f s)
  show ?case
  proof (cases rule: peer_cases [of c b])
    case 1
    with done_steps [OF net_arrives(2)] net_arrives show ?thesis by (auto simp: hushed_def)
  next
    case 2
    with done_steps [OF net_arrives(2)] send_at_ended [OF net_arrives(2)] net_arrives show ?thesis
      by (auto simp: hushed_def codec_at_def)
  qed
qed

text \<open>When the machines rest after the end, the other side has received everything it ever will.\<close>

lemma resting_hushed:
  fixes n :: "('fc, 'dc, 'ac) net"
  assumes "resting B F D A n" "run_state F D A cfg c (side n b)"
    and "send_at (side n (other b)) \<in> {S_exit, S_done}" "\<forall>st. recv_at (side n b) \<noteq> R_accept st"
    and "carried n (other b) \<le> length (wire (side n (other b)))"
  shows "hushed B n b"
  using resting_carried [OF assms(1,5)] resting_decoded [OF assms(1,2) _ assms(4)] assms(3)
  by (auto simp: hushed_def)

end

text \<open>What a step of the network adds to what a side has heard.\<close>

lemma last_heard_Cons: "last_heard (x # log) = max (arrival_time x) (last_heard log)"
  by (simp add: last_heard_def)

lemma last_heard_none: "\<not> list_ex is_arrival (untimed log) \<Longrightarrow> last_heard log = 0"
proof (induction log)
  case (Cons x log)
  obtain t e where "x = (t, e)" by fastforce
  with Cons show ?case by (cases e) (auto simp: last_heard_Cons arrival_time_Does)
qed simp

lemma last_heard_step: "last_heard (side_log b (map (Pair t) l)) \<le> t"
proof (induction l)
  case (Cons x l)
  obtain c e where "x = (c, e)" by fastforce
  with Cons arrival_time_le [of t e] show ?case by (simp add: last_heard_Cons)
qed simp

lemma tnet_step_elapse:
  "\<lbrakk>tnet_step I B F D A n l n'; (c, Elapses d) \<in> set l\<rbrakk>
   \<Longrightarrow> joined n' = joined n \<and> untimed_net (map (Pair t) l) = []"
  by (induction rule: tnet_step.induct) (auto simp: is_elapse_def)

context timed_env
begin

lemma hushed_run:
  fixes n :: "('iv, 'fc, 'dc, 'ac) tnet"
  assumes "tnet_run I B F D A (prompt I B F D A late) n log' n'"
    and "tnet_run I B F D A (prompt I B F D A late) (tnet_new F A cfg) log n"
    and "net_limits cfg (untimed_net (log @ log'))"
    and "send_at (side (joined n) (other b)) \<in> {S_exit, S_done}"
  shows "send_at (side (joined n') (other b)) \<in> {S_exit, S_done} \<and>
         last_heard (side_log b log') \<le> clock n \<and> (clock n' = clock n \<or> hushed B (joined n') b)"
  using assms
proof (induction rule: tnet_run.induct)
  case (tnet_snoc n log' n' l n'')
  have run: "tnet_run I B F D A (prompt I B F D A late) (tnet_new F A cfg) (log @ log') n'"
    by (rule tnet_run_append [OF tnet_snoc(1) tnet_snoc.prems(1)])
  note run'' = tnet_run.tnet_snoc [OF run tnet_snoc(2,3)]
  have lim'': "net_limits cfg (untimed_net ((log @ log') @ map (Pair (clock n')) l))"
    using tnet_snoc.prems(2) by simp
  then have lim: "net_limits cfg (untimed_net (log @ log'))" by (auto intro: net_limits_prefix)
  note IH = tnet_snoc.IH [OF tnet_snoc.prems(1) lim tnet_snoc.prems(3)]
  have config: "session_config (inner (side (joined n'') b)) = session_config (inner (side (joined n') b))"
    using tnet_run_side(4) [OF run lim, of b] tnet_run_side(4) [OF run'' lim'', of b] by (simp add: run_state_def)
  have ended: "send_at (side (joined n'') (other b)) \<in> {S_exit, S_done}"
    using tnet_step_view [OF tnet_snoc(2), of "other b"] timed_step_step send_at_ended IH
    by (metis view_simps(3))
  show ?case
  proof (cases "\<exists>c d. (c, Elapses d) \<in> set l")
    case True
    then have rest: "resting B F D A (joined n')" "\<forall>st. recv_at (side (joined n') b) \<noteq> R_accept st"
      using tnet_snoc(3) by (auto simp: prompt_def)
    have flow: "carried (joined n') (other b) \<le> length (wire (side (joined n') (other b)))"
      using net_flow [OF lim tnet_run_side(3) [OF run lim], of b] by (simp add: flow_def)
    obtain c d where "(c, Elapses d) \<in> set l" using True by blast
    from tnet_step_elapse [OF tnet_snoc(2) this, of "clock n'"]
    have same: "joined n'' = joined n'" "untimed_net (map (Pair (clock n')) l) = []" by blast+
    then have "last_heard (side_log b (map (Pair (clock n')) l)) = 0"
      by (intro last_heard_none) (simp flip: events_of_untimed_net)
    with same resting_hushed [OF rest(1) tnet_run_side(4) [OF run lim] _ rest(2) flow] IH ended
    show ?thesis by simp
  next
    case False
    then have clock: "clock n'' = clock n'" using tnet_step_clock [OF tnet_snoc(2)] by blast
    show ?thesis
    proof (cases "clock n' = clock n")
      case True
      with clock IH ended last_heard_step [of b "clock n'" l] show ?thesis by simp
    next
      case False
      then have hushed: "hushed B (joined n') b" using IH by blast
      have "hushed B (joined n'') b \<and> \<not> list_ex is_arrival (events_of b (untimed_net (map (Pair (clock n')) l)))"
        using tnet_step_net [OF tnet_snoc(2), of "clock n'"] net_step_hushed [OF _ hushed config] hushed
        by (auto simp del: events_of_untimed_net)
      with last_heard_none [of "side_log b (map (Pair (clock n')) l)"] IH ended show ?thesis by simp
    qed
  qed
qed simp

end

section \<open>Properties\<close>

text \<open>
  C9. The end of one side ends the other: when the send task of one side has returned (because its session
  was closed, the transport failed or a frame was refused), the keep-alive of the other side closes its
  session within two timeouts and twice the lateness of the ticks, whatever the first side still does, if the machines
  do their work in no time and no receive task waits for streams to be accepted.
\<close>

lemma ended_side_closes_other:
  fixes n :: "('iv, 'fc, 'dc, 'ac) tnet"
  assumes "timed_env B F D A I"
    and "tnet_run I B F D A (prompt I B F D A late) (tnet_new F A cfg) log n"
    and "send_at (side (joined n) (other b)) \<in> {S_exit, S_done}"
    and "tnet_run I B F D A (prompt I B F D A late) n log' n'"
    and "net_limits cfg (untimed_net (log @ log'))"
    and "config_valid (cfg b)" "enable_keep_alive (cfg b)" "0 < keep_alive_interval (cfg b)"
    and "clock n + 2 * (keep_alive_timeout (cfg b) + late) < clock n'"
  shows "session_is_closed (inner (side (joined n') b))"
proof -
  note run = timed_env.tnet_run_append [OF assms(1,4,2)]
  note whole = timed_env.tnet_run_side(1,2) [OF assms(1) run assms(5), where b = b]
  have "net_limits cfg (untimed_net log)" using assms(5) by (auto intro: net_limits_prefix)
  from timed_env.tnet_run_side(1) [OF assms(1,2) this, of b]
  have "last_heard (side_log b log) \<le> clock n" using last_heard_now by fastforce
  with timed_env.hushed_run [OF assms(1,4,2,5,3)] have "last_heard (side_log b (log @ log')) \<le> clock n" by simp
  moreover have "keep_start (cfg b) \<noteq> K_done"
    using assms(6-8) by (auto simp: keep_start_def config_valid_def)
  moreover from calculation(1) assms(9)
  have "last_heard (side_log b (log @ log')) + 2 * (keep_alive_timeout (cfg b) + late) < now (view n' b)"
    by (simp del: last_heard_append side_log_simps)
  ultimately show ?thesis
    using timed_env.silent_closed [OF assms(1) _ whole] by (simp add: session_is_closed_def is_closed_def)
qed

text \<open>The client closes at once; the server finds out at its second check.\<close>

lemma ended_side_closes_other_witness:
  "\<exists>log n log' n'. tnet_run simple_intervals list_bytes list_chan list_chan list_chan
      (prompt simple_intervals list_bytes list_chan list_chan list_chan 0) (demo_tnet quick) log n \<and>
     tnet_run simple_intervals list_bytes list_chan list_chan list_chan
      (prompt simple_intervals list_bytes list_chan list_chan list_chan 0) n log' n' \<and>
     clock n = 0 \<and> session_is_closed (inner (side (joined n) Client)) \<and>
     \<not> session_is_closed (inner (side (joined n) Server)) \<and>
     clock n' = 11 \<and> session_is_closed (inner (side (joined n') Server))"
proof -
  let ?pings = "[On Server Ping, On Server (Act Do_keep), On Server (Act Do_keep), On Server (Act Do_send),
      On Server (Act Do_send), On Server (Act Do_send), Convey Server]"
  obtain log n where x: "demo_tnet_execute
      (starts_up Client @ starts_up Server @ [On Client (Act Do_close), On Client (Act Do_send)])
      (demo_tnet quick) = Some (log, n)"
    and s: "clock n = 0" "session_is_closed (inner (side (joined n) Client))"
      "\<not> session_is_closed (inner (side (joined n) Server))" "send_at (side (joined n) Client) = S_exit"
      "\<exists>log' n'. demo_tnet_execute
         ([On Client (Act Do_send), On Client (Act Do_recv), On Client (Act Do_keep)] @ ?pings @
          checks Server @ [Pass 4] @ ?pings @ [Pass 1, On Server Check, On Server (Act Do_recv),
          On Server (Act Do_send), On Server (Act Do_send), Pass 6]) n = Some (log', n') \<and>
         clock n' = 11 \<and> net_limits (\<lambda>b. quick) (untimed_net (log @ log'))"
    by (simp add: tnet_exec_simps quick_def net_limits_def limits_ok_def traffic_def id_limit_def
        session_is_closed_def is_closed_def send_end_def send_return_def recv_end_def close_def session_close_def)
  then obtain log' n' where y: "demo_tnet_execute
         ([On Client (Act Do_send), On Client (Act Do_recv), On Client (Act Do_keep)] @ ?pings @
          checks Server @ [Pass 4] @ ?pings @ [Pass 1, On Server Check, On Server (Act Do_recv),
          On Server (Act Do_send), On Server (Act Do_send), Pass 6]) n = Some (log', n')"
    and t: "clock n' = 11" "net_limits (\<lambda>b. quick) (untimed_net (log @ log'))" by blast
  have c: "config_valid quick" "enable_keep_alive quick" "0 < keep_alive_interval quick"
    "keep_alive_timeout quick = 5"
    by (simp_all add: quick_def config_valid_def config_default_def)
  have ended: "send_at (side (joined n) (other Server)) \<in> {S_exit, S_done}" using s(4) by simp
  note r = lst.tnet_execute_run [OF x] lst.tnet_execute_run [OF y]
  from ended_side_closes_other [OF lst.timed_env_axioms r(1) [unfolded demo_tnet_def] ended r(2) t(2) c(1-3)]
    c(4) s t r show ?thesis by (intro exI [of _ log] exI [of _ n] exI [of _ log'] exI [of _ n']) simp
qed

end
