(* ===== verification/Hangups.thy ===== *)
theory Hangups
  imports Fairness Farewells
begin

text \<open>
  How a session ends with its transport. The receive task reads until the transport gives it an error or its
  end, and then closes the session. In a fair run this is bound to happen when a frame comes in that is
  larger than the side accepts, and when both tasks of the other side have ended.
\<close>

context session_env
begin

lemma over_step:
  assumes "step B F D A s e s'" "send_at s = S_done" "recv_at s = R_done"
  shows "send_at s' = S_done" "recv_at s' = R_done" "wire s' = wire s" "departed_event e = []"
proof -
  have none: "\<not> send_step B F s e s'" using assms(2) by (auto elim: send_step.cases)
  then show "send_at s' = S_done" using assms(1,2) other_steps_send_at unfolding step_def by metis
  show "recv_at s' = R_done" using done_steps(2) [OF assms(1,3)] by simp
  show "wire s' = wire s" using done_steps(1) [OF assms(1)] assms(2) by simp
  show "departed_event e = []"
  proof (cases e)
    case (Departs f)
    with assms(1) none show ?thesis
      by (auto simp: step_def elim: recv_step.cases keep_step.cases app_step.cases)
  qed simp_all
qed

text \<open>A side that is not closed for ever stays open; one that is closed once stays closed.\<close>

lemma closed_later:
  fixes ns :: "nat \<Rightarrow> ('fc, 'dc, 'ac) net"
  assumes "endless B F D A cfg ns ls" "\<not> stays_open ns b"
  shows "\<exists>m. \<forall>j \<ge> m. session_is_closed (inner (side (ns j) b))"
  using assms trace_closed [of ns cfg ls _ b]
  by (fastforce simp: stays_open_def endless_def session_is_closed_def is_closed_def)

text \<open>When both tasks of a side have ended, nothing departs there any more.\<close>

lemma over_for_ever:
  fixes ns :: "nat \<Rightarrow> ('fc, 'dc, 'ac) net"
  assumes "endless B F D A cfg ns ls" "send_at (side (ns i) b) = S_done" "recv_at (side (ns i) b) = R_done"
    and "i \<le> j"
  shows "send_at (side (ns j) b) = S_done \<and> recv_at (side (ns j) b) = R_done \<and>
         wire (side (ns j) b) = wire (side (ns i) b) \<and>
         departed (events_of b (log_upto ls j)) = departed (events_of b (log_upto ls i))"
  using assms(4)
proof (induction rule: dec_induct)
  case (step j)
  from net_step_side [OF endless_facts(1) [OF assms(1), of j], of b] show ?case
  proof (elim disjE conjE exE)
    fix e assume e: "events_of b (ls j) = [e]" "step B F D A (side (ns j) b) e (side (ns (Suc j)) b)"
    from over_step [OF e(2)] e(1) step.IH show ?case by simp
  qed (use step.IH in simp)
qed (use assms(2,3) in simp)

lemma hung_up_closes:
  fixes ns :: "nat \<Rightarrow> ('fc, 'dc, 'ac) net"
  assumes "endless B F D A cfg ns ls" "fair B F D A ns ls" "keeps_receiving ns b"
    and "send_at (side (ns i) (other b)) = S_done" "recv_at (side (ns i) (other b)) = R_done"
  shows "\<not> stays_open ns b"
proof
  assume op: "stays_open ns b"
  let ?ds = "departed (events_of (other b) (log_upto ls i))"
  note facts = endless_facts [OF assms(1)]
  note over = over_for_ever [OF assms(1,4,5)]
  obtain m where m: "i \<le> m" "length (wire (side (ns i) (other b))) \<le> carried (ns m) (other b)"
    "\<forall>j \<ge> m. prefix ?ds (inlog ls b j)"
    using departed_arrives [OF assms(1) op assms(2,3), of ?ds i] by auto
  have inlog: "inlog ls b j = ?ds" if "m \<le> j" for j
  proof -
    obtain fs where "departed (events_of (other b) (log_upto ls j)) = inlog ls b j @ fs"
      using net_arrived [OF facts(3) [of j] facts(2) [of j], of b] by (auto simp: inlog_def)
    with over [of j] m(1) that have "?ds = inlog ls b j @ fs" by simp
    then have "prefix (inlog ls b j) ?ds" by (rule prefixI)
    with m(3) that show ?thesis by (simp add: prefix_order.antisym)
  qed
  have "hung_up (ns j) b" if "m \<le> j" for j
  proof -
    have "carried (ns j) (other b) \<le> length (wire (side (ns j) (other b)))"
      using net_flow [OF facts(3) [of j] facts(2) [of j], of b] by (simp add: flow_def)
    moreover have "carried (ns m) (other b) \<le> carried (ns j) (other b)" by (rule carried_mono [OF assms(1) that])
    ultimately show ?thesis using over [of j] m(1,2) that by (simp add: hung_up_def)
  qed
  moreover have "arrived (events_of b (ls j)) = []" if "m \<le> j" for j
    using inlog [OF that] inlog [of "Suc j"] that by (simp add: inlog_def)
  ultimately show False
    using read_eventually [OF assms(1) op _ assms(3), where P = "\<lambda>j. False" and i = m] assms(2)
    by (auto simp: fair_def)
qed

text \<open>A frame that is larger than a side accepts does not arrive there.\<close>

lemma oversized_not_arrived:
  fixes ns :: "nat \<Rightarrow> ('fc, 'dc, 'ac) net"
  assumes "endless B F D A cfg ns ls" "max_frame_size (cfg b) < HEADER_SIZE + length (wire_payload f)"
  shows "f \<notin> set (inlog ls b j)"
proof
  note facts = endless_facts [OF assms(1)]
  assume "f \<in> set (inlog ls b j)"
  with net_flow [OF facts(3) [of j] facts(2) [of j], of b] have "encodable (cfg b) f"
    by (simp add: flow_def inlog_def)
  with assms(2) show False by (simp add: encodable_def)
qed

lemma oversized_closes:
  fixes ns :: "nat \<Rightarrow> ('fc, 'dc, 'ac) net"
  assumes "endless B F D A cfg ns ls" "fair B F D A ns ls" "keeps_receiving ns b"
    and "f \<in> set (departed (events_of (other b) (log_upto ls i)))"
    and "max_frame_size (cfg b) < HEADER_SIZE + length (wire_payload f)"
  shows "\<not> stays_open ns b"
proof
  assume "stays_open ns b"
  from departed_arrives [OF assms(1) this assms(2,3) prefix_order.refl, of i] obtain m where
    "prefix (departed (events_of (other b) (log_upto ls i))) (inlog ls b m)" by blast
  with assms(4) oversized_not_arrived [OF assms(1,5), of m] show False by (auto simp: prefix_def)
qed

end

section \<open>An execution\<close>

text \<open>
  The client sends a frame of eleven bytes to a server that accepts ten. The server closes and ends its
  tasks, then the client does. From then on the application of the client writes nothing for ever.
\<close>

definition demo_sizes :: "peer \<Rightarrow> config" where
  "demo_sizes b = (case b of Client \<Rightarrow> config_default | Server \<Rightarrow> config_default\<lparr>max_frame_size := 10\<rparr>)"

lemma demo_hangup:
  "\<exists>ns ls k. endless list_bytes list_chan list_chan list_chan demo_sizes ns ls \<and>
     fair list_bytes list_chan list_chan list_chan ns ls \<and>
     new_psh 1 1 [5, 6, 7] \<in> set (departed (events_of Client (log_upto ls k))) \<and>
     send_at (side (ns k) Server) = S_done \<and> recv_at (side (ns k) Server) = R_done \<and>
     (\<forall>b. keeps_receiving ns b)"
proof -
  obtain log n where x: "demo_net_execute [At Client Do_open, At Client (Do_open_send 0),
      At Client (Do_write 0 [5, 6, 7]), At Client Do_send, At Client Do_send, At Client Do_send,
      At Client Do_send, At Client Do_send, At Client Do_send, At Client Do_send, Carry Client,
      At Server Do_send, At Server Do_recv, Deliver Server, At Server Do_recv, At Server Do_read_fails,
      At Server Do_send, At Server Do_send, At Server Do_keep, At Client Do_recv, At Client Do_read_fails,
      At Client Do_send, At Client Do_send, At Client Do_keep]
      (net_new list_chan list_chan demo_sizes) = Some (log, n)"
    and s: "net_limits demo_sizes log" "new_psh 1 1 [5, 6, 7] \<in> set (departed (events_of Client log))"
    and same: "net_perform list_bytes list_chan list_chan list_chan (At Client (Do_write 0 [])) n =
      Some ([(Client, Writes 1 [])], n)"
    and idle: "\<forall>b. recv_at (side n b) = R_done" "\<forall>b. send_at (side n b) = S_done"
      "\<forall>b. keep_at (side n b) \<in> {K_select (die_notified (shared (inner (side n b)))), K_done}"
      "\<forall>b. carried n b = length (wire (side n b))"
    by (simp add: net_exec_simps demo_sizes_def net_limits_def limits_ok_def all_peers traffic_def id_limit_def
        departed_def recv_end_def send_end_def send_return_def close_def session_close_def)
  let ?l = "[(Client, Writes 1 [])]"
  have r: "demo_net_run (net_new list_chan list_chan demo_sizes) log n" by (rule net_execute_run [OF x])
  have rest: "resting list_bytes list_chan list_chan list_chan n"
    by (rule lse.idle_rests) (use idle in blast)+
  have "net_step list_bytes list_chan list_chan list_chan n ?l n" by (rule net_perform_step [OF same])
  moreover have "net_limits demo_sizes (log @ concat (replicate m ?l))" for m
    by (rule net_limits_idle [OF s(1)]) (simp_all add: traffic_def)
  ultimately obtain ns ls k where k: "endless list_bytes list_chan list_chan list_chan demo_sizes ns ls"
    "fair list_bytes list_chan list_chan list_chan ns ls"
    "\<forall>i. ns (k + i) = n \<and> log_upto ls (k + i) = log @ concat (replicate i ?l)"
    using lse.resting_lasts [OF r _ _ rest] idle(1) by blast
  have n: "ns j = n" if "k \<le> j" for j using k(3) that le_Suc_ex by metis
  have "keeps_receiving ns b" for b
    unfolding keeps_receiving_def
  proof
    fix i have "ns (max i k) = n" by (rule n) simp
    with idle(1) show "\<exists>j \<ge> i. \<forall>st. recv_at (side (ns j) b) \<noteq> R_accept st"
      by (intro exI [of _ "max i k"]) simp
  qed
  moreover have "log_upto ls k = log" using k(3) [rule_format, of 0] by simp
  ultimately show ?thesis using k(1,2) s(2) idle n [of k] by (intro exI [of _ ns] exI [of _ ls] exI [of _ k]) simp
qed

section \<open>Properties\<close>

text \<open>
  C8. Sessions that disagree on the frame size break: when in a weakly fair infinite run within the limits a
  frame departs that is larger than the other side accepts, and the receive task of that side does not wait
  for ever for room in its accept queue, then the frame never arrives, and the side that was to receive it
  closes its session and stays closed.
\<close>

lemma oversized_frame_closes_receiver:
  fixes ns :: "nat \<Rightarrow> ('fc, 'dc, 'ac) net"
  assumes "session_env B F D A" "endless B F D A cfg ns ls" "fair B F D A ns ls" "keeps_receiving ns b"
    and "f \<in> set (departed (events_of (other b) (log_upto ls i)))"
    and "max_frame_size (cfg b) < HEADER_SIZE + length (wire_payload f)"
  shows "(\<forall>j. f \<notin> set (inlog ls b j)) \<and> (\<exists>m. \<forall>j \<ge> m. session_is_closed (inner (side (ns j) b)))"
  using session_env.oversized_not_arrived [OF assms(1,2,6)] session_env.oversized_closes [OF assms]
    session_env.closed_later [OF assms(1,2)] by blast

lemma oversized_frame_closes_receiver_witness:
  "\<exists>ns ls m. endless list_bytes list_chan list_chan list_chan demo_sizes ns ls \<and>
     (\<forall>j. new_psh 1 1 [5, 6, 7] \<notin> set (inlog ls Server j)) \<and>
     (\<forall>j \<ge> m. session_is_closed (inner (side (ns j) Server)))"
proof -
  obtain ns ls k where k: "endless list_bytes list_chan list_chan list_chan demo_sizes ns ls"
    "fair list_bytes list_chan list_chan list_chan ns ls"
    "new_psh 1 1 [5, 6, 7] \<in> set (departed (events_of Client (log_upto ls k)))" "keeps_receiving ns Server"
    using demo_hangup by blast
  have "max_frame_size (demo_sizes Server) < HEADER_SIZE + length (wire_payload (new_psh 1 1 [5, 6, 7]))"
    by (simp add: demo_sizes_def HEADER_SIZE_def wire_payload_def frame_new_defs)
  with oversized_frame_closes_receiver [OF lse.session_env_axioms k(1,2,4), of "new_psh 1 1 [5, 6, 7]" k] k(1,3)
  show ?thesis by auto
qed

text \<open>
  C7. The end of a transport reaches the other side: when the send task and the receive task of a side have
  both ended, its end of the transport is dropped, and in every weakly fair infinite run within the limits in
  which the receive task of the other side does not wait for ever for room in its accept queue, the other
  side closes its session too and stays closed, without any help from the keep-alive. (A receive task that
  waits on a full queue never reads the end of the transport, as the theorem
  \<open>receive_task_stuck_on_accept_queue\<close> shows.)
\<close>

lemma ended_tasks_close_peer:
  fixes ns :: "nat \<Rightarrow> ('fc, 'dc, 'ac) net"
  assumes "session_env B F D A" "endless B F D A cfg ns ls" "fair B F D A ns ls" "keeps_receiving ns b"
    and "send_at (side (ns i) (other b)) = S_done" "recv_at (side (ns i) (other b)) = R_done"
  shows "\<exists>m. \<forall>j \<ge> m. session_is_closed (inner (side (ns j) b))"
  by (rule session_env.closed_later [OF assms(1,2) session_env.hung_up_closes [OF assms]])

lemma ended_tasks_close_peer_witness:
  "\<exists>ns ls m. endless list_bytes list_chan list_chan list_chan demo_sizes ns ls \<and>
     (\<forall>j \<ge> m. session_is_closed (inner (side (ns j) Client)))"
proof -
  obtain ns ls k where k: "endless list_bytes list_chan list_chan list_chan demo_sizes ns ls"
    "fair list_bytes list_chan list_chan list_chan ns ls" "keeps_receiving ns Client"
    "send_at (side (ns k) Server) = S_done" "recv_at (side (ns k) Server) = R_done"
    using demo_hangup by blast
  with ended_tasks_close_peer [OF lse.session_env_axioms k(1-3), of k] show ?thesis by auto
qed

end
