(* ===== verification/Stalls.thy ===== *)
theory Stalls
  imports Heartbeats
begin

text \<open>
  When the keep-alive task or the receive task of \<open>src/src/session.rs\<close> cannot go on, and what becomes of the
  keep-alive then: a NOP that waits for room in the frame channel, ticks that were missed, and a stream
  that nobody accepts.
\<close>

section \<open>A NOP that waits for room\<close>

text \<open>The frame channel is full and the send task is writing a frame that the encoder accepts.\<close>

definition jammed :: "('fc, frame) flume_api \<Rightarrow> frame \<Rightarrow> ('fc, 'dc, 'ac) system \<Rightarrow> bool" where
  "jammed F g s \<longleftrightarrow>
     send_at s = S_sending g \<and> encodable (session_config (inner s)) g \<and>
     \<not> has_room F (frame_ch (inner s))"

context session_env
begin

lemma has_room_appends:
  "\<lbrakk>appends F fc fc'; capacity F fc' = capacity F fc; \<not> has_room F fc\<rbrakk> \<Longrightarrow> \<not> has_room F fc'"
  by (auto simp: appends_def has_room_def split: option.splits)

lemma jammed_step:
  assumes "step B F D A s e s'" "system_wf F D A s" "jammed F g s" "keep_at s = K_ping f"
    and "0 < max_receive_channel_buffer_size (session_config (inner s))"
    and "e \<noteq> Transport_fails" "\<forall>h. e \<noteq> Departs h"
  shows "jammed F g s' \<and> keep_at s' = K_ping f \<and> e \<notin> {Ping_tick, Timeout_tick}"
proof -
  note adv = step_wf [OF assms(1,2)]
  then have cfg: "session_config (inner s') = session_config (inner s)"
    and cap: "capacity F (frame_ch (inner s')) = capacity F (frame_ch (inner s))"
    using assms(2) by (simp_all add: advances_def system_wf_def)
  have cap0: "capacity F (frame_ch (inner s)) \<noteq> Some 0" using assms(2,5) by (simp add: system_wf_def)
  have open': "\<not> receivers_gone F (frame_ch (inner s))"
    using assms(2,3) by (simp add: system_wf_def send_ok_def jammed_def)
  have "\<not> send_step B F s e s'"
    using assms(3,6,7) by (auto simp: jammed_def bytes.encode_encodable elim: send_step.cases)
  moreover have "\<not> keep_step F s e s'"
  proof
    assume "keep_step F s e s'"
    then obtain fc sent where "send_async F (frame_ch (inner s)) f = (fc, Ready sent)"
      using assms(4) by (auto elim: keep_step.cases)
    then show False
      by (cases rule: frames.send_cases [OF cap0, of f])
        (use open' assms(3) in \<open>auto simp: send_async_def jammed_def\<close>)
  qed
  ultimately have other: "recv_step F D A s e s' \<or> app_step B F D A s e s'"
    using assms(1) by (auto simp: step_def)
  then have "keep_at s' = keep_at s" using other_steps_keep_at by blast
  moreover have "send_at s' = send_at s" "appends F (frame_ch (inner s)) (frame_ch (inner s'))"
    using other_steps_appends [OF _ assms(2,5)] other by blast+
  moreover have "e \<notin> {Ping_tick, Timeout_tick}" using other by (auto elim: recv_step.cases app_step.cases)
  ultimately show ?thesis
    using assms(3,4) has_room_appends [OF _ cap] cfg by (simp add: jammed_def)
qed

end

context timed_env
begin

lemma jammed_run:
  fixes s :: "('iv, 'fc, 'dc, 'ac) timed"
  assumes "timed_run I B F D A L s log s'" "system_wf F D A (sys s)" "jammed F g (sys s)"
    and "keep_at (sys s) = K_ping f"
    and "0 < max_receive_channel_buffer_size (session_config (inner (sys s)))"
    and "Transport_fails \<notin> set (untimed log)" "\<forall>h. Departs h \<notin> set (untimed log)"
  shows "system_wf F D A (sys s') \<and> session_config (inner (sys s')) = session_config (inner (sys s)) \<and>
         jammed F g (sys s') \<and> keep_at (sys s') = K_ping f \<and>
         Ping_tick \<notin> set (untimed log) \<and> Timeout_tick \<notin> set (untimed log)"
  using assms
proof (induction rule: timed_run.induct)
  case (timed_snoc s log s' e s'')
  then have IH: "system_wf F D A (sys s')" "session_config (inner (sys s')) = session_config (inner (sys s))"
    "jammed F g (sys s')" "keep_at (sys s') = K_ping f"
    "Ping_tick \<notin> set (untimed log)" "Timeout_tick \<notin> set (untimed log)" by auto
  from timed_step_step [OF timed_snoc(2)] show ?case
  proof (elim disjE conjE exE)
    fix e' assume e': "untimed_event e = [e']" "step B F D A (sys s') e' (sys s'')"
    with timed_snoc.prems(5,6) have "e' \<noteq> Transport_fails" "\<forall>h. e' \<noteq> Departs h" by auto
    with jammed_step [OF e'(2) IH(1,3,4)] step_wf [OF e'(2) IH(1)] IH timed_snoc.prems(4) e'(1)
    show ?thesis by (auto simp: advances_def)
  qed (use IH in auto)
qed simp

end

section \<open>Missed ticks\<close>

text \<open>
  An interval makes up for the ticks it has missed. If the timeout is overdue by a period, two checks
  follow each other at one moment, and the second finds nothing because the first has just reset the flag.
\<close>

context timed_env
begin

lemma check_step:
  fixes s :: "('iv, 'fc, 'dc, 'ac) timed"
  assumes "timers s = Some ts" "deadline I (timeout_interval ts) \<le> now s" "keep_at (sys s) = K_select g"
    and "keep_timeout (shared (inner (sys s))) = (ss, stop)"
  obtains ts' where "timed_step I B F D A s
      (Checks (data_received (shared (inner (sys s)))) (get_tokens (shared (inner (sys s)))))
      (s\<lparr>timers := Some ts', sys := (sys s)\<lparr>inner := (inner (sys s))\<lparr>shared := ss\<rparr>,
                                             keep_at := (if stop then K_done else K_top)\<rparr>\<rparr>)"
    "deadline I (timeout_interval ts') = deadline I (timeout_interval ts) + period I (timeout_interval ts)"
proof -
  obtain q where q: "poll_tick I (now s) (timeout_interval ts) = (q, Ready ())"
    "deadline I q = deadline I (timeout_interval ts) + period I (timeout_interval ts)"
    using tick_due [OF assms(2)] by blast
  from timed_check [where F = F, OF assms(1) q(1) keep_ticks [OF assms(3,4)] refl refl] show ?thesis
    by (rule that [of "ts\<lparr>timeout_interval := q\<rparr>"]) (use q(2) in simp)
qed

lemma keep_timeout_eq:
  "keep_timeout ss =
     (if data_received ss then (ss\<lparr>data_received := False\<rparr>, False)
      else if 0 < token_balance ss then (close (ss\<lparr>data_received := False\<rparr>), True)
      else (ss\<lparr>data_received := False\<rparr>, False))"
  by (simp add: keep_timeout_def check_and_reset_data_received_def get_tokens_def token_balance_def)

lemma overdue_closes:
  fixes s :: "('iv, 'fc, 'dc, 'ac) timed"
  assumes "timers s = Some ts" "keep_at (sys s) = K_select g" "0 < token_balance (shared (inner (sys s)))"
    and "deadline I (timeout_interval ts) + period I (timeout_interval ts) \<le> now s"
    and "k = get_tokens (shared (inner (sys s)))"
  shows "\<exists>log s' ss. timed_run I B F D A L s log s' \<and> closed ss \<and> now s' = now s \<and>
           sys s' = (sys s)\<lparr>inner := (inner (sys s))\<lparr>shared := ss\<rparr>, keep_at := K_done\<rparr> \<and>
           map snd log = (if data_received (shared (inner (sys s)))
                          then [Checks True k, Does Internal, Checks False k] else [Checks False k])"
proof (cases "data_received (shared (inner (sys s)))")
  case False
  let ?ss = "close ((shared (inner (sys s)))\<lparr>data_received := False\<rparr>)"
  have "keep_timeout (shared (inner (sys s))) = (?ss, True)" using False assms(3) by (simp add: keep_timeout_eq)
  from check_step [OF assms(1) _ assms(2) this] assms(4) obtain ts1 where
    "timed_step I B F D A s (Checks False k)
       (s\<lparr>timers := Some ts1, sys := (sys s)\<lparr>inner := (inner (sys s))\<lparr>shared := ?ss\<rparr>, keep_at := K_done\<rparr>\<rparr>)"
    using False assms(5) by auto
  then have "timed_run I B F D A L s [(now s, Checks False k)]
      (s\<lparr>timers := Some ts1, sys := (sys s)\<lparr>inner := (inner (sys s))\<lparr>shared := ?ss\<rparr>, keep_at := K_done\<rparr>\<rparr>)"
    by (intro timed_run_Cons [OF timed_nil]) simp_all
  then show ?thesis
    by (rule_tac exI, rule_tac exI, rule_tac exI [of _ ?ss], intro conjI, assumption) (use False in simp_all)
next
  case True
  let ?s1 = "(shared (inner (sys s)))\<lparr>data_received := False\<rparr>"
  have "keep_timeout (shared (inner (sys s))) = (?s1, False)" using True by (simp add: keep_timeout_eq)
  from check_step [OF assms(1) _ assms(2) this] assms(4) obtain ts1 where
    c1: "timed_step I B F D A s (Checks True k)
       (s\<lparr>timers := Some ts1, sys := (sys s)\<lparr>inner := (inner (sys s))\<lparr>shared := ?s1\<rparr>, keep_at := K_top\<rparr>\<rparr>)"
    "deadline I (timeout_interval ts1) = deadline I (timeout_interval ts) + period I (timeout_interval ts)"
    using True assms(5) by auto
  let ?t1 = "s\<lparr>timers := Some ts1, sys := (sys s)\<lparr>inner := (inner (sys s))\<lparr>shared := ?s1\<rparr>, keep_at := K_top\<rparr>\<rparr>"
  let ?t2 = "?t1\<lparr>sys := (sys ?t1)\<lparr>keep_at := K_select (die_notified (shared (inner (sys ?t1))))\<rparr>\<rparr>"
  have c2: "timed_step I B F D A ?t1 (Does Internal) ?t2"
    by (rule timed_keep [OF _ keep_top]) simp_all
  let ?ss = "close (?s1\<lparr>data_received := False\<rparr>)"
  have again: "timers ?t2 = Some ts1" "deadline I (timeout_interval ts1) \<le> now ?t2"
    "keep_at (sys ?t2) = K_select (die_notified (shared (inner (sys ?t1))))"
    "keep_timeout (shared (inner (sys ?t2))) = (?ss, True)"
    using c1(2) assms(3,4) by (simp_all add: keep_timeout_eq token_balance_def)
  obtain ts3 where c3: "timed_step I B F D A ?t2
      (Checks (data_received (shared (inner (sys ?t2)))) (get_tokens (shared (inner (sys ?t2)))))
      (?t2\<lparr>timers := Some ts3, sys := (sys ?t2)\<lparr>inner := (inner (sys ?t2))\<lparr>shared := ?ss\<rparr>,
                                                  keep_at := (if True then K_done else K_top)\<rparr>\<rparr>)"
    by (rule check_step [OF again])
  let ?t3 = "?t2\<lparr>timers := Some ts3, sys := (sys ?t2)\<lparr>inner := (inner (sys ?t2))\<lparr>shared := ?ss\<rparr>, keep_at := K_done\<rparr>\<rparr>"
  have c3': "timed_step I B F D A ?t2 (Checks False k) ?t3" using c3 assms(5) by (simp add: get_tokens_def)
  have run: "timed_run I B F D A L s [(now s, Checks True k), (now ?t1, Does Internal), (now ?t2, Checks False k)] ?t3"
    by (intro timed_run_Cons [OF _ c1(1)] timed_run_Cons [OF _ c2] timed_run_Cons [OF timed_nil c3']) simp_all
  show ?thesis
    by (rule exI, rule exI [of _ ?t3], rule exI [of _ ?ss], intro conjI, rule run) (use True in simp_all)
qed

end

section \<open>A stream that nobody accepts\<close>

context session_env
begin

lemma open_stream_send_accept_ch: "open_stream_send F D st s = (s', r) \<Longrightarrow> accept_ch s' = accept_ch s"
  by (auto simp: open_stream_send_def split: prod.splits poll.splits bool.splits)

lemma app_step_keeps_accept_ch:
  assumes "app_step B F D A s e s'" "session_wf D A (inner s)" "\<forall>sid. e \<noteq> Accepts sid"
  shows "accept_ch (inner s') = accept_ch (inner s)"
  using assms
proof (induction rule: app_step.induct)
  case (app_open s i st)
  show ?case by (rule open_stream_prepare_cases [OF app_open(2)]) (use app_open in auto)
next
  case (app_open_fails s i e)
  show ?case
    by (rule open_stream_prepare_cases [OF app_open_fails(2)])
      (use app_open_fails(1) in \<open>auto simp: next_stream_id_def Let_def split: if_splits\<close>)
next
  case (app_accept_ends k s g first i e)
  with accept_select_cases [OF app_accept_ends(4,3)] show ?case by simp
qed (auto simp: session_close_def dest: open_stream_send_accept_ch)

lemma unaccepted_step:
  assumes "step B F D A s e s'" "system_wf F D A s" "\<forall>sid. e \<noteq> Accepts sid"
    and "recv_at s = R_accept st" "\<not> has_room A (accept_ch (inner s))"
  shows "recv_at s' = R_accept st \<and> \<not> has_room A (accept_ch (inner s')) \<and> \<not> is_arrival e"
proof -
  have wf: "session_wf D A (inner s)" using assms(2) by (simp add: system_wf_def)
  have "?thesis" if "recv_step F D A s e s'"
    using that assms(4)
  proof (cases rule: recv_step.cases)
    case (recv_accept st' i out)
    with syn_send_cases [OF wf recv_accept(4)] assms(4,5) show ?thesis by simp
  qed simp_all
  moreover have "accept_ch (inner s') = accept_ch (inner s) \<and> recv_at s' = recv_at s \<and> \<not> is_arrival e"
    if "send_step B F s e s' \<or> keep_step F s e s'"
    using that by (auto simp: send_end_def send_return_def elim: send_step.cases keep_step.cases)
  moreover have "accept_ch (inner s') = accept_ch (inner s) \<and> recv_at s' = recv_at s \<and> \<not> is_arrival e"
    if "app_step B F D A s e s'"
    using app_step_keeps_accept_ch [OF that wf assms(3)] that by (auto elim: app_step.cases)
  ultimately show ?thesis using assms(1,4,5) unfolding step_def by metis
qed

end

lemma timed_run_append:
  assumes "timed_run I B F D A L s' log' s''" "timed_run I B F D A L s log s'"
  shows "timed_run I B F D A L s (log @ log') s''"
  using assms
proof (induction rule: timed_run.induct)
  case (timed_snoc s1 log1 s2 e s3)
  from timed_run.timed_snoc [OF timed_snoc.IH [OF timed_snoc.prems] timed_snoc.hyps(2,3)] show ?case by simp
qed simp

context timed_env
begin

lemma unaccepted_run:
  fixes s :: "('iv, 'fc, 'dc, 'ac) timed"
  assumes "timed_run I B F D A L s log s'" "system_wf F D A (sys s)" "recv_at (sys s) = R_accept st"
    and "\<not> has_room A (accept_ch (inner (sys s)))" "\<forall>sid. Accepts sid \<notin> set (untimed log)"
  shows "system_wf F D A (sys s') \<and> recv_at (sys s') = R_accept st \<and>
         \<not> has_room A (accept_ch (inner (sys s'))) \<and> (\<forall>f. Arrives f \<notin> set (untimed log)) \<and> last_heard log = 0"
  using assms
proof (induction rule: timed_run.induct)
  case (timed_snoc s log s' e s'')
  then have IH: "system_wf F D A (sys s')" "recv_at (sys s') = R_accept st"
    "\<not> has_room A (accept_ch (inner (sys s')))" "\<forall>f. Arrives f \<notin> set (untimed log)" "last_heard log = 0" by auto
  from timed_step_step [OF timed_snoc(2)] show ?case
  proof (elim disjE conjE exE)
    fix e' assume e': "untimed_event e = [e']" "step B F D A (sys s') e' (sys s'')"
    with timed_snoc.prems(4) have "\<forall>sid. e' \<noteq> Accepts sid" by auto
    from unaccepted_step [OF e'(2) IH(1) this IH(2,3)] step_wf [OF e'(2) IH(1)] IH e'(1)
    show ?thesis by (cases e) (auto simp: advances_def arrival_time_Does)
  next
    assume "untimed_event e = []" "sys s'' = sys s'"
    with IH show ?thesis by (cases e) auto
  qed
qed simp

lemma timed_run_periods:
  fixes s :: "('iv, 'fc, 'dc, 'ac) timed"
  assumes "timed_run I B F D A L (timed_new F A cfg client) log s"
    and "limits_ok cfg (untimed log)" "timers s = Some ts"
  shows "period I (ping_interval ts) = keep_alive_interval cfg"
    "period I (timeout_interval ts) = keep_alive_timeout cfg"
proof -
  have "\<forall>ts. timers s = Some ts \<longrightarrow> period I (ping_interval ts) = keep_alive_interval cfg \<and>
      period I (timeout_interval ts) = keep_alive_timeout cfg"
    using assms(1,2)
  proof (induction "timed_new F A cfg client :: ('iv, 'fc, 'dc, 'ac) timed" log s rule: timed_run.induct)
    case timed_nil
    show ?case by (simp add: timed_new_def)
  next
    case (timed_snoc log s e s')
    have lim: "limits_ok cfg (untimed log)" using timed_snoc.prems by (auto intro: limits_ok_prefix)
    have "session_config (inner (sys s)) = cfg"
      using timed_run_state(2) [OF timed_snoc(1) lim] by (simp add: run_state_def)
    with timed_snoc(3) timed_snoc(2) [OF lim] show ?case
      by (induction rule: timed_step.induct) (auto dest: make_intervalsD tickD)
  qed
  with assms(3) show "period I (ping_interval ts) = keep_alive_interval cfg"
    "period I (timeout_interval ts) = keep_alive_timeout cfg" by blast+
qed

end

section \<open>Without keep-alive\<close>

context timed_env
begin

text \<open>Without keep-alive only the application and the transport close a session.\<close>

lemma disabled_stays_open:
  fixes s :: "('iv, 'fc, 'dc, 'ac) timed"
  assumes "timed_run I B F D A L (timed_new F A cfg client) log s" "limits_ok cfg (untimed log)"
    and "wire_config cfg" "length (opened_ids (untimed log)) < id_limit" "keep_start cfg = K_done"
    and "Closes \<notin> set (untimed log)" "Transport_fails \<notin> set (untimed log)"
  shows "\<not> closed (shared (inner (sys s))) \<and> keep_at (sys s) = K_done \<and> Timeout_tick \<notin> set (untimed log)"
  using assms(1,2,4,6,7)
proof (induction "timed_new F A cfg client :: ('iv, 'fc, 'dc, 'ac) timed" log s rule: timed_run.induct)
  case timed_nil
  show ?case using assms(5)
    by (simp add: timed_new_def system_new_def session_new_def session_state_new_def)
next
  case (timed_snoc log s e s')
  have lim: "limits_ok cfg (untimed log)" using timed_snoc.prems(1) by (auto intro: limits_ok_prefix)
  with timed_snoc have IH: "\<not> closed (shared (inner (sys s)))" "keep_at (sys s) = K_done"
    "Timeout_tick \<notin> set (untimed log)" by auto
  note st = timed_run_state [OF timed_snoc(1) lim]
  have enc: "encodable cfg f" if "send_at (sys s) = S_sending f" for f
    using that timed_snoc.prems(2)
    by (intro queued_conforms [OF lim st(1) assms(3)]) (auto simp: queued_def)
  from timed_step_step [OF timed_snoc(3)] show ?case
  proof (elim disjE conjE exE)
    fix e' assume e': "untimed_event e = [e']" "step B F D A (sys s) e' (sys s')"
    have "keep_at (sys s') = K_done" using step_keep_done [OF e'(2) IH(2)] .
    moreover have "\<not> keep_step F (sys s) Timeout_tick (sys s')" using IH(2) by (auto elim: keep_tickE)
    then have "e' \<noteq> Timeout_tick" using timeout_step e'(2) by blast
    moreover from this have "\<not> closed (shared (inner (sys s')))"
      using quiet_step_open [OF e'(2) st(2) IH(1) enc] timed_snoc.prems(3,4) e'(1) by auto
    ultimately show ?thesis using IH(3) e'(1) by simp
  qed (use IH in simp)
qed

end

section \<open>Properties\<close>

text \<open>
  C25. A NOP that finds no room stops the keep-alive: while the frame channel is full and the transport
  takes nothing, the keep-alive task waits in the send of its NOP, takes no tick and makes no check, however
  much time passes, whatever else happens, and also after the session has been closed.
\<close>

lemma blocked_ping_stops_checks:
  fixes s :: "('iv, 'fc, 'dc, 'ac) timed"
  assumes "timed_env B F D A I" "timed_run I B F D A L (timed_new F A cfg client) log s"
    and "limits_ok cfg (untimed log)" "jammed F g (sys s)" "keep_at (sys s) = K_ping f"
    and "timed_run I B F D A L s log' s'"
    and "Transport_fails \<notin> set (untimed log')" "\<forall>h. Departs h \<notin> set (untimed log')"
  shows "keep_at (sys s') = K_ping f \<and> Timeout_tick \<notin> set (untimed log')"
proof -
  have "run_state F D A cfg client (sys s)" by (rule timed_env.timed_run_state(2) [OF assms(1-3)])
  with timed_env.jammed_run [OF assms(1,6) _ assms(4,5) _ assms(7,8)] assms(3) show ?thesis
    by (simp add: run_state_def limits_ok_def)
qed

lemma blocked_ping_stops_checks_witness:
  "\<exists>s s' log'. timed_run simple_intervals list_bytes list_chan list_chan list_chan any_schedule s log' s' \<and>
     now s' = 1008 \<and> \<not> session_is_closed (inner (sys s')) \<and> keep_at (sys s') = K_ping (new_nop 1) \<and>
     Timeout_tick \<notin> set (untimed log')"
proof -
  define cfg where "cfg = config_default\<lparr>keep_alive_interval := 4, keep_alive_timeout := 9,
    max_receive_channel_buffer_size := 1\<rparr>"
  obtain log s where x: "demo_timed_execute any_schedule
      ([Start, Act Do_keep, Act Do_send, Ping, Act Do_keep, Act Do_keep, Check, Act Do_keep, Act Do_send,
        Wait 4, Ping, Act Do_keep, Act Do_keep, Wait 4, Ping]) (demo_timed cfg) = Some (log, s)"
    and s: "limits_ok cfg (untimed log)" "keep_at (sys s) = K_ping (new_nop 1)" "now s = 8"
      "\<not> session_is_closed (inner (sys s))" "send_at (sys s) = S_sending (new_nop 1)"
      "session_config (inner (sys s)) = cfg" "\<not> has_room list_chan (frame_ch (inner (sys s)))"
    by (simp add: timed_exec_simps cfg_def limits_ok_def traffic_def session_is_closed_def)
  have "encodable cfg (new_nop 1)"
    by (simp add: encodable_def frame_valid_def wire_length_def wire_payload_def frame_new_defs cfg_def
        config_default_def HEADER_SIZE_def)
  with s have j: "jammed list_chan (new_nop 1) (sys s)" by (simp add: jammed_def)
  have y: "demo_timed_execute any_schedule [Wait 1000] s = Some ([(8, Elapses 1000)], s\<lparr>now := 1008\<rparr>)"
    using s(3) by (simp add: any_schedule_def)
  from blocked_ping_stops_checks [OF lst.timed_env_axioms timed_execute_run [OF x, unfolded demo_timed_def]
      s(1) j s(2) timed_execute_run [OF y]] timed_execute_run [OF y] s(4)
  show ?thesis by force
qed



text \<open>
  C26. A stream that nobody accepts costs the session: when the receive task waits to hand over a new
  stream, the accept queue is full and the application accepts no stream, whatever else it does, no frame
  of the peer is taken from the transport any more, and if the keep-alive is on and takes its ticks in time
  (up to the lateness), it closes the session within two timeouts and twice that lateness, although the peer is there (in runs
  within the limits on traffic).
\<close>

lemma unaccepted_streams_close_session:
  fixes s :: "('iv, 'fc, 'dc, 'ac) timed"
  assumes "timed_env B F D A I" "config_valid cfg" "enable_keep_alive cfg" "0 < keep_alive_interval cfg"
    and "timed_run I B F D A (ticks_within I late) (timed_new F A cfg client) log s"
    and "recv_at (sys s) = R_accept st" "\<not> has_room A (accept_ch (inner (sys s)))"
    and "timed_run I B F D A (ticks_within I late) s log' s'"
    and "\<forall>sid. Accepts sid \<notin> set (untimed log')"
    and "limits_ok cfg (untimed log @ untimed log')"
    and "now s + 2 * (keep_alive_timeout cfg + late) < now s'"
  shows "session_is_closed (inner (sys s')) \<and> (\<forall>f. Arrives f \<notin> set (untimed log'))"
proof -
  have lim: "limits_ok cfg (untimed log)" using assms(10) by (rule limits_ok_prefix)
  have "system_wf F D A (sys s)"
    using timed_env.timed_run_state(2) [OF assms(1,5) lim] by (simp add: run_state_def)
  note waits = timed_env.unaccepted_run [OF assms(1,8) this assms(6,7,9)]
  have "last_heard log \<le> now s" using assms(5) by (rule last_heard_now)
  then have "last_heard (log @ log') + 2 * (keep_alive_timeout cfg + late) < now s'"
    using waits assms(11) by simp
  moreover have "keep_start cfg \<noteq> K_done" using assms(2-4) by (simp add: keep_start_def config_valid_def)
  ultimately have "closed (shared (inner (sys s')))"
    using timed_env.silent_closed [OF assms(1) _ timed_run_append [OF assms(8,5)]] assms(10) by simp
  with waits show ?thesis by (simp add: session_is_closed_def is_closed_def)
qed

lemma unaccepted_streams_close_session_witness:
  "\<exists>log s log' s'. timed_run simple_intervals list_bytes list_chan list_chan list_chan
      (ticks_within simple_intervals 0) (demo_timed quick) log s \<and>
     timed_run simple_intervals list_bytes list_chan list_chan list_chan
      (ticks_within simple_intervals 0) s log' s' \<and> App \<in> set (untimed log') \<and>
     recv_at (sys s) = R_accept (stream_new 34 16) \<and> \<not> session_is_closed (inner (sys s)) \<and>
     session_is_closed (inner (sys s'))"
proof -
  obtain log s where x: "demo_timed_execute (ticks_within simple_intervals 0)
      (first_round @ concat (map (\<lambda>sid. [Act Do_recv, Act (Do_arrive (new_syn 1 sid))])
        [2, 4, 6, 8, 10, 12, 14, 16, 18, 20, 22, 24, 26, 28, 30, 32, 34]))
      (demo_timed quick) = Some (log, s)"
    and s: "now s = 0" "recv_at (sys s) = R_accept (stream_new 34 16)"
      "\<not> has_room list_chan (accept_ch (inner (sys s)))"
      "traffic (untimed log) = 0" "\<not> session_is_closed (inner (sys s))"
    and y: "\<exists>log' s'. demo_timed_execute (ticks_within simple_intervals 0)
        ([Act Do_open, Act (Do_open_send 0), Act (Do_op 0 Op_shutdown), Act (Do_drop 0)] @ second_round @ [Check, Act Do_keep, Wait 3, Ping, Act Do_keep, Act Do_keep, Wait 2, Check, Wait 100]) s =
          Some (log', s') \<and> now s' = 110 \<and> App \<in> set (untimed log') \<and> (\<forall>sid. Accepts sid \<notin> set (untimed log')) \<and> traffic (untimed log') = 0"
    by (simp add: timed_exec_simps first_round_def second_round_def quick_def traffic_def frame_new_defs
        stream_new_def session_is_closed_def drop_stream_def stream_drop_def drop_body_def)
  then obtain log' s' where z: "demo_timed_execute (ticks_within simple_intervals 0)
        ([Act Do_open, Act (Do_open_send 0), Act (Do_op 0 Op_shutdown), Act (Do_drop 0)] @ second_round @ [Check, Act Do_keep, Wait 3, Ping, Act Do_keep, Act Do_keep, Wait 2, Check, Wait 100]) s =
          Some (log', s')" "now s' = 110" "\<forall>sid. Accepts sid \<notin> set (untimed log')"
    "traffic (untimed log') = 0" "App \<in> set (untimed log')"
    by blast
  have c: "config_valid quick" "enable_keep_alive quick" "0 < keep_alive_interval quick" "keep_alive_timeout quick = 5"
    by (simp_all add: quick_def config_valid_def config_default_def)
  have lim: "limits_ok quick (untimed log @ untimed log')"
    using s(4) z(4) by (simp add: limits_ok_def quick_def config_default_def)
  from unaccepted_streams_close_session [OF lst.timed_env_axioms c(1-3)
      timed_execute_run [OF x, unfolded demo_timed_def] s(2,3) timed_execute_run [OF z(1)] z(3) lim]
    timed_execute_run [OF z(1)] s(1,2) z(2) c(4)
  have "session_is_closed (inner (sys s'))" by simp
  with timed_execute_run [OF x] timed_execute_run [OF z(1)] z(5) s(2,5) show ?thesis by blast
qed

text \<open>
  C29. An interval of zero turns the keep-alive off: the configuration is accepted, but making the interval
  panics and ends the keep-alive task before its first check, so that a session with a dead peer stays open for ever unless the application
  closes it or the transport fails.
\<close>

lemma zero_interval_disables_keep_alive:
  fixes s :: "('iv, 'fc, 'dc, 'ac) timed"
  assumes "timed_env B F D A I" "keep_alive_interval cfg = 0"
    and "timed_run I B F D A L (timed_new F A cfg client) log s" "limits_ok cfg (untimed log)"
    and "wire_config cfg" "length (opened_ids (untimed log)) < id_limit"
    and "Closes \<notin> set (untimed log)" "Transport_fails \<notin> set (untimed log)"
  shows "make_intervals I cfg t = None \<and> Timeout_tick \<notin> set (untimed log) \<and>
         \<not> session_is_closed (inner (sys s))"
proof -
  have "make_intervals I cfg t = None"
    using tokio_interval.new_zero [of I t] assms(1,2) by (simp add: timed_env_def make_intervals_def)
  moreover have "keep_start cfg = K_done" using assms(2) by (simp add: keep_start_def)
  ultimately show ?thesis
    using timed_env.disabled_stays_open [OF assms(1,3,4,5,6) _ assms(7,8)]
    by (simp add: session_is_closed_def is_closed_def)
qed

lemma zero_interval_disables_keep_alive_witness:
  "\<exists>cfg s. config_valid cfg \<and> enable_keep_alive cfg \<and> now s = 1000000000000 \<and>
     timed_run simple_intervals list_bytes list_chan list_chan list_chan (ticks_within simple_intervals 0)
       (demo_timed cfg) [(0, Elapses 1000000000000)] s \<and> \<not> session_is_closed (inner (sys s))"
proof -
  let ?cfg = "config_default\<lparr>keep_alive_interval := 0\<rparr>"
  obtain s where x: "demo_timed_execute (ticks_within simple_intervals 0) [Wait 1000000000000] (demo_timed ?cfg) =
      Some ([(0, Elapses 1000000000000)], s)" and s: "now s = 1000000000000"
    by (simp add: timed_exec_simps)
  have c: "config_valid ?cfg" "enable_keep_alive ?cfg" "wire_config ?cfg" "limits_ok ?cfg []"
    by (simp_all add: config_valid_def wire_config_def config_default_def HEADER_SIZE_def limits_ok_def traffic_def
        duration_from_secs_def)
  note r = timed_execute_run [OF x]
  from zero_interval_disables_keep_alive [OF lst.timed_env_axioms _ r [unfolded demo_timed_def]] c
  have "\<not> session_is_closed (inner (sys s))" by (simp add: id_limit_def)
  with r s c(1,2) show ?thesis by blast
qed

end
