(* ===== verification/Threads.thy ===== *)
theory Threads
  imports Identifiers
begin

text \<open>
  Calls of \<open>next_stream_id\<close> of \<open>src/src/session.rs\<close> from several threads at once. A call has two steps that
  other threads may come between: the atomic \<open>fetch_add\<close> on the shared counter, and the check of the value
  fetched, which is the caller's own.
\<close>

section \<open>The two steps of a call\<close>

definition fetch_id :: "u32 \<Rightarrow> u32 \<times> u32" where
  "fetch_id counter = (counter, counter + 2)"

definition check_id :: "u32 \<Rightarrow> u32 result" where
  "check_id current =
     (if current > 0xFFFFFFFF - 2 then
        Inl (ProtocolViolation ''Stream ID overflow - session should be restarted'')
      else Inr current)"

lemma next_stream_id_steps:
  "next_stream_id s =
     (let (current, counter) = fetch_id (next_id s) in (s\<lparr>next_id := counter\<rparr>, check_id current))"
  by (simp add: next_stream_id_def fetch_id_def check_id_def Let_def)

text \<open>
  A thread has a number of calls still to make, perhaps a value fetched and not yet checked, and the
  identifiers it has been given. A schedule names the thread that takes the next step; naming one that
  has nothing to do changes nothing.
\<close>

record caller =
  calls_left :: nat
  fetched :: "u32 option"
  given :: "u32 list"

definition new_caller :: "nat \<Rightarrow> caller" where
  "new_caller n = \<lparr>calls_left = n, fetched = None, given = []\<rparr>"

definition caller_step :: "u32 \<Rightarrow> caller \<Rightarrow> u32 \<times> caller" where
  "caller_step counter c =
     (case fetched c of
        Some current \<Rightarrow>
          (counter, c\<lparr>fetched := None,
                      given := given c @ (case check_id current of Inl e \<Rightarrow> [] | Inr sid \<Rightarrow> [sid])\<rparr>)
      | None \<Rightarrow>
          (case calls_left c of
             0 \<Rightarrow> (counter, c)
           | Suc n \<Rightarrow>
               let (current, counter') = fetch_id counter
               in (counter', c\<lparr>calls_left := n, fetched := Some current\<rparr>)))"

fun run_callers :: "nat list \<Rightarrow> u32 \<times> caller list \<Rightarrow> u32 \<times> caller list" where
  "run_callers [] s = s"
| "run_callers (i # sched) (counter, cs) =
     (if i < length cs
      then let (counter', c) = caller_step counter (cs ! i) in run_callers sched (counter', cs[i := c])
      else run_callers sched (counter, cs))"

definition finished :: "caller \<Rightarrow> bool" where
  "finished c \<longleftrightarrow> calls_left c = 0 \<and> fetched c = None"

definition ids_of :: "caller \<Rightarrow> u32 list" where
  "ids_of c = given c @ (case fetched c of None \<Rightarrow> [] | Some sid \<Rightarrow> [sid])"

definition taken :: "caller list \<Rightarrow> u32 multiset" where
  "taken cs = mset (concat (map ids_of cs))"

lemma taken_sum: "taken cs = sum_list (map (mset \<circ> ids_of) cs)"
  by (simp add: taken_def mset_concat)

lemma concat_ids:
  "mset (concat (map ids_of cs)) =
   mset (concat (map given cs)) + mset (concat (map (\<lambda>c. case fetched c of None \<Rightarrow> [] | Some sid \<Rightarrow> [sid]) cs))"
  by (induction cs) (simp_all add: ids_of_def)

lemma distinct_sub: "\<lbrakk>mset xs \<subseteq># mset ys; distinct ys\<rbrakk> \<Longrightarrow> distinct xs"
  by (metis distinct_append ex_mset mset_append mset_eq_imp_distinct_iff mset_subset_eq_exists_conv)

section \<open>The counter and what was taken from it\<close>

text \<open>
  After \<open>k\<close> fetches the counter has passed the first \<open>k\<close> identifiers, and each of them has been taken
  by exactly one thread.
\<close>

definition callers_ok :: "bool \<Rightarrow> nat \<Rightarrow> u32 \<times> caller list \<Rightarrow> bool" where
  "callers_ok client calls s \<longleftrightarrow>
     (\<exists>k. k + sum_list (map calls_left (snd s)) = calls \<and> fst s = nth_id client k \<and>
          taken (snd s) = mset (map (nth_id client) [0..<k]))"

lemma nth_id_Suc: "nth_id client k + 2 = nth_id client (Suc k)"
  by (simp add: nth_id_def)

lemma check_nth_id: "k < id_limit \<Longrightarrow> check_id (nth_id client k) = Inr (nth_id client k)"
  using unat_nth_id [of k client]
  by (simp add: check_id_def word_less_nat_alt first_id_def id_limit_def split: if_splits)

lemma caller_step_ok:
  assumes "callers_ok client calls (counter, cs)" "i < length cs" "calls \<le> id_limit"
    and "caller_step counter (cs ! i) = (counter', c)"
  shows "callers_ok client calls (counter', cs[i := c])"
proof -
  from assms(1) obtain k where k: "k + sum_list (map calls_left cs) = calls" "counter = nth_id client k"
    "taken cs = mset (map (nth_id client) [0..<k])" by (auto simp: callers_ok_def)
  note left = sum_list_replace [OF assms(2), of calls_left c]
  note ids = sum_list_replace [OF assms(2), of "mset \<circ> ids_of" c]
  show ?thesis
  proof (cases "fetched (cs ! i)")
    case (Some sid)
    have "sid \<in># taken cs"
      using assms(2) Some by (force simp: taken_def ids_of_def intro!: bexI [of _ "cs ! i"])
    then obtain j where "j < k" "sid = nth_id client j" using k(3) by auto
    moreover have "k \<le> id_limit" using k(1) assms(3) by simp
    ultimately have "check_id sid = Inr sid" using check_nth_id [of j client] by simp
    then have c: "calls_left c = calls_left (cs ! i)" "ids_of c = ids_of (cs ! i)" "counter' = counter"
      using assms(4) Some by (auto simp: caller_step_def ids_of_def)
    with k left ids show ?thesis by (auto simp: callers_ok_def taken_sum)
  next
    case None
    show ?thesis
    proof (cases "calls_left (cs ! i)")
      case 0
      with None assms(1,4) list_update_id [of cs i] show ?thesis by (auto simp: caller_step_def)
    next
      case (Suc n)
      then have c: "calls_left c = n" "mset (ids_of c) = add_mset counter (mset (ids_of (cs ! i)))"
        "counter' = counter + 2"
        using None assms(4) by (auto simp: caller_step_def fetch_id_def ids_of_def)
      have "taken (cs[i := c]) = add_mset (nth_id client k) (taken cs)"
        using ids c(2) k(2) by (simp add: taken_sum)
      moreover have "Suc k + sum_list (map calls_left (cs[i := c])) = calls" using left c(1) Suc k(1) by simp
      ultimately show ?thesis
        using c(3) k(2,3) nth_id_Suc [of client k] unfolding callers_ok_def by (intro exI [of _ "Suc k"]) simp
    qed
  qed
qed

lemma run_callers_ok:
  assumes "callers_ok client calls s" "calls \<le> id_limit"
  shows "callers_ok client calls (run_callers sched s)"
  using assms(1)
proof (induction sched s rule: run_callers.induct)
  case (2 i sched counter cs)
  obtain counter' c where step: "caller_step counter (cs ! i) = (counter', c)" by fastforce
  show ?case
  proof (cases "i < length cs")
    case True
    with 2(1) [OF True step [symmetric] refl] caller_step_ok [OF 2(3) True assms(2) step] step show ?thesis
      by simp
  qed (use 2 in simp)
qed simp

lemma run_callers_length: "length (snd (run_callers sched s)) = length (snd s)"
  by (induction sched s rule: run_callers.induct) (simp_all split: prod.splits)

lemma callers_ok_new:
  "callers_ok client (sum_list ns) (nth_id client 0, map new_caller ns)"
proof -
  have "map ids_of (map new_caller ns) = replicate (length ns) []"
    by (rule nth_equalityI) (simp_all add: new_caller_def ids_of_def)
  then have "taken (map new_caller ns) = {#}" by (simp add: taken_def)
  moreover have "map calls_left (map new_caller ns) = ns"
    by (rule nth_equalityI) (simp_all add: new_caller_def)
  ultimately show ?thesis by (auto simp: callers_ok_def)
qed

section \<open>Properties\<close>

text \<open>
  C22. Identifiers are unique across threads: however the steps of any number of threads that call
  \<open>next_stream_id\<close> interleave, as long as they make no more than \<open>id_limit\<close> calls together, no identifier is
  given twice, all have the parity of the session, and when every call is finished, the threads together
  have been given exactly the first identifiers, one for each call.
\<close>

lemma threads_get_unique_ids:
  assumes "sum_list ns \<le> id_limit"
    and "run_callers sched (nth_id client 0, map new_caller ns) = (counter, cs)"
  shows "distinct (concat (map given cs)) \<and>
         (\<forall>sid \<in> set (concat (map given cs)). sid \<noteq> 0 \<and> \<not> peer_id client sid) \<and>
         (list_all finished cs \<longrightarrow>
            mset (concat (map given cs)) = mset (map (nth_id client) [0..<sum_list ns]))"
proof -
  have "callers_ok client (sum_list ns) (counter, cs)"
    using run_callers_ok [OF callers_ok_new assms(1), of client sched] assms(2) by simp
  then obtain k where k: "k + sum_list (map calls_left cs) = sum_list ns"
    "taken cs = mset (map (nth_id client) [0..<k])" by (auto simp: callers_ok_def)
  have le: "k \<le> id_limit" using k(1) assms(1) by simp
  have ids: "mset (concat (map ids_of cs)) = mset (map (nth_id client) [0..<k])" using k(2) by (simp add: taken_def)
  have sub: "mset (concat (map given cs)) \<subseteq># mset (concat (map ids_of cs))"
    unfolding concat_ids by simp
  have "distinct (map (nth_id client) [0..<k])" using distinct_nth_ids [OF le] .
  then have "distinct (concat (map given cs))"
    using sub unfolding ids by (metis distinct_sub)
  moreover have "sid \<noteq> 0 \<and> \<not> peer_id client sid" if "sid \<in> set (concat (map given cs))" for sid
  proof -
    have "sid \<in># mset (map (nth_id client) [0..<k])" using that sub unfolding ids by (metis mset_subset_eqD set_mset_mset)
    then obtain j where "j < k" "sid = nth_id client j" by auto
    with le nth_id_nonzero [of j client] peer_id_nth_id [of j client client] show ?thesis by simp
  qed
  moreover have "mset (concat (map given cs)) = mset (map (nth_id client) [0..<sum_list ns])" if "list_all finished cs"
  proof -
    have "map ids_of cs = map given cs" "sum_list (map calls_left cs) = 0"
      using that by (auto simp: finished_def ids_of_def list_all_iff)
    with ids k(1) show ?thesis by simp
  qed
  ultimately show ?thesis by blast
qed

lemma threads_get_unique_ids_witness:
  "\<exists>cs. run_callers [0, 1, 1, 0, 0, 1, 1, 0] (1, map new_caller [2, 2]) = (9, cs) \<and>
     map given cs = [[1, 5], [3, 7]] \<and> distinct (concat (map given cs))"
proof -
  obtain cs where cs: "run_callers [0, 1, 1, 0, 0, 1, 1, 0] (1, map new_caller [2, 2]) = (9, cs)"
    "map given cs = [[1, 5], [3, 7]]"
    by (simp add: caller_step_def fetch_id_def check_id_def new_caller_def)
  then show ?thesis
    using threads_get_unique_ids [of "[2, 2]" "[0, 1, 1, 0, 0, 1, 1, 0]" True 9 cs]
    by (simp add: nth_id_def first_id_def id_limit_def)
qed

end
