(* ===== verification/Unit_Tests.thy ===== *)
theory Unit_Tests
  imports Progress
begin

text \<open>
  The unit tests in the modules of \<open>src/src/\<close>, translated one by one into predicates on the model, with
  the third-party code as their parameter: a test that panics or fails an assertion is false. That the
  model passes the tests that the code passes is evidence that it is a model of the code. The tests
  of keep-alive, which sleep on the clock, and the one that spawns threads are in the theory
  \<open>Timed_Tests\<close>.
\<close>

definition ascii :: "string \<Rightarrow> bytes" where
  "ascii = map of_char"

section \<open>error.rs\<close>

definition test_error_display :: bool where
  "test_error_display \<longleftrightarrow>
     error_display (InvalidProtocol 2) = ''Invalid protocol version: 2'' \<and>
     error_display (FrameTooLarge 1024 512) = ''Frame too large: 1024 bytes (max: 512)'' \<and>
     error_display (ConfigError ''Invalid setting'') = ''Configuration error: Invalid setting''"

definition test_io_error_conversion :: bool where
  "test_io_error_conversion \<longleftrightarrow>
     (case from_io_error (io_error_new UnexpectedEof ''Connection lost'') of Io e \<Rightarrow> True | _ \<Rightarrow> False)"

definition test_is_recoverable :: bool where
  "test_is_recoverable \<longleftrightarrow>
     is_recoverable (Io (io_error_new WouldBlock '''')) \<and>
     is_recoverable (Io (io_error_new Interrupted '''')) \<and>
     is_recoverable Timeout \<and> is_recoverable BufferOverflow \<and>
     \<not> is_recoverable SessionClosed \<and> \<not> is_recoverable (InvalidProtocol 2) \<and>
     \<not> is_recoverable (ConfigError ''Invalid'') \<and> \<not> is_recoverable (FrameTooLarge 1024 512) \<and>
     \<not> is_recoverable (Io (io_error_new UnexpectedEof ''''))"

section \<open>config.rs\<close>

definition test_default_config_is_valid :: bool where
  "test_default_config_is_valid \<longleftrightarrow> is_ok (config_validate config_default)"

definition test_config_validation :: bool where
  "test_config_validation \<longleftrightarrow>
     \<not> is_ok (config_validate (config_default\<lparr>config_version := 0\<rparr>)) \<and>
     \<not> is_ok (config_validate (config_default\<lparr>keep_alive_timeout := duration_from_secs 5,
                                              keep_alive_interval := duration_from_secs 10\<rparr>)) \<and>
     is_ok (config_validate (config_default\<lparr>keep_alive_timeout := duration_from_secs 5,
                                            keep_alive_interval := duration_from_secs 10,
                                            enable_keep_alive := False\<rparr>)) \<and>
     \<not> is_ok (config_validate (config_default\<lparr>max_frame_size := 0\<rparr>)) \<and>
     \<not> is_ok (config_validate (config_default\<lparr>max_frame_size := 20 * 1024 * 1024\<rparr>)) \<and>
     \<not> is_ok (config_validate (config_default\<lparr>max_receive_buffer := 1024, max_frame_size := 2048\<rparr>)) \<and>
     \<not> is_ok (config_validate (config_default\<lparr>max_stream_buffer := 0\<rparr>))"

definition test_config_builder :: bool where
  "test_config_builder \<longleftrightarrow>
     (case builder_build (with_enable_keep_alive False (with_max_stream_buffer (128 * 1024)
             (with_max_receive_buffer (8 * 1024 * 1024) (with_max_frame_size (64 * 1024)
             (with_keep_alive_timeout (duration_from_secs 15)
             (with_keep_alive_interval (duration_from_secs 5) (with_version 2 builder_new))))))) of
        Inl e \<Rightarrow> False
      | Inr config \<Rightarrow>
          config_version config = 2 \<and> keep_alive_interval config = duration_from_secs 5 \<and>
          keep_alive_timeout config = duration_from_secs 15 \<and> max_frame_size config = 64 * 1024 \<and>
          max_receive_buffer config = 8 * 1024 * 1024 \<and> max_stream_buffer config = 128 * 1024 \<and>
          \<not> enable_keep_alive config)"

definition test_config_builder_validation_failure :: bool where
  "test_config_builder_validation_failure \<longleftrightarrow> \<not> is_ok (builder_build (with_version 0 builder_new))"

definition test_keep_alive_validation_when_disabled :: bool where
  "test_keep_alive_validation_when_disabled \<longleftrightarrow>
     is_ok (builder_build (with_enable_keep_alive False
              (with_keep_alive_timeout (duration_from_secs 10)
              (with_keep_alive_interval (duration_from_secs 20) builder_new))))"

section \<open>command.rs\<close>

fun same_command :: "command \<Rightarrow> command \<Rightarrow> bool" where
  "same_command (Upd c w) (Upd c' w') \<longleftrightarrow> True"
| "same_command a b \<longleftrightarrow> a = b"

definition test_command_byte_conversion :: bool where
  "test_command_byte_conversion \<longleftrightarrow>
     (\<forall>cmd \<in> set [Syn, Fin, Psh, Nop, Upd 100 200].
        case from_byte (to_byte cmd) of Inl e \<Rightarrow> False | Inr restored \<Rightarrow> same_command cmd restored)"

definition test_invalid_command_byte :: bool where
  "test_invalid_command_byte \<longleftrightarrow> \<not> is_ok (from_byte 255) \<and> \<not> is_ok (from_byte 5)"

definition test_command_properties :: bool where
  "test_command_properties \<longleftrightarrow>
     is_control Syn \<and> is_control Fin \<and> is_control Nop \<and> is_control (Upd 0 0) \<and> \<not> is_control Psh \<and>
     can_carry_data Psh \<and> \<not> can_carry_data Syn \<and> \<not> can_carry_data Fin \<and> \<not> can_carry_data Nop \<and>
     \<not> can_carry_data (Upd 0 0) \<and>
     requires_v2 (Upd 0 0) \<and> \<not> requires_v2 Syn \<and> \<not> requires_v2 Fin \<and> \<not> requires_v2 Psh \<and>
     \<not> requires_v2 Nop"

definition test_upd_command_values :: bool where
  "test_upd_command_values \<longleftrightarrow>
     cmd_consumed (Upd 123 456) = Some 123 \<and> cmd_window (Upd 123 456) = Some 456 \<and>
     cmd_consumed Syn = None \<and> cmd_window Syn = None"

section \<open>frame.rs\<close>

definition test_frame_creation :: bool where
  "test_frame_creation \<longleftrightarrow>
     (let frame = frame_new 1 Psh 123 (ascii ''hello'') in
      frame_version frame = 1 \<and> frame_cmd frame = Psh \<and> frame_stream_id frame = 123 \<and>
      frame_data frame = ascii ''hello'')"

definition test_frame_constructors :: bool where
  "test_frame_constructors \<longleftrightarrow>
     (let syn_frame = new_syn 1 123; fin_frame = new_fin 1 123; data = ascii ''test'';
          psh_frame = new_psh 1 123 data; nop_frame = new_nop 1; upd_frame = new_upd 2 123 100 200 in
      frame_cmd syn_frame = Syn \<and> frame_stream_id syn_frame = 123 \<and> frame_data syn_frame = [] \<and>
      frame_cmd fin_frame = Fin \<and> frame_stream_id fin_frame = 123 \<and> frame_data fin_frame = [] \<and>
      frame_cmd psh_frame = Psh \<and> frame_stream_id psh_frame = 123 \<and> frame_data psh_frame = data \<and>
      frame_cmd nop_frame = Nop \<and> frame_stream_id nop_frame = 0 \<and> frame_data nop_frame = [] \<and>
      frame_cmd upd_frame = Upd 100 200 \<and> frame_stream_id upd_frame = 123 \<and> frame_data upd_frame = [])"

definition test_frame_size_calculation :: bool where
  "test_frame_size_calculation \<longleftrightarrow>
     (let empty_frame = new_syn 1 123; data_frame = new_psh 1 123 (ascii ''hello'') in
      total_size empty_frame = HEADER_SIZE \<and> data_len empty_frame = 0 \<and> frame_is_empty empty_frame \<and>
      total_size data_frame = HEADER_SIZE + 5 \<and> data_len data_frame = 5 \<and> \<not> frame_is_empty data_frame)"

definition test_frame_validation :: bool where
  "test_frame_validation \<longleftrightarrow>
     (let config = config_default in
      is_ok (frame_validate (new_syn 1 123) config) \<and>
      is_ok (frame_validate (new_psh 1 123 (ascii ''data'')) config) \<and>
      is_ok (frame_validate (new_nop 1) config) \<and>
      \<not> is_ok (frame_validate (frame_new 0 Syn 123 []) config) \<and>
      \<not> is_ok (frame_validate (new_upd 1 123 100 200) config) \<and>
      is_ok (frame_validate (new_upd 2 123 100 200) config))"

definition test_frame_size_validation :: bool where
  "test_frame_size_validation \<longleftrightarrow>
     (let config = config_default\<lparr>max_frame_size := 100\<rparr> in
      \<not> is_ok (frame_validate (new_psh 1 123 (replicate 200 0)) config) \<and>
      is_ok (frame_validate (new_psh 1 123 (replicate 50 0)) config))"

definition test_control_frames_with_data :: bool where
  "test_control_frames_with_data \<longleftrightarrow>
     (let config = config_default; data = ascii ''invalid'' in
      \<not> is_ok (frame_validate (frame_new 1 Syn 123 data) config) \<and>
      \<not> is_ok (frame_validate (frame_new 1 Fin 123 data) config) \<and>
      \<not> is_ok (frame_validate (frame_new 1 Nop 0 data) config) \<and>
      \<not> is_ok (frame_validate (frame_new 2 (Upd 0 0) 123 data) config))"

definition test_stream_id_validation :: bool where
  "test_stream_id_validation \<longleftrightarrow>
     (let config = config_default in
      \<not> is_ok (frame_validate (frame_new 1 Nop 123 []) config) \<and>
      \<not> is_ok (frame_validate (frame_new 1 Syn 0 []) config) \<and>
      \<not> is_ok (frame_validate (frame_new 1 Psh 0 (ascii ''data'')) config))"

definition test_upd_frame_values :: bool where
  "test_upd_frame_values \<longleftrightarrow>
     frame_consumed (new_upd 2 123 100 200) = Some 100 \<and> frame_window (new_upd 2 123 100 200) = Some 200 \<and>
     frame_consumed (new_syn 1 123) = None \<and> frame_window (new_syn 1 123) = None"

section \<open>codec.rs\<close>

definition round_trip_test :: "bytes_api \<Rightarrow> frame \<Rightarrow> bool" where
  "round_trip_test B frame \<longleftrightarrow>
     (let codec = codec_new config_default; (buf, encoded) = encode B codec frame [];
          (buf, decoded) = decode B codec buf
      in encoded = Inr () \<and> decoded = Inr (Some frame))"

definition test_codec_round_trip_syn :: "bytes_api \<Rightarrow> bool" where
  "test_codec_round_trip_syn B = round_trip_test B (new_syn 1 123)"

definition test_codec_round_trip_fin :: "bytes_api \<Rightarrow> bool" where
  "test_codec_round_trip_fin B = round_trip_test B (new_fin 1 123)"

definition test_codec_round_trip_psh :: "bytes_api \<Rightarrow> bool" where
  "test_codec_round_trip_psh B = round_trip_test B (new_psh 1 123 (ascii ''hello world''))"

definition test_codec_round_trip_nop :: "bytes_api \<Rightarrow> bool" where
  "test_codec_round_trip_nop B = round_trip_test B (new_nop 1)"

definition test_codec_round_trip_upd :: "bytes_api \<Rightarrow> bool" where
  "test_codec_round_trip_upd B = round_trip_test B (new_upd 2 123 100 200)"

text \<open>Decoding the first \<open>k\<close> bytes of an encoded frame finds no frame; the slice must be in range.\<close>

definition partial_test :: "bytes_api \<Rightarrow> frame \<Rightarrow> nat \<Rightarrow> bool" where
  "partial_test B frame k \<longleftrightarrow>
     (let codec = codec_new config_default; (buf, encoded) = encode B codec frame []
      in encoded = Inr () \<and> k \<le> length buf \<and> snd (decode B codec (take k buf)) = Inr None)"

definition test_decode_partial_header :: "bytes_api \<Rightarrow> bool" where
  "test_decode_partial_header B = partial_test B (new_syn 1 123) 4"

definition test_decode_partial_data :: "bytes_api \<Rightarrow> bool" where
  "test_decode_partial_data B = partial_test B (new_psh 1 123 (ascii ''hello world'')) (HEADER_SIZE + 5)"

definition test_decode_multiple_frames :: "bytes_api \<Rightarrow> bool" where
  "test_decode_multiple_frames B \<longleftrightarrow>
     (let codec = codec_new config_default; frame1 = new_syn 1 123; frame2 = new_fin 1 456;
          (buf, r1) = encode B codec frame1 []; (buf, r2) = encode B codec frame2 buf;
          (buf, d1) = decode B codec buf; (buf, d2) = decode B codec buf
      in r1 = Inr () \<and> r2 = Inr () \<and> d1 = Inr (Some frame1) \<and> d2 = Inr (Some frame2) \<and>
         snd (decode B codec buf) = Inr None)"

definition test_decode_oversized_frame :: "bytes_api \<Rightarrow> bool" where
  "test_decode_oversized_frame B \<longleftrightarrow>
     (let codec = codec_new (config_default\<lparr>max_frame_size := 100\<rparr>)
      in \<not> is_ok (snd (encode B codec (new_psh 1 123 (replicate 200 0)) [])))"

definition header_buffer :: "bytes_api \<Rightarrow> u8 \<Rightarrow> u8 \<Rightarrow> u16 \<Rightarrow> u32 \<Rightarrow> bytes" where
  "header_buffer B v c len sid = put_u32_le B (put_u16_le B (put_u8 B (put_u8 B [] v) c) len) sid"

definition test_decode_invalid_protocol_version :: "bytes_api \<Rightarrow> bool" where
  "test_decode_invalid_protocol_version B \<longleftrightarrow>
     \<not> is_ok (snd (decode B (codec_new config_default) (header_buffer B 0 SYN 0 123)))"

definition test_decode_invalid_command :: "bytes_api \<Rightarrow> bool" where
  "test_decode_invalid_command B \<longleftrightarrow>
     \<not> is_ok (snd (decode B (codec_new config_default) (header_buffer B 1 255 0 123)))"

definition test_upd_frame_encoding :: "bytes_api \<Rightarrow> bool" where
  "test_upd_frame_encoding B \<longleftrightarrow>
     (let (buf, r) = encode B (codec_new config_default) (new_upd 2 123 100 200) []
      in r = Inr () \<and> length buf = HEADER_SIZE + 8 \<and> buf ! 0 = 2 \<and> buf ! 1 = UPD \<and>
         u16_from_le_bytes (buf ! 2) (buf ! 3) = 8 \<and>
         u32_from_le_bytes (buf ! 4) (buf ! 5) (buf ! 6) (buf ! 7) = 123 \<and>
         u32_from_le_bytes (buf ! 8) (buf ! 9) (buf ! 10) (buf ! 11) = 100 \<and>
         u32_from_le_bytes (buf ! 12) (buf ! 13) (buf ! 14) (buf ! 15) = 200)"

definition test_invalid_upd_data_length :: "bytes_api \<Rightarrow> bool" where
  "test_invalid_upd_data_length B \<longleftrightarrow>
     \<not> is_ok (snd (decode B (codec_new config_default) (put_u32_le B (header_buffer B 2 UPD 4 123) 100)))"

section \<open>stream.rs\<close>

text \<open>
  A test makes its stream with \<open>Stream::new\<close> over a frame channel of one place and an unbounded data
  channel; a channel's end that is bound to \<open>_\<close> is dropped at once. The first poll of the futures that
  the tests await is ready, which is part of what is checked.
\<close>

definition test_stream :: stream where
  "test_stream = stream_new 123 0"

definition test_state :: session_state where
  "test_state = session_state_new 65536"

definition test_stream_creation :: bool where
  "test_stream_creation \<longleftrightarrow>
     stream_id test_stream = 123 \<and> \<not> is_read_closed test_stream \<and> \<not> is_write_closed test_stream \<and>
     \<not> stream_is_closed test_stream"

definition test_stream_read_with_data :: "bytes_api \<Rightarrow> ('dc, bytes) flume_api \<Rightarrow> bool" where
  "test_stream_read_with_data B D \<longleftrightarrow>
     (let test_data = ascii ''hello world'';
          (ch, sent) = try_send D (unbounded D) test_data;
          (_, r) = poll_read B D test_stream ch test_state 20
      in sent = Sent \<and> r = Ready (Inr test_data))"

definition test_stream_read_eof :: "bytes_api \<Rightarrow> ('dc, bytes) flume_api \<Rightarrow> bool" where
  "test_stream_read_eof B D \<longleftrightarrow>
     (let ch = drop_sender D (unbounded D)
      in snd (poll_read B D test_stream ch test_state 20) = Ready (Inr []))"

definition test_stream_write :: "('fc, frame) flume_api \<Rightarrow> bool" where
  "test_stream_write F \<longleftrightarrow>
     (let test_data = ascii ''hello world'';
          (fc, r) = poll_write F config_default test_stream (bounded F 1) test_state test_data
      in r = Ready (Inr (length test_data)) \<and>
         (case snd (try_recv F fc) of
            Received frame \<Rightarrow>
              frame_cmd frame = Psh \<and> frame_stream_id frame = 123 \<and> frame_data frame = test_data
          | _ \<Rightarrow> False))"

definition received_fin :: "('fc, frame) flume_api \<Rightarrow> 'fc \<Rightarrow> bool" where
  "received_fin F fc \<longleftrightarrow>
     (case snd (try_recv F fc) of
        Received frame \<Rightarrow> frame_cmd frame = Fin \<and> frame_stream_id frame = 123
      | _ \<Rightarrow> False)"

definition test_stream_shutdown :: "('fc, frame) flume_api \<Rightarrow> bool" where
  "test_stream_shutdown F \<longleftrightarrow>
     (let ((st, fc), r) = poll_shutdown F test_stream (bounded F 1)
      in r = Ready (Inr ()) \<and> is_write_closed st \<and> received_fin F fc)"

definition test_stream_close :: "('fc, frame) flume_api \<Rightarrow> bool" where
  "test_stream_close F \<longleftrightarrow>
     (let ((st, fc), r) = stream_close F test_stream (bounded F 1)
      in r = Ready (Inr ()) \<and> is_write_closed st \<and> received_fin F fc)"

definition test_stream_multiple_reads :: "bytes_api \<Rightarrow> ('dc, bytes) flume_api \<Rightarrow> bool" where
  "test_stream_multiple_reads B D \<longleftrightarrow>
     (let (ch, sent1) = try_send D (unbounded D) (ascii ''hello '');
          (ch, sent2) = try_send D ch (ascii ''world'');
          ((st, ch, ss), r1) = poll_read B D test_stream ch test_state 20
      in sent1 = Sent \<and> sent2 = Sent \<and>
         (case r1 of
            Ready (Inr d1) \<Rightarrow>
              (case snd (poll_read B D st ch ss (20 - length d1)) of
                 Ready (Inr d2) \<Rightarrow> d1 @ d2 = ascii ''hello world''
               | _ \<Rightarrow> False)
          | _ \<Rightarrow> False))"

definition test_stream_drop_sends_fin ::
    "('fc, frame) flume_api \<Rightarrow> ('dc, bytes) flume_api \<Rightarrow> bool" where
  "test_stream_drop_sends_fin F D \<longleftrightarrow>
     (let (fc, _) = stream_drop F D test_stream (bounded F 1) (drop_sender D (unbounded D))
      in received_fin F fc)"

definition test_stream_immediate_close_on_session_closed ::
    "bytes_api \<Rightarrow> ('fc, frame) flume_api \<Rightarrow> ('dc, bytes) flume_api \<Rightarrow> bool" where
  "test_stream_immediate_close_on_session_closed B F D \<longleftrightarrow>
     (let (ch, sent) = try_send D (unbounded D) (ascii ''test data'');
          ((st, ch, ss), r1) = poll_read B D test_stream ch test_state 10;
          (fc, w1) = poll_write F config_default st (bounded F 1) ss (ascii ''hello'');
          ss' = close ss;
          r2 = snd (poll_read B D st ch ss' 10);
          w2 = snd (poll_write F config_default st fc ss' (ascii ''should fail''))
      in \<not> is_closed test_state \<and> sent = Sent \<and> r1 = Ready (Inr (ascii ''test data'')) \<and>
         (case w1 of Ready r \<Rightarrow> is_ok r | Pending \<Rightarrow> False) \<and>
         (case r2 of Ready r \<Rightarrow> \<not> is_ok r | Pending \<Rightarrow> False) \<and>
         (case w2 of
            Ready (Inl err) \<Rightarrow>
              io_kind err = BrokenPipe \<and> sublist ''Session is closed'' (io_message err)
          | _ \<Rightarrow> False))"

text \<open>
  The test with two sessions: where it sleeps, the tasks of both sides and the transport run; its
  assertions are about the identifiers and about what the two reads return.
\<close>

definition pump :: "peer \<Rightarrow> net_action list" where
  "pump b = [At b Do_send, At b Do_send, At b Do_send, Carry b, At (other b) Do_recv, Deliver (other b)]"

definition integration_schedule :: "net_action list" where
  "integration_schedule =
     [At Client Do_open, At Client (Do_open_send 0)] @ pump Client @
     [At Server Do_accept, At Server (Do_accept_select 0), At Server (Do_accept_poll 0),
      At Client (Do_write 0 (ascii ''Hello from client!''))] @ pump Client @
     [At Server (Do_read 0 64), At Server (Do_write 0 (ascii ''Hello from server!''))] @ pump Server @
     [At Client (Do_read 0 64), At Client (Do_op 0 Op_shutdown), At Server (Do_op 0 Op_shutdown)]"

definition test_stream_integration_with_session ::
    "bytes_api \<Rightarrow> ('fc, frame) flume_api \<Rightarrow> ('dc, bytes) flume_api \<Rightarrow> ('ac, stream) flume_api \<Rightarrow> bool" where
  "test_stream_integration_with_session B F D A \<longleftrightarrow>
     (case net_execute B F D A integration_schedule (net_new F A (\<lambda>b. config_default)) of
        None \<Rightarrow> False
      | Some (log, n) \<Rightarrow>
          map (stream_id \<circ> fst) (handles (side n Client)) = map (stream_id \<circ> fst) (handles (side n Server)) \<and>
          [r. (Server, Reads sid k r) \<leftarrow> log] = [Ready (Inr (ascii ''Hello from client!''))] \<and>
          [r. (Client, Reads sid k r) \<leftarrow> log] = [Ready (Inr (ascii ''Hello from server!''))] \<and>
          list_all (\<lambda>h. is_write_closed (fst h)) (handles (side n Client) @ handles (side n Server)))"

section \<open>session.rs\<close>

text \<open>The fields of \<open>SessionInner\<close> as the tests of its methods fill them in.\<close>

definition test_inner ::
    "('fc, frame) flume_api \<Rightarrow> ('ac, stream) flume_api \<Rightarrow> u32 \<Rightarrow> bool \<Rightarrow> ('fc, 'dc, 'ac) session_inner" where
  "test_inner F A next client =
     \<lparr>streams = Map.empty, session_config = config_default, accept_ch = bounded A 1, next_id = next,
      is_client = client, frame_ch = bounded F 1, shared = session_state_new 1024, data_chs = []\<rparr>"

definition test_session_creation ::
    "('fc, frame) flume_api \<Rightarrow> ('ac, stream) flume_api \<Rightarrow> 'dc itself \<Rightarrow> bool" where
  "test_session_creation F A t \<longleftrightarrow>
     \<not> session_is_closed (session_client F A config_default :: ('fc, 'dc, 'ac) session_inner)"

definition opened_by ::
    "('fc, 'dc, 'ac) session_inner \<times> stream result poll \<Rightarrow> (u32 \<Rightarrow> bool) \<Rightarrow> bool" where
  "opened_by r P \<longleftrightarrow> (case snd r of Ready (Inr st) \<Rightarrow> P (stream_id st) | _ \<Rightarrow> False)"

definition test_session_open_stream ::
    "('fc, frame) flume_api \<Rightarrow> ('dc, bytes) flume_api \<Rightarrow> ('ac, stream) flume_api \<Rightarrow> bool" where
  "test_session_open_stream F D A \<longleftrightarrow>
     opened_by (open_stream F D (session_client F A config_default :: ('fc, 'dc, 'ac) session_inner))
       (\<lambda>sid. sid mod 2 = 1)"

definition test_session_close ::
    "('fc, frame) flume_api \<Rightarrow> ('ac, stream) flume_api \<Rightarrow> 'dc itself \<Rightarrow> bool" where
  "test_session_close F A t \<longleftrightarrow>
     (let s = session_client F A config_default :: ('fc, 'dc, 'ac) session_inner;
          (s', r) = session_close s
      in \<not> session_is_closed s \<and> is_ok r \<and> session_is_closed s' \<and>
         (case snd (accept_stream A False True s') of Ready r \<Rightarrow> \<not> is_ok r | Pending \<Rightarrow> False))"

definition test_client_server_stream_ids ::
    "('fc, frame) flume_api \<Rightarrow> ('dc, bytes) flume_api \<Rightarrow> ('ac, stream) flume_api \<Rightarrow> bool" where
  "test_client_server_stream_ids F D A \<longleftrightarrow>
     opened_by (open_stream F D (session_client F A config_default :: ('fc, 'dc, 'ac) session_inner))
       (\<lambda>sid. sid mod 2 = 1) \<and>
     opened_by (open_stream F D (session_server F A config_default :: ('fc, 'dc, 'ac) session_inner))
       (\<lambda>sid. sid mod 2 = 0)"

definition test_multiple_streams ::
    "('fc, frame) flume_api \<Rightarrow> ('dc, bytes) flume_api \<Rightarrow> ('ac, stream) flume_api \<Rightarrow> bool" where
  "test_multiple_streams F D A \<longleftrightarrow>
     (let s0 = session_client F A config_default :: ('fc, 'dc, 'ac) session_inner;
          (s1, r1) = open_stream F D s0; (s2, r2) = open_stream F D s1; (s3, r3) = open_stream F D s2
      in opened_by (s1, r1) (\<lambda>sid. sid = 1) \<and> opened_by (s2, r2) (\<lambda>sid. sid = 3) \<and>
         opened_by (s3, r3) (\<lambda>sid. sid = 5))"

definition generates :: "('fc, 'dc, 'ac) session_inner \<Rightarrow> u32 \<Rightarrow> u32 \<Rightarrow> u32 \<Rightarrow> bool" where
  "generates s a b c \<longleftrightarrow>
     (let (s, r1) = next_stream_id s; (s, r2) = next_stream_id s; (s, r3) = next_stream_id s
      in r1 = Inr a \<and> r2 = Inr b \<and> r3 = Inr c)"

definition test_client_stream_id_generation ::
    "('fc, frame) flume_api \<Rightarrow> ('ac, stream) flume_api \<Rightarrow> 'dc itself \<Rightarrow> bool" where
  "test_client_stream_id_generation F A t =
     generates (test_inner F A 1 True :: ('fc, 'dc, 'ac) session_inner) 1 3 5"

definition test_server_stream_id_generation ::
    "('fc, frame) flume_api \<Rightarrow> ('ac, stream) flume_api \<Rightarrow> 'dc itself \<Rightarrow> bool" where
  "test_server_stream_id_generation F A t =
     generates (test_inner F A 2 False :: ('fc, 'dc, 'ac) session_inner) 2 4 6"

definition test_stream_id_overflow ::
    "('fc, frame) flume_api \<Rightarrow> ('ac, stream) flume_api \<Rightarrow> 'dc itself \<Rightarrow> bool" where
  "test_stream_id_overflow F A t \<longleftrightarrow>
     \<not> is_ok (snd (next_stream_id (test_inner F A (0xFFFFFFFF - 1) True :: ('fc, 'dc, 'ac) session_inner)))"

definition test_peer_stream_id_validation ::
    "('fc, frame) flume_api \<Rightarrow> ('ac, stream) flume_api \<Rightarrow> 'dc itself \<Rightarrow> bool" where
  "test_peer_stream_id_validation F A t \<longleftrightarrow>
     (let client_inner = test_inner F A 1 True :: ('fc, 'dc, 'ac) session_inner;
          server_inner = test_inner F A 2 False :: ('fc, 'dc, 'ac) session_inner
      in is_ok (validate_peer_stream_id client_inner 2) \<and> \<not> is_ok (validate_peer_stream_id client_inner 1) \<and>
         is_ok (validate_peer_stream_id server_inner 1) \<and> \<not> is_ok (validate_peer_stream_id server_inner 2) \<and>
         \<not> is_ok (validate_peer_stream_id client_inner 0) \<and>
         \<not> is_ok (validate_peer_stream_id server_inner 0))"

section \<open>The model passes\<close>

lemma ascii_simps: "ascii [] = []" "ascii (c # s) = of_char c # ascii s"
  by (simp_all add: ascii_def)

lemma error_tests: "test_error_display \<and> test_io_error_conversion \<and> test_is_recoverable"
  by (simp add: test_error_display_def test_io_error_conversion_def test_is_recoverable_def decimal.simps
      io_error_new_def from_io_error_def)

lemma config_tests:
  "test_default_config_is_valid \<and> test_config_validation \<and> test_config_builder \<and>
   test_config_builder_validation_failure \<and> test_keep_alive_validation_when_disabled"
  by (simp add: test_default_config_is_valid_def test_config_validation_def test_config_builder_def
      test_config_builder_validation_failure_def test_keep_alive_validation_when_disabled_def
      config_validate_def config_default_def duration_from_secs_def builder_defs builder_build_def)

lemma command_tests:
  "test_command_byte_conversion \<and> test_invalid_command_byte \<and> test_command_properties \<and>
   test_upd_command_values"
  by (simp add: test_command_byte_conversion_def test_invalid_command_byte_def
      test_command_properties_def test_upd_command_values_def from_byte_def)

lemma frame_tests:
  "test_frame_creation \<and> test_frame_constructors \<and> test_frame_size_calculation \<and>
   test_frame_validation \<and> test_frame_size_validation \<and> test_control_frames_with_data \<and>
   test_stream_id_validation \<and> test_upd_frame_values"
  by (simp add: test_frame_creation_def test_frame_constructors_def test_frame_size_calculation_def
      test_frame_validation_def test_frame_size_validation_def test_control_frames_with_data_def
      test_stream_id_validation_def test_upd_frame_values_def frame_new_defs frame_validate_def
      validate_stream_id_def total_size_def data_len_def frame_is_empty_def frame_consumed_def
      frame_window_def HEADER_SIZE_def config_default_def ascii_simps)

context bytes_crate
begin

lemma round_trip: "encodable config_default f \<Longrightarrow> round_trip_test B f"
  using decode_wire_bytes [of config_default f "[]"] by (simp add: round_trip_test_def encode_encodable)

lemma encodable_test_frames:
  "encodable config_default (new_syn 1 123)" "encodable config_default (new_fin 1 123)"
  "encodable config_default (new_fin 1 456)" "encodable config_default (new_nop 1)"
  "encodable config_default (new_psh 1 123 (ascii ''hello world''))"
  "encodable config_default (new_upd 2 123 100 200)"
  by (simp_all add: encodable_def frame_valid_def frame_new_defs wire_payload_def HEADER_SIZE_def
      config_default_def u32_to_le_bytes_def ascii_simps)

lemma codec_tests:
  "test_codec_round_trip_syn B \<and> test_codec_round_trip_fin B \<and> test_codec_round_trip_psh B \<and>
   test_codec_round_trip_nop B \<and> test_codec_round_trip_upd B \<and>
   test_decode_partial_header B \<and> test_decode_partial_data B \<and> test_decode_multiple_frames B \<and>
   test_decode_oversized_frame B \<and> test_decode_invalid_protocol_version B \<and>
   test_decode_invalid_command B \<and> test_upd_frame_encoding B \<and> test_invalid_upd_data_length B"
proof (intro conjI)
  note enc = encodable_test_frames
  show "test_codec_round_trip_syn B" "test_codec_round_trip_fin B" "test_codec_round_trip_psh B"
    "test_codec_round_trip_nop B" "test_codec_round_trip_upd B"
    by (simp_all add: test_codec_round_trip_syn_def test_codec_round_trip_fin_def
        test_codec_round_trip_psh_def test_codec_round_trip_nop_def test_codec_round_trip_upd_def
        round_trip enc)
  show "test_decode_partial_header B"
    by (simp add: test_decode_partial_header_def partial_test_def encode_encodable enc decode_short
        length_wire_bytes HEADER_SIZE_def)
  show "test_decode_multiple_frames B"
    using decode_wire_bytes [OF enc(1)] decode_wire_bytes [OF enc(3), of "[]"]
    by (simp add: test_decode_multiple_frames_def encode_encodable enc decode_short HEADER_SIZE_def)
  show "test_decode_oversized_frame B"
    by (simp add: test_decode_oversized_frame_def encode_def codec_new_def frame_validate_def
        frame_new_defs total_size_def HEADER_SIZE_def config_default_def)
  have wire: "take 13 (wire_bytes (new_psh 1 123 (ascii ''hello world''))) =
      [1, 2, 11, 0, 123, 0, 0, 0, 104, 101, 108, 108, 111]"
    by (simp add: wire_bytes_def wire_header_def wire_payload_def wire_length_def frame_new_defs
        u16_to_le_bytes_def u32_to_le_bytes_def ascii_simps)
  have "snd (decode B (codec_new config_default) [1, 2, 11, 0, 123, 0, 0, 0, 104, 101, 108, 108, 111]) =
      Inr None"
    by (simp add: decode_def decode_header_def codec_new_def config_default_def bytes_laws from_byte_def
        u16_from_le_bytes_def HEADER_SIZE_def)
  then show "test_decode_partial_data B"
    by (simp add: test_decode_partial_data_def partial_test_def encode_encodable enc wire HEADER_SIZE_def
        length_wire_bytes) (simp add: wire_payload_def frame_new_defs ascii_simps)
  show "test_decode_invalid_protocol_version B" "test_decode_invalid_command B"
    "test_invalid_upd_data_length B"
    by (simp_all add: test_decode_invalid_protocol_version_def test_decode_invalid_command_def
        test_invalid_upd_data_length_def header_buffer_def bytes_laws decode_def decode_header_def
        codec_new_def config_default_def u16_to_le_bytes_def u32_to_le_bytes_def from_byte_def
        u16_from_le_bytes_def u32_from_le_bytes_def HEADER_SIZE_def frame_new_def frame_validate_def
        decode_upd_data_def)
  show "test_upd_frame_encoding B"
    using encode_encodable [OF enc(6), of "[]"]
    by (simp add: test_upd_frame_encoding_def wire_bytes_def wire_header_def wire_payload_def wire_length_def
        frame_new_defs HEADER_SIZE_def u16_to_le_bytes_def u32_to_le_bytes_def
        u16_from_le_bytes_def u32_from_le_bytes_def)
qed

end

text \<open>The tests of streams and sessions, on the instances of lists.\<close>

lemmas stream_test_simps =
  test_stream_def test_state_def stream_run_simps poll_read_def poll_read_recv_def poll_write_def
  poll_shutdown_def stream_close_def stream_close_resume_def send_async_def stream_drop_def drop_body_def
  received_fin_def frame_new_defs return_tokens_def is_closed_def is_write_closed_def is_read_closed_def
  stream_is_closed_def list_bytes_def config_default_def HEADER_SIZE_def ascii_simps

lemma stream_tests:
  "test_stream_creation \<and> test_stream_read_with_data list_bytes list_chan \<and>
   test_stream_read_eof list_bytes list_chan \<and> test_stream_write list_chan \<and>
   test_stream_shutdown list_chan \<and> test_stream_close list_chan \<and>
   test_stream_multiple_reads list_bytes list_chan \<and> test_stream_drop_sends_fin list_chan list_chan \<and>
   test_stream_immediate_close_on_session_closed list_bytes list_chan list_chan"
  by (simp add: test_stream_creation_def test_stream_read_with_data_def test_stream_read_eof_def
      test_stream_write_def test_stream_shutdown_def test_stream_close_def test_stream_multiple_reads_def
      test_stream_drop_sends_fin_def test_stream_immediate_close_on_session_closed_def stream_test_simps
      io_error_new_def)

lemma integration_test: "test_stream_integration_with_session list_bytes list_chan list_chan list_chan"
  by (simp add: test_stream_integration_with_session_def integration_schedule_def pump_def net_exec_simps
      ascii_simps is_write_closed_def)

lemma session_tests:
  "test_session_creation list_chan list_chan TYPE(bytes lchan) \<and>
   test_session_open_stream list_chan list_chan list_chan \<and>
   test_session_close list_chan list_chan TYPE(bytes lchan) \<and>
   test_client_server_stream_ids list_chan list_chan list_chan \<and>
   test_multiple_streams list_chan list_chan list_chan \<and>
   test_client_stream_id_generation list_chan list_chan TYPE(bytes lchan) \<and>
   test_server_stream_id_generation list_chan list_chan TYPE(bytes lchan) \<and>
   test_stream_id_overflow list_chan list_chan TYPE(bytes lchan) \<and>
   test_peer_stream_id_validation list_chan list_chan TYPE(bytes lchan)"
  by (simp add: test_session_creation_def test_session_open_stream_def test_session_close_def
      test_client_server_stream_ids_def test_multiple_streams_def test_client_stream_id_generation_def
      test_server_stream_id_generation_def test_stream_id_overflow_def test_peer_stream_id_validation_def
      opened_by_def generates_def test_inner_def session_client_def session_server_def exec_simps
      open_stream_def session_is_closed_def session_close_def accept_stream_def)

section \<open>All of them\<close>

text \<open>
  The model passes the unit tests: the translations of the tests of \<open>error.rs\<close>, \<open>config.rs\<close>,
  \<open>command.rs\<close> and \<open>frame.rs\<close> hold; those of \<open>codec.rs\<close> hold whatever implementation of the cursor
  operations is used; those of \<open>stream.rs\<close> and \<open>session.rs\<close>, among them the exchange between a client and
  a server session, hold on the instances of lists.
\<close>

lemma model_passes_unit_tests:
  assumes "bytes_crate B"
  shows "(test_error_display \<and> test_io_error_conversion \<and> test_is_recoverable) \<and>
    (test_default_config_is_valid \<and> test_config_validation \<and> test_config_builder \<and>
     test_config_builder_validation_failure \<and> test_keep_alive_validation_when_disabled) \<and>
    (test_command_byte_conversion \<and> test_invalid_command_byte \<and> test_command_properties \<and>
     test_upd_command_values) \<and>
    (test_frame_creation \<and> test_frame_constructors \<and> test_frame_size_calculation \<and>
     test_frame_validation \<and> test_frame_size_validation \<and> test_control_frames_with_data \<and>
     test_stream_id_validation \<and> test_upd_frame_values) \<and>
    (test_codec_round_trip_syn B \<and> test_codec_round_trip_fin B \<and> test_codec_round_trip_psh B \<and>
     test_codec_round_trip_nop B \<and> test_codec_round_trip_upd B \<and>
     test_decode_partial_header B \<and> test_decode_partial_data B \<and> test_decode_multiple_frames B \<and>
     test_decode_oversized_frame B \<and> test_decode_invalid_protocol_version B \<and>
     test_decode_invalid_command B \<and> test_upd_frame_encoding B \<and> test_invalid_upd_data_length B) \<and>
    (test_stream_creation \<and> test_stream_read_with_data list_bytes list_chan \<and>
     test_stream_read_eof list_bytes list_chan \<and> test_stream_write list_chan \<and>
     test_stream_shutdown list_chan \<and> test_stream_close list_chan \<and>
     test_stream_multiple_reads list_bytes list_chan \<and> test_stream_drop_sends_fin list_chan list_chan \<and>
     test_stream_immediate_close_on_session_closed list_bytes list_chan list_chan) \<and>
    test_stream_integration_with_session list_bytes list_chan list_chan list_chan \<and>
    (test_session_creation list_chan list_chan TYPE(bytes lchan) \<and>
     test_session_open_stream list_chan list_chan list_chan \<and>
     test_session_close list_chan list_chan TYPE(bytes lchan) \<and>
     test_client_server_stream_ids list_chan list_chan list_chan \<and>
     test_multiple_streams list_chan list_chan list_chan \<and>
     test_client_stream_id_generation list_chan list_chan TYPE(bytes lchan) \<and>
     test_server_stream_id_generation list_chan list_chan TYPE(bytes lchan) \<and>
     test_stream_id_overflow list_chan list_chan TYPE(bytes lchan) \<and>
     test_peer_stream_id_validation list_chan list_chan TYPE(bytes lchan))"
  using error_tests config_tests command_tests frame_tests bytes_crate.codec_tests [OF assms]
    stream_tests integration_test session_tests by (intro conjI) simp_all

end
