(* ===== verification/Timed_Tests.thy ===== *)
theory Timed_Tests
  imports Stalls Threads Unit_Tests
begin

text \<open>
  The unit tests of \<open>src/src/session.rs\<close> that sleep on the clock or spawn threads. What such a test sees
  depends on the schedule, so its assertions are a predicate on the states in which it makes them, and
  the model passes it when they hold in every run that reaches those states at the times of the test. The
  test \<open>test_keep_alive_disabled\<close> asserts nothing and has no translation.
\<close>

definition millis :: "nat \<Rightarrow> nat" where
  "millis ms = ms * 1000000"

section \<open>The tests\<close>

text \<open>The configurations of the tests of keep-alive: interval and timeout in milliseconds.\<close>

definition keep_alive_config :: "nat \<Rightarrow> nat \<Rightarrow> bool \<Rightarrow> config" where
  "keep_alive_config interval timeout enabled =
     config_default\<lparr>keep_alive_interval := millis interval, keep_alive_timeout := millis timeout,
                    enable_keep_alive := enabled\<rparr>"

definition both_open :: "('iv, 'fc, 'dc, 'ac) tnet \<Rightarrow> bool" where
  "both_open n \<longleftrightarrow>
     \<not> session_is_closed (inner (side (joined n) Client)) \<and>
     \<not> session_is_closed (inner (side (joined n) Server))"

text \<open>The states after the first sleep and after the second one.\<close>

definition test_keep_alive_sends_nop_frames ::
    "('iv, 'fc, 'dc, 'ac) tnet \<Rightarrow> ('iv, 'fc, 'dc, 'ac) tnet \<Rightarrow> bool" where
  "test_keep_alive_sends_nop_frames n1 n2 \<longleftrightarrow> both_open n1 \<and> both_open n2"

text \<open>The loop that sleeps as long as the session is open; \<open>polled k\<close> is the state after \<open>k\<close> retries.\<close>

function wait_closed :: "(nat \<Rightarrow> bool) \<Rightarrow> nat \<Rightarrow> nat" where
  "wait_closed is_closed_at retries =
     (if \<not> is_closed_at retries \<and> retries < 10 then wait_closed is_closed_at (retries + 1) else retries)"
  by pat_completeness auto

termination by (relation "measure (\<lambda>(p, k). 10 - k)") auto

definition test_keep_alive_timeout_closes_session ::
    "('iv, 'fc, 'dc, 'ac) timed \<Rightarrow> (nat \<Rightarrow> ('iv, 'fc, 'dc, 'ac) timed) \<Rightarrow> bool" where
  "test_keep_alive_timeout_closes_session s polled \<longleftrightarrow>
     \<not> session_is_closed (inner (sys s)) \<and>
     (let retries = wait_closed (\<lambda>k. session_is_closed (inner (sys (polled k)))) 0
      in session_is_closed (inner (sys (polled retries))))"

definition test_keep_alive_with_active_communication :: "('iv, 'fc, 'dc, 'ac) tnet \<Rightarrow> bool" where
  "test_keep_alive_with_active_communication n \<longleftrightarrow> \<not> session_is_closed (inner (side (joined n) Client))"

text \<open>Twenty threads, each of which calls \<open>next_stream_id\<close> fifty times, and what they have collected.\<close>

definition test_concurrent_id_generation :: "caller list \<Rightarrow> bool" where
  "test_concurrent_id_generation joins \<longleftrightarrow>
     (let all_ids = concat (map given joins)
      in list_all (\<lambda>sid. sid mod 2 = 1) all_ids \<and> distinct all_ids \<and>
         card (set all_ids) = length all_ids \<and> 1000 \<le> length all_ids)"

section \<open>The model passes\<close>

lemma wait_closed_closed: "p 10 \<Longrightarrow> k \<le> 10 \<Longrightarrow> p (wait_closed p k)"
proof (induction p k rule: wait_closed.induct)
  case (1 p k)
  show ?case
  proof (cases "\<not> p k \<and> k < 10")
    case True
    with 1 show ?thesis by simp
  next
    case False
    with 1 have "p k" by (cases "k = 10") auto
    with False show ?thesis by simp
  qed
qed

declare wait_closed.simps [simp del]

lemma concurrent_id_test:
  assumes "run_callers sched (1, replicate 20 (new_caller 50)) = (counter, joins)" "list_all finished joins"
  shows "test_concurrent_id_generation joins"
proof -
  have "callers_ok True 1000 (nth_id True 0, map new_caller (replicate 20 50))"
    using callers_ok_new [of True "replicate 20 50"] by (simp add: sum_list_replicate)
  from run_callers_ok [OF this, of sched] have "callers_ok True 1000 (counter, joins)"
    using assms(1) by (simp add: id_limit_def nth_id_def first_id_def)
  then obtain k where k: "k + sum_list (map calls_left joins) = 1000"
    "taken joins = mset (map (nth_id True) [0..<k])" by (auto simp: callers_ok_def)
  have "map ids_of joins = map given joins" "sum_list (map calls_left joins) = 0"
    using assms(2) by (auto simp: finished_def ids_of_def list_all_iff)
  with k have ids: "mset (concat (map given joins)) = mset (map (nth_id True) [0..<1000])"
    by (simp add: taken_def)
  then have "set (concat (map given joins)) = nth_id True ` {0..<1000}" by (metis image_set set_mset_mset set_upt)
  moreover have "nth_id True j mod 2 = 1" if "j < 1000" for j
    using peer_id_nth_id [of j True True] nth_id_nonzero [of j True] that
    by (simp add: peer_id_def id_limit_def odd_iff_mod_2_eq_one)
  ultimately have "list_all (\<lambda>sid. sid mod 2 = 1) (concat (map given joins))" by (auto simp: list_all_iff)
  moreover have "distinct (map (nth_id True) [0..<1000])" by (rule distinct_nth_ids) (simp add: id_limit_def)
  with ids have "distinct (concat (map given joins))" by (metis mset_eq_imp_distinct_iff)
  moreover have "length (concat (map given joins)) = 1000" using arg_cong [OF ids, of size] by simp
  ultimately show ?thesis
    using distinct_card [of "concat (map given joins)"]
    unfolding test_concurrent_id_generation_def Let_def by simp
qed

definition undisturbed :: "(nat \<times> peer \<times> timed_event) list \<Rightarrow> bool" where
  "undisturbed log \<longleftrightarrow>
     (\<forall>b. (b, Closes) \<notin> set (untimed_net log) \<and> (b, Transport_fails) \<notin> set (untimed_net log))"

lemma undisturbed_append: "undisturbed (log @ log') \<longleftrightarrow> undisturbed log \<and> undisturbed log'"
  by (auto simp: undisturbed_def)

lemma keep_alive_test_config:
  "wire_config (keep_alive_config i t e)" "0 < max_receive_channel_buffer_size (keep_alive_config i t e)"
  "\<lbrakk>0 < i; i < t\<rbrakk> \<Longrightarrow> keep_start (keep_alive_config i t True) = K_top"
  "keep_start (keep_alive_config i t False) = K_done"
  by (simp_all add: keep_alive_config_def wire_config_def config_default_def keep_start_def HEADER_SIZE_def millis_def)

context timed_env
begin

lemma undisturbed_open:
  fixes n :: "('iv, 'fc, 'dc, 'ac) tnet"
  assumes "tnet_run I B F D A (prompt I B F D A late) (tnet_new F A (\<lambda>b. keep_alive_config i t True)) log n"
    and "net_limits (\<lambda>b. keep_alive_config i t True) (untimed_net log)" "undisturbed log"
    and "0 < i" "millis i + 2 * late < millis t"
  shows "both_open n"
proof -
  have "millis i < millis t" using assms(5) by simp
  then have "i < t" by (simp add: millis_def)
  with heartbeat [OF assms(1,2)] keep_alive_test_config(1,3) [of i t] assms(3-5) show ?thesis
    by (simp add: both_open_def session_is_closed_def is_closed_def undisturbed_def keep_alive_config_def)
qed

end

section \<open>Properties\<close>

text \<open>
  The model passes the tests of keep-alive that assert something: with ticks at most 20 ms late, two
  sessions that exchange NOPs are both open after the sleeps of the first test and of the test with active
  communication, and a session that hears nothing is open at first and found closed by the loop that
  polls it.
\<close>

lemma model_passes_keep_alive_tests:
  fixes n1 :: "('iv, 'fc, 'dc, 'ac) tnet"
  assumes "timed_env B F D A I" "late \<le> millis 20"
    and "tnet_run I B F D A (prompt I B F D A late) (tnet_new F A (\<lambda>b. keep_alive_config 100 500 True)) log1 n1"
    and "tnet_run I B F D A (prompt I B F D A late) n1 log1' n1'"
    and "net_limits (\<lambda>b. keep_alive_config 100 500 True) (untimed_net (log1 @ log1'))" "undisturbed (log1 @ log1')"
    and "\<forall>k \<le> 10. \<exists>log. now (polled k) = millis (150 + 50 * k) \<and> limits_ok (keep_alive_config 50 100 True) (untimed log) \<and>
           last_heard log = 0 \<and>
           timed_run I B F D A (ticks_within I late) (timed_new F A (keep_alive_config 50 100 True) True) log (polled k)"
    and "tnet_run I B F D A (prompt I B F D A late) (tnet_new F A (\<lambda>b. keep_alive_config 100 200 True)) log2 n2"
    and "net_limits (\<lambda>b. keep_alive_config 100 200 True) (untimed_net log2)" "undisturbed log2"
  shows "test_keep_alive_sends_nop_frames n1 n1' \<and>
         test_keep_alive_timeout_closes_session
           (timed_new F A (keep_alive_config 50 100 True) True :: ('iv, 'fc, 'dc, 'ac) timed) polled \<and>
         test_keep_alive_with_active_communication n2"
proof (intro conjI)
  have late: "millis 100 + 2 * late < millis 500" "millis 100 + 2 * late < millis 200"
    using assms(2) by (simp_all add: millis_def)
  note up = timed_env.undisturbed_open [OF assms(1)]
  have "net_limits (\<lambda>b. keep_alive_config 100 500 True) (untimed_net log1)" using assms(5) net_limits_prefix by simp
  then show "test_keep_alive_sends_nop_frames n1 n1'"
    using up [OF assms(3) _ _ _ late(1)] up [OF timed_env.tnet_run_append [OF assms(1,4,3)] assms(5,6) _ late(1)] assms(6)
    by (simp add: test_keep_alive_sends_nop_frames_def undisturbed_append)
  show "test_keep_alive_with_active_communication n2"
    using up [OF assms(8-10) _ late(2)] by (simp add: test_keep_alive_with_active_communication_def both_open_def)
  obtain log where log: "now (polled 10) = millis 650" "limits_ok (keep_alive_config 50 100 True) (untimed log)"
    "last_heard log = 0"
    "timed_run I B F D A (ticks_within I late) (timed_new F A (keep_alive_config 50 100 True) True) log (polled 10)"
    using assms(7) [rule_format, of 10] by auto
  have "2 * (millis 100 + late) < millis 650" using assms(2) by (simp add: millis_def)
  then have "last_heard log + 2 * (keep_alive_timeout (keep_alive_config 50 100 True) + late) < now (polled 10)"
    using log(1,3) by (simp add: keep_alive_config_def)
  from timed_env.silent_closed [OF assms(1) _ log(4,2) this] have
    "session_is_closed (inner (sys (polled 10)))"
    using keep_alive_test_config(3) [of 50 100] by (simp add: session_is_closed_def is_closed_def)
  from wait_closed_closed [where p = "\<lambda>k. session_is_closed (inner (sys (polled k)))", OF this]
  show "test_keep_alive_timeout_closes_session
      (timed_new F A (keep_alive_config 50 100 True) True :: ('iv, 'fc, 'dc, 'ac) timed) polled"
    by (simp add: test_keep_alive_timeout_closes_session_def timed_new_def system_new_def session_new_def
        session_state_new_def session_is_closed_def is_closed_def)
qed

text \<open>The schedules of the tests, to the millisecond.\<close>

definition both_beat :: "tnet_action list" where
  "both_beat = beat Client @ beat Server"

definition both_check :: "tnet_action list" where
  "both_check = checks Client @ checks Server"

definition silent_log :: "(nat \<times> peer \<times> timed_event) list \<Rightarrow> bool" where
  "silent_log log \<longleftrightarrow>
     undisturbed log \<and>
     (\<forall>b. traffic (untimed (side_log b log)) = 0 \<and> opened_ids (untimed (side_log b log)) = [])"

lemma silent_limits: "silent_log log \<Longrightarrow> net_limits (\<lambda>b. keep_alive_config i t e) (untimed_net log)"
  by (simp add: silent_log_def net_limits_def limits_ok_def keep_alive_config_def config_default_def HEADER_SIZE_def
      id_limit_def)

lemma silent_append: "\<lbrakk>silent_log log; silent_log log'\<rbrakk> \<Longrightarrow> silent_log (log @ log')"
  by (simp add: silent_log_def undisturbed_append traffic_append)

type_synonym list_tnet = "(simple_interval, frame lchan, bytes lchan, stream lchan) tnet"

lemma model_passes_keep_alive_tests_witness:
  "\<exists>(n1 :: list_tnet) n1' polled (n2 :: list_tnet). test_keep_alive_sends_nop_frames n1 n1' \<and>
     clock n1 = millis 150 \<and> clock n1' = millis 350 \<and>
     test_keep_alive_timeout_closes_session (demo_timed (keep_alive_config 50 100 True)) polled \<and>
     test_keep_alive_with_active_communication n2 \<and> clock n2 = millis 300"
proof -
  let ?c1 = "keep_alive_config 100 500 True" and ?c2 = "keep_alive_config 50 100 True"
    and ?c3 = "keep_alive_config 100 200 True"
  note eval = tnet_exec_simps both_beat_def both_check_def keep_alive_config_def millis_def traffic_def
    undisturbed_def silent_log_def
  obtain log1 n1 where x1: "demo_tnet_execute
      (starts_up Client @ starts_up Server @ both_beat @ both_check @ [Pass (millis 100)] @ both_beat @
       [Pass (millis 50)]) (demo_tnet ?c1) = Some (log1, n1)"
    and n1: "clock n1 = millis 150" "silent_log log1"
      "\<exists>log1' n1'. demo_tnet_execute
        ([Pass (millis 50)] @ both_beat @ [Pass (millis 100)] @ both_beat @ [Pass (millis 50)]) n1 = Some (log1', n1') \<and>
        clock n1' = millis 350 \<and> silent_log log1'"
    by (simp add: eval)
  then obtain log1' n1' where x1': "demo_tnet_execute
      ([Pass (millis 50)] @ both_beat @ [Pass (millis 100)] @ both_beat @ [Pass (millis 50)]) n1 = Some (log1', n1')"
    and n1': "clock n1' = millis 350" "silent_log log1'" by blast
  obtain log2 n2 where x2: "demo_tnet_execute
      (starts_up Client @ starts_up Server @ both_beat @ both_check @ [Pass (millis 100)] @ both_beat @
       [Pass (millis 100)] @ both_beat @ both_check @ [Pass (millis 100)]) (demo_tnet ?c3) = Some (log2, n2)"
    and n2: "clock n2 = millis 300" "silent_log log2"
    by (simp add: eval)
  obtain log s where x3: "demo_timed_execute (ticks_within simple_intervals 0)
      (first_round @ [Wait (millis 50), Ping, Act Do_keep, Act Do_keep, Wait (millis 50), Check]) (demo_timed ?c2) =
        Some (log, s)"
    and s: "keep_at (sys s) = K_done" "now s = millis 100" "limits_ok ?c2 (untimed log)" "last_heard log = 0"
    by (simp add: timed_exec_simps first_round_def keep_alive_config_def millis_def limits_ok_def traffic_def
        last_heard_def)
  define polled where "polled k = s\<lparr>now := millis (150 + 50 * k)\<rparr>" for k
  have poll: "\<exists>log. now (polled k) = millis (150 + 50 * k) \<and> limits_ok ?c2 (untimed log) \<and> last_heard log = 0 \<and>
      timed_run simple_intervals list_bytes list_chan list_chan list_chan (ticks_within simple_intervals 0)
        (timed_new list_chan list_chan ?c2 True) log (polled k)" for k
  proof -
    have "timed_step simple_intervals list_bytes list_chan list_chan list_chan s
        (Elapses (millis (50 + 50 * k))) (polled k)"
      using timed_elapses [of _ _ _ _ _ s "millis (50 + 50 * k)"] s(2) by (simp add: polled_def millis_def)
    from timed_run.timed_snoc [OF timed_execute_run [OF x3] this] s show ?thesis
      by (intro exI [of _ "log @ [(now s, Elapses (millis (50 + 50 * k)))]"])
        (simp add: polled_def demo_timed_def ticks_within_def)
  qed
  note r1 = lst.tnet_execute_run [OF x1, unfolded demo_tnet_def] and r1' = lst.tnet_execute_run [OF x1']
    and r2 = lst.tnet_execute_run [OF x2, unfolded demo_tnet_def]
  have quiet: "silent_log (log1 @ log1')" using silent_append n1(2) n1'(2) by blast
  have "test_keep_alive_sends_nop_frames n1 n1' \<and>
      test_keep_alive_timeout_closes_session (demo_timed ?c2) polled \<and>
      test_keep_alive_with_active_communication n2"
    unfolding demo_timed_def
    by (rule model_passes_keep_alive_tests [OF lst.timed_env_axioms _ r1 r1' silent_limits [OF quiet] _ _
          r2 silent_limits [OF n2(2)] _])
      (use poll quiet n2(2) in \<open>simp_all add: silent_log_def id_limit_def\<close>)
  with n1(1) n1'(1) n2(1) show ?thesis by blast
qed

end
