(* ===== verification/Spec2Isabelle.thy ===== *)
theory Spec2Isabelle
  imports Simulation Closing Delivery Endings Pipes Hangups Timed_Tests
begin

text \<open>
  A verification library for \<open>smux\<close>, a Rust library that multiplexes many logical streams over one
  connection (\<open>src/src/\<close>).

  The program. A frame (\<open>frame.rs\<close>, \<open>command.rs\<close>) is a header of eight bytes and a payload; the codec
  (\<open>codec.rs\<close>) turns frames into bytes and back. A session (\<open>session.rs\<close>) keeps a table from stream
  identifiers to the sending ends of data channels, a frame channel that all streams write to, an
  accept queue, a counter for identifiers, and flags and counters that it shares with its streams.
  Three tasks run for it: \<open>recv_loop\<close> reads frames and hands them to \<open>handle_frame\<close>, \<open>send_loop\<close> takes
  frames from the frame channel, encodes and writes them, and \<open>keep_alive_loop\<close> sends NOP frames and
  closes a silent session. A stream (\<open>stream.rs\<close>) cuts what is written into PSH frames, sends a FIN
  when it is shut down, closed or dropped, and reads from its data channel. \<open>config.rs\<close> and \<open>error.rs\<close> are
  the configuration with its builder and the errors.

  The theories, in the order of the imports.
    \<^item> \<open>Prelude\<close>: machine integers, the question mark operator, \<open>Poll\<close>, little-endian layouts,
      sums over lists, runs that end.
    \<^item> \<open>Errors\<close>, \<open>Configuration\<close>, \<open>Commands\<close>, \<open>Frames\<close>: \<open>error.rs\<close>, \<open>config.rs\<close>, \<open>command.rs\<close>, \<open>frame.rs\<close>,
      one definition per type and function, and a specification of acceptable configurations and
      frames in terms of their fields, which the validations are proved to decide.
    \<^item> \<open>Interfaces\<close>: the third-party code. The cursor operations of the \<open>bytes\<close> crate and the channels of the
      \<open>flume\<close> crate are records of operations, which the model's definitions take as an argument;
      the locales \<open>bytes_crate\<close> and \<open>flume\<close> state their documented laws. Both are interpreted on an
      instance of lists, which witnesses compute with. \<open>DashMap\<close> is a map.
    \<^item> \<open>Framing\<close>: reading frames from a growing buffer, as \<open>Framed\<close> of \<open>tokio_util\<close> does with a decoder, in
      a locale for decoders that wait without consuming and do not change their mind; \<open>Codecs\<close>: the
      codec, which is shown to be such a decoder; the wire format as a specification, the exactness of
      decoder and encoder, and the round trip over every chunking.
    \<^item> \<open>Session_State\<close>: the shared flags and counters. The token counter is a 64-bit word.
    \<^item> \<open>Streams\<close>: one function per poll of \<open>Stream\<close>; reading conserves and completes, writing fragments,
      the frames of a stream are data and then at most one FIN.
    \<^item> \<open>Sessions\<close>: \<open>SessionInner\<close>, the operations of the handle and the handlers of frames, each up to its
      next suspension point; identifiers.
    \<^item> \<open>Demux\<close>: the well-formedness of a session, the abstract table (per identifier the chunks that wait
      to be read) and the refinement of its step by \<open>handle_frame\<close>, opening and accepting.
    \<^item> \<open>Tasks\<close>: the three tasks and the application as step relations over control points, and the
      invariant of every run; a step's event is what it shows outside: a frame that arrives or departs,
      an identifier that is taken, a read with its result, the bytes that a write accepted, a stream that is
      accepted or dropped. \<open>Runs\<close>: what holds of runs (closing, tokens, keep-alive, the wire); \<open>Executions\<close>: an
      executable scheduler, whose executions are runs.
    \<^item> \<open>Delivery\<close>: sequences of frames, and the way of one stream's data from SYN to the reader.
    \<^item> \<open>Stores\<close>: the data channels and who owns their ends, as an abstract step relation that every step of
      the system refines: no channel ever has two readers or two writers. \<open>Histories\<close>: what the events of a
      run feed into a stream and what its reader got. \<open>Outboxes\<close>: the log of the frame channel, and the
      frames of one stream in it: SYN, data, FIN. \<open>Identifiers\<close>: the identifiers of a run. \<open>Simulation\<close>: every
      run is a run of the abstract table, in which each event determines what becomes of the table.
      \<open>Closing\<close>: what a closed session still does, a receive task that a close does not reach, and the flag
      for reading that is never set.
    \<^item> \<open>Networks\<close>: a client and a server whose wires a transport carries to each other; the frames that
      arrive are the first ones that departed. \<open>Transfers\<close>: from the writer on one side to the reader on the
      other. \<open>Pipes\<close>: the abstract machine that a network implements, a pipe of bytes for every stream and
      direction. \<open>Conformance\<close>: no frame is ever queued that the encoder refuses. \<open>Progress\<close>: the tasks and the
      transport on their own come to rest, and then everything written has been delivered. \<open>Serving\<close>: so do
      they together with applications that accept in a loop, and no stream is left waiting.
      \<open>Fairness\<close>: infinite runs in which the applications do as they like; when the send tasks, the receive
      tasks and the transport are treated fairly, everything queued arrives. \<open>Hangups\<close>: in such runs a session
      ends with its transport, and when a frame comes in that is larger than the side accepts.
    \<^item> \<open>Endings\<close>: the streams whose FIN is lost. \<open>Threads\<close>: calls of \<open>next_stream_id\<close> from several threads, whose
      atomic steps interleave.
    \<^item> \<open>Intervals\<close>: the intervals of \<open>tokio\<close>, a record of operations and a locale of their documented laws like
      those of \<open>Interfaces\<close>. \<open>Clocks\<close>: a session with a clock, whose keep-alive task takes a tick only when
      its moment has come; a silent session is closed, and only a silent one. \<open>Heartbeats\<close>: two sessions with
      clocks and a transport keep each other alive. \<open>Farewells\<close>: when one of them ends, the other one closes.
      \<open>Stalls\<close>: what defeats the keep-alive.
    \<^item> \<open>Unit_Tests\<close>, \<open>Timed_Tests\<close>: the unit tests of the modules that assert something, translated. That the
      model passes them is a check of the model, not a property of its own.
    \<^item> This theory: the composition of writer, encoder, transport, decoder, session and reader, for a
      sequence of frames that is handled without a suspension.

  How state corresponds. A stream's data channel is a cell of a store (\<open>data_chs\<close>), whose address both the
  stream and the table entry hold; the frame channel and the accept queue are fields of the session.
  Operations take and return the state that they share. Dropping a handle is an operation of the
  channel. The atomics are read and written with relaxed ordering and without read-modify-write
  sequences that span suspension points, so steps interleave. A \<open>notified()\<close> future is the count of
  notifications that its task had seen when it made the future. In \<open>Tasks\<close> an interval may tick whenever
  the keep-alive task waits for it; a run of \<open>Clocks\<close> is, without its times, such a run, so all that holds of
  runs holds of timed runs. A timed log records the moment of every step.

  Time. Moments are natural numbers of nanoseconds; steps take no time, and a step \<open>Elapses\<close> lets it pass. How
  long time may pass in a state is a parameter of the timed run. \<open>any_schedule\<close> does not restrict it;
  \<open>ticks_within late\<close> says that the runtime polls the keep-alive task so that it takes no tick more than
  \<open>late\<close> after its moment; \<open>prompt\<close> says in addition that time passes in a network only when the machines
  (tasks and transport) have done the work at hand and no receive task waits for the application to
  accept. A session that hears nothing is closed after twice the sum of timeout and \<open>late\<close> at most, and one
  that the timeout closes has heard nothing for a timeout less \<open>late\<close>.

  Bounds. Lengths are natural numbers (\<open>usize\<close>); the header's length is a 16-bit word and identifiers are
  32-bit words, whose truncation and wrap-around are part of the model. The theorems on tokens assume
  less than \<open>2 ^ 63\<close> bytes of buffer and traffic, below which the counter cannot overflow. The model
  needs no fuel: the loops over buffers are total by the length of the buffer, and the tasks are
  step relations. The theorems on a network assume frame sizes that the header's length can express and
  fewer than 2147483646 streams opened on each side, and those that keep both sessions open the same
  maximal frame size on both sides; what a reader gets is stated for streams that are not read with an empty
  buffer; the steps that its machines can take are bounded
  by \<open>net_work\<close>, a weight of the bytes and frames under way, and with accepting applications by
  \<open>serving_work\<close>, which also weighs the streams in the accept queues.

  Not modelled. Wakers (a pending poll is one that the caller repeats), tracing output, the buffering
  inside the transport (\<open>Framed\<close>'s sink is modelled as written when a frame is encoded), the time that steps
  take, and dropping the last handle of a session, which ends nothing because the tasks hold the session
  themselves. \<open>Session::new\<close> does not validate its configuration; what a theorem needs of one it states.
  \<open>lib.rs\<close> declares modules and has no code.

  Infinite runs. A run of \<open>Fairness\<close> is the sequence of its states; it is weakly fair to a machine if a step
  that stays possible is taken at some time. Nothing is asked of the applications and of the keep-alive. A
  side's end of the transport is dropped when its receive task and its send task, which own its halves,
  have both returned; the other side then reads what is still under way and after it the end, and a read
  that is no frame, fails or ends makes the receive task return and close the session.

  Left open. Weak fairness is asked of the send tasks, the receive tasks and the transport, and the sessions
  of a fair run that delivers are assumed to stay open within the limits on traffic and identifiers; that the keep-alive
  keeps them open is shown for a schedule that serves everything in no time, not for a bound on the delay.

  Where the code does something else than its documentation says, a theorem says what it does: the length
  field that is cut to sixteen bits, tokens that never run out, a read flag that is never set, a read
  of zero bytes that loses data, identifiers of a server that start from 2, a header that is refused
  before its frame is complete, identifiers that are used again after an overflow, writes with a tiny
  frame size, a close that a task can miss, a receive task stuck on a full accept queue, a FIN that a drop
  or a cancelled close loses, and a keep-alive that missed ticks, a full frame channel, an unaccepted
  stream or an interval of zero turn against the session or off.
\<close>

section \<open>From one end to the other\<close>

text \<open>
  A finished stream that is read from its start: whatever the sizes of the buffers, the reader gets all
  the data, and then the end of the stream.
\<close>

context stream_env
begin

lemma read_finished_stream:
  assumes "\<not> closed ss" "contents D ch = ps" "[] \<notin> set ps" "senders_gone D ch"
    and "\<forall>n \<in> set ns. 0 < n" "length (concat ps) \<le> length ns"
    and "read_many B D (stream_new sid a, ch, ss) ns = ((st', ch', ss'), out)" "0 < n"
  shows "out = concat ps \<and> snd (poll_read B D st' ch' ss' n) = Ready (Inr [])"
proof -
  have fresh: "unread D (stream_new sid a) ch = concat ps" "chunks_ok D (stream_new sid a) ch"
    "\<not> read_closed_flag (stream_new sid a)"
    using assms(2,3) by (simp_all add: unread_def chunks_ok_def stream_new_def)
  note all = read_many_complete [OF assms(7,5) fresh(3) assms(1) fresh(2), unfolded fresh(1),
      OF assms(6)]
  obtain s2 r where p: "poll_read B D st' ch' ss' n = (s2, r)" by fastforce
  obtain st2 ch2 ss2 where s2: "s2 = (st2, ch2, ss2)" by (metis prod_cases3)
  have "r = Ready (Inr [])"
    using poll_read_open [OF p [unfolded s2] assms(8)] all assms(4) by simp
  with p all show ?thesis by simp
qed

end

section \<open>Properties\<close>

text \<open>
  C13. End to end: the application writes a buffer to a stream and shuts it down; its frames go over the
  wire after its SYN, mixed in any way with the encodable frames of other streams, and the transport
  cuts the bytes into any chunks. The receiving session, in which the identifier is free and which has
  room for the frames, decodes without an error and is never suspended; it puts a stream with this
  identifier into its accept queue, and a reader of that stream gets exactly the buffer that was
  written, whatever the sizes of its reads, and then the end of the stream.
\<close>

theorem end_to_end_delivery:
  assumes "session_env B F D A"
    and "\<not> is_closed ss" "\<not> is_write_closed st" "\<not> receivers_gone F fc"
    and "HEADER_SIZE < max_frame_size cfg"
    and "room_for F fc (Suc (length (pieces (max_frame_size cfg - HEADER_SIZE) buf)))"
    and "write_all F cfg st fc ss buf = ((fc1, rest), w)"
    and "poll_shutdown F st fc1 = ((st2, fc2), r)" "contents F fc2 = contents F fc @ sent"
    and "of_stream (stream_id st) fs = new_syn v (stream_id st) # sent"
    and "\<forall>f \<in> set fs. encodable cfg f" "concat chunks = fst (encode_all B (codec_new cfg) fs [])"
    and "can_receive D A fs s" "\<not> session_is_closed s" "peer_id (is_client s) (stream_id st)"
    and "streams s (stream_id st) = None"
  shows "rest = [] \<and> w = Ready (Inr 0) \<and> r = Ready (Inr ()) \<and>
         delivered (feed_all (decode B (codec_new cfg)) chunks) = (fs, None) \<and>
         (\<exists>s' a. recv_all F D A fs s = Some s' \<and>
            stream_new (stream_id st) a \<in> set (contents A (accept_ch s')) \<and>
            (\<forall>ns n. (\<forall>k \<in> set ns. 0 < k) \<and> length buf \<le> length ns \<and> 0 < n \<longrightarrow>
               (case read_many B D (stream_new (stream_id st) a, data_chs s' ! a, shared s') ns of
                  ((st', ch', ss'), out) \<Rightarrow>
                    out = buf \<and> snd (poll_read B D st' ch' ss' n) = Ready (Inr []))))"
proof -
  let ?sid = "stream_id st" and ?ps = "pieces (max_frame_size cfg - HEADER_SIZE) buf"
  have env: "stream_env B F D" and bytes: "bytes_crate B"
    using assms(1) session_env.axioms(1) stream_env.axioms(1) by blast+
  have cps: "concat ?ps = buf" "[] \<notin> set ?ps"
    using assms(5) pieces_bounds by (simp add: concat_pieces, blast)
  have "\<not> closed ss" "\<not> write_closed_flag st"
    using assms(2,3) by (simp_all add: is_closed_def is_write_closed_def)
  from stream_env.write_then_shutdown [OF env this assms(4,5,6)] assms(7-9)
  have sent: "rest = []" "w = Ready (Inr 0)" "r = Ready (Inr ())"
    "sent = map (new_psh 1 ?sid) ?ps @ [new_fin 1 ?sid]" by auto
  have wire: "delivered (feed_all (decode B (codec_new cfg)) chunks) = (fs, None)"
    using bytes_crate.feed_all_wire_bytes [OF bytes assms(11)] assms(12)
      bytes_crate.encode_all_encodable [OF bytes assms(11), of "[]"] by simp
  obtain s' where s': "recv_all F D A fs s = Some s'" "closed (shared s') = closed (shared s)"
    using session_env.recv_all_refines [OF assms(1,13)] by blast
  from session_env.deliver_new [OF assms(1,13,16,15) _ cps(2) s'(1)] assms(10) sent(4)
  obtain a where a: "stream_new ?sid a \<in> set (contents A (accept_ch s'))"
    "contents D (data_chs s' ! a) = ?ps" "senders_gone D (data_chs s' ! a)" by auto
  have open_session: "\<not> closed (shared s')"
    using s'(2) assms(14) by (simp add: session_is_closed_def is_closed_def)
  have "out = buf \<and> snd (poll_read B D st' ch' ss' n) = Ready (Inr [])"
    if "\<forall>k \<in> set ns. 0 < k" "length buf \<le> length ns" "0 < n"
      "read_many B D (stream_new ?sid a, data_chs s' ! a, shared s') ns = ((st', ch', ss'), out)"
    for ns n st' ch' ss' out
    using stream_env.read_finished_stream [OF env open_session a(2) cps(2) a(3) that(1) _ that(4,3)]
      that(2) cps(1) by simp
  with sent wire s'(1) a(1) show ?thesis by (auto split: prod.splits)
qed

theorem end_to_end_delivery_witness:
  "\<exists>(s' :: (frame lchan, bytes lchan, stream lchan) session_inner) a.
     recv_all list_chan list_chan list_chan
       [new_syn 1 3, new_psh 1 3 [1, 2], new_syn 1 5, new_psh 1 3 [3], new_psh 1 5 [9], new_fin 1 3]
       (session_new list_chan list_chan config_default False) = Some s' \<and>
     stream_new 3 a \<in> set (lc_queue (accept_ch s')) \<and>
     snd (read_many list_bytes list_chan (stream_new 3 a, data_chs s' ! a, shared s') [1, 5, 5]) = [1, 2, 3]"
proof -
  let ?fs = "[new_syn 1 3, new_psh 1 3 [1, 2], new_syn 1 5, new_psh 1 3 [3], new_psh 1 5 [9], new_fin 1 3]"
  let ?s = "session_new list_chan list_chan config_default False
     :: (frame lchan, bytes lchan, stream lchan) session_inner"
  let ?cfg = "config_default\<lparr>max_frame_size := 10\<rparr>" and ?buf = "[1, 2, 3] :: bytes"
  let ?fc = "chan_with (Some 8) [] False :: frame lchan"
  let ?wire = "fst (encode_all list_bytes (codec_new ?cfg) ?fs [])"
  have ps: "pieces (max_frame_size ?cfg - HEADER_SIZE) ?buf = [[1, 2], [3]]"
    by (simp add: pieces.simps HEADER_SIZE_def numeral_eq_Suc)
  have env: "\<not> is_closed (session_state_new 9)" "\<not> is_write_closed (stream_new 3 0)"
    "\<not> receivers_gone list_chan ?fc" "HEADER_SIZE < max_frame_size ?cfg"
    "room_for list_chan ?fc (Suc (length (pieces (max_frame_size ?cfg - HEADER_SIZE) ?buf)))"
    unfolding ps by (simp_all add: is_closed_def is_write_closed_def stream_run_simps)
  have id: "stream_id (stream_new 3 0) = 3" by (simp add: stream_new_def)
  have flags: "\<not> closed (session_state_new 9)" "\<not> write_closed_flag (stream_new 3 0)"
    by (simp_all add: session_state_new_def stream_new_def)
  obtain fc1 fc2 where send:
    "write_all list_chan ?cfg (stream_new 3 0) ?fc (session_state_new 9) ?buf = ((fc1, []), Ready (Inr 0))"
    "poll_shutdown list_chan (stream_new 3 0) fc1 =
       (((stream_new 3 0)\<lparr>write_closed_flag := True\<rparr>, fc2), Ready (Inr ()))"
    "contents list_chan fc2 = contents list_chan ?fc @ [new_psh 1 3 [1, 2], new_psh 1 3 [3], new_fin 1 3]"
    using ls.write_then_shutdown [OF flags env(3,4,5)] unfolding ps id by auto
  have fs: "of_stream 3 ?fs = new_syn 1 3 # [new_psh 1 3 [1, 2], new_psh 1 3 [3], new_fin 1 3]"
    by (simp add: frame_new_defs)
  have enc: "\<forall>f \<in> set ?fs. encodable ?cfg f"
    by (simp add: encodable_def frame_valid_def frame_new_defs wire_payload_def config_default_def
        HEADER_SIZE_def)
  have cut: "concat [take 7 ?wire, drop 7 ?wire] = ?wire" by simp
  have can: "can_receive list_chan list_chan ?fs ?s"
    by (rule can_receive_demo) (simp_all add: syns_def payload_bytes_def frame_new_defs)
  have s: "\<not> session_is_closed ?s" "peer_id (is_client ?s) 3" "streams ?s 3 = None"
    by (simp_all add: session_is_closed_def is_closed_def session_new_def session_state_new_def
        peer_id_def)
  from end_to_end_delivery [OF lse.session_env_axioms env send, unfolded id, OF fs enc cut can s]
  obtain s' a where "recv_all list_chan list_chan list_chan ?fs ?s = Some s'"
    "stream_new 3 a \<in> set (contents list_chan (accept_ch s'))"
    "\<And>ns n. (\<forall>k \<in> set ns. 0 < k) \<and> length ?buf \<le> length ns \<and> 0 < (n :: nat) \<Longrightarrow>
      (case read_many list_bytes list_chan (stream_new 3 a, data_chs s' ! a, shared s') ns of
         ((st', ch', ss'), out) \<Rightarrow>
           out = ?buf \<and> snd (poll_read list_bytes list_chan st' ch' ss' n) = Ready (Inr []))"
    by blast
  from this(1,2) this(3) [of "[1, 5, 5]" 1] show ?thesis
    by (intro exI [of _ s'] exI [of _ a]) (auto simp: list_chan_def split: prod.splits)
qed

end
